(* ===== verification/Prelude.thy ===== *)
theory Prelude
  imports Main "HOL-Library.Word"
begin

unbundle bit_operations_syntax

text \<open>
  Shared vocabulary of the development: the integer types of libc/common.h, its bit macros
  (and the alignment macros of libc/macros.h), the outcomes a C function can have, and the
  generic facts on words the components use.

  The kernel is built with -m32, so pointers and size_t are 32 bits wide. A C integer is a
  word of its width; where the code compares it as a signed value the model says so with sint.
\<close>

section \<open>Integer types\<close>

type_synonym u8 = "8 word"
type_synonym u16 = "16 word"
type_synonym u32 = "32 word"
type_synonym u64 = "64 word"

text \<open>Signed types have the same carrier; a signed comparison is written with sint.\<close>

type_synonym i8 = "8 word"
type_synonym i16 = "16 word"
type_synonym i32 = "32 word"

type_synonym addr = "32 word"

abbreviation NULL :: addr where
  "NULL \<equiv> 0"

section \<open>Outcomes\<close>

text \<open>
  A failing assert1 writes to address 0, which page_init leaves unmapped, so the CPU faults
  and idt_common_handler halts; a null dereference and a division by zero end there too. A
  trap is therefore an outcome of its own, beside a returned value; a loop that may not end
  has the outcome None. An access to an address no page is mapped at faults as well. hlt with the
  interrupt flag clear never returns: nothing but a non-maskable interrupt, which the model does
  not have, ends it.
\<close>

datatype trap = Assert_fail | Null_deref | Divide_error | Out_of_bounds | Page_fault | Halted

type_synonym 'a run = "(trap + 'a) option"

abbreviation Ret :: "'a \<Rightarrow> 'a run" where
  "Ret x \<equiv> Some (Inr x)"

abbreviation Trap :: "trap \<Rightarrow> 'a run" where
  "Trap t \<equiv> Some (Inl t)"

definition run_bind :: "'a run \<Rightarrow> ('a \<Rightarrow> 'b run) \<Rightarrow> 'b run" where
  "run_bind r f =
     (case r of None \<Rightarrow> None
      | Some v \<Rightarrow> (case v of Inl t \<Rightarrow> Some (Inl t) | Inr x \<Rightarrow> f x))"

lemma run_bind_simps [simp]:
  "run_bind None f = None"
  "run_bind (Trap t) f = Trap t"
  "run_bind (Ret x) f = f x"
  by (simp_all add: run_bind_def)

lemma run_bind_eq_Ret:
  "run_bind r f = Ret y \<longleftrightarrow> (\<exists>x. r = Ret x \<and> f x = Ret y)"
  by (auto simp: run_bind_def split: option.splits sum.splits)

lemma run_bind_cong [fundef_cong]:
  "r = r' \<Longrightarrow> (\<And>x. r' = Ret x \<Longrightarrow> f x = g x) \<Longrightarrow> run_bind r f = run_bind r' g"
  by (auto simp: run_bind_def split: option.splits sum.splits)

lemma run_bind_assoc: "run_bind (run_bind r f) g = run_bind r (\<lambda>x. run_bind (f x) g)"
  by (simp add: run_bind_def split: option.splits sum.splits)

lemma run_bind_Ret [simp]: "run_bind r (\<lambda>x. Ret x) = r"
  by (simp add: run_bind_def split: option.splits sum.splits)

lemma run_bind_bind:
  "run_bind r f = Option.bind r (\<lambda>v. case v of Inl t \<Rightarrow> Some (Inl t) | Inr x \<Rightarrow> f x)"
  by (simp add: run_bind_def split: option.splits)

lemma run_bind_mono [partial_function_mono]:
  assumes "mono_option B" and "\<And>y. mono_option (\<lambda>f. C y f)"
  shows "mono_option (\<lambda>f. run_bind (B f) (\<lambda>y. C y f))"
proof -
  have "mono_option (\<lambda>f. case v of Inl t \<Rightarrow> Some (Inl t) | Inr x \<Rightarrow> C x f)" for v
    using assms(2) by (cases v) (auto intro: partial_function_mono)
  then show ?thesis
    unfolding run_bind_bind by (intro bind_mono assms(1))
qed

text \<open>A loop without a trap.\<close>

definition lift_run :: "'a option \<Rightarrow> 'a run" where
  "lift_run v = map_option Inr v"

lemma lift_run_simps [simp]: "lift_run None = None" "lift_run (Some x) = Ret x"
  by (simp_all add: lift_run_def)

text \<open>
  What holds of every value a computation can return. The rules follow the structure of the
  computation and leave one goal per return, with the equations of the steps before it.
\<close>

definition ensures :: "'a run \<Rightarrow> ('a \<Rightarrow> bool) \<Rightarrow> bool" where
  "ensures r Q \<longleftrightarrow> (\<forall>x. r = Ret x \<longrightarrow> Q x)"

lemma ensuresD: "ensures r Q \<Longrightarrow> r = Ret x \<Longrightarrow> Q x"
  by (simp add: ensures_def)

lemma ensures_Ret [simp]: "ensures (Ret x) Q \<longleftrightarrow> Q x"
  by (simp add: ensures_def)

lemma ensures_Trap [simp]: "ensures (Trap t) Q" "ensures None Q"
  by (simp_all add: ensures_def)

lemma ensures_bind: "(\<And>x. r = Ret x \<Longrightarrow> ensures (f x) Q) \<Longrightarrow> ensures (run_bind r f) Q"
  by (auto simp: ensures_def run_bind_eq_Ret)

lemma ensures_prod: "(\<And>a b. p = (a, b) \<Longrightarrow> ensures (f a b) Q) \<Longrightarrow> ensures (case p of (a, b) \<Rightarrow> f a b) Q"
  by (cases p) simp

lemma ensures_option:
  "(v = None \<Longrightarrow> ensures r Q) \<Longrightarrow> (\<And>x. v = Some x \<Longrightarrow> ensures (f x) Q) \<Longrightarrow>
   ensures (case v of None \<Rightarrow> r | Some x \<Rightarrow> f x) Q"
  by (cases v) simp_all

lemma ensures_if: "(b \<Longrightarrow> ensures r Q) \<Longrightarrow> (\<not> b \<Longrightarrow> ensures r' Q) \<Longrightarrow> ensures (if b then r else r') Q"
  by simp

lemmas ensures_intros = ensures_bind ensures_prod ensures_option ensures_if

text \<open>assert1 of libc/assert.h.\<close>

definition assert1 :: "bool \<Rightarrow> unit run" where
  "assert1 c = (if c then Ret () else Trap Assert_fail)"

lemma assert1_simps [simp]:
  "assert1 True = Ret ()" "assert1 False = Trap Assert_fail"
  by (simp_all add: assert1_def)

lemma assert1_Ret [simp]: "assert1 c = Ret u \<longleftrightarrow> c"
  by (simp add: assert1_def)

section \<open>Bit macros\<close>

definition SET_BIT :: "'a::len word \<Rightarrow> 'a word \<Rightarrow> 'a word" where
  "SET_BIT val b = val OR b"

definition CLEAR_BIT :: "'a::len word \<Rightarrow> 'a word \<Rightarrow> 'a word" where
  "CLEAR_BIT val b = val AND NOT b"

definition IS_BIT_SET :: "'a::len word \<Rightarrow> 'a word \<Rightarrow> bool" where
  "IS_BIT_SET val b \<longleftrightarrow> val AND b \<noteq> 0"

definition ALIGNED :: "u32 \<Rightarrow> u32 \<Rightarrow> bool" where
  "ALIGNED a v \<longleftrightarrow> a AND (v - 1) = 0"

definition ALIGN :: "u32 \<Rightarrow> u32 \<Rightarrow> u32" where
  "ALIGN v a = (v + a - 1) AND NOT (a - 1)"

definition kb :: "u32 \<Rightarrow> u32" where
  "kb x = x * 1024"

definition mb :: "u32 \<Rightarrow> u32" where
  "mb x = kb x * 1024"

lemmas size_macros = kb_def mb_def

text \<open>
  C's division of signed 32-bit values truncates towards zero, and a shift by a variable count
  takes the count modulo 32, as the shl and shr instructions do.
\<close>

definition sdiv32 :: "i32 \<Rightarrow> i32 \<Rightarrow> i32" where
  "sdiv32 a b = word_of_int (sgn (sint a) * sgn (sint b) * (\<bar>sint a\<bar> div \<bar>sint b\<bar>))"

definition shl32 :: "u32 \<Rightarrow> u32 \<Rightarrow> u32" where
  "shl32 x n = push_bit (unat (n AND 31)) x"

section \<open>Word facts\<close>

named_theorems bit_view \<open>how an update of a bitmap or of a packed word reads back, bit by bit\<close>

lemma bit_two_power [simp]: "bit (2 ^ n :: 'a::len word) k \<longleftrightarrow> k = n \<and> n < LENGTH('a)"
  by (auto simp: bit_exp_iff possible_bit_word)

lemma SET_BIT_bit [bit_view]:
  "bit (SET_BIT w (2 ^ n)) k \<longleftrightarrow> bit (w::'a::len word) k \<or> (k = n \<and> n < LENGTH('a))"
  by (auto simp: SET_BIT_def bit_or_iff)

lemma CLEAR_BIT_bit [bit_view]:
  "bit (CLEAR_BIT w (2 ^ n)) k \<longleftrightarrow> bit (w::'a::len word) k \<and> k \<noteq> n"
  by (auto simp: CLEAR_BIT_def bit_and_iff bit_not_iff possible_bit_word dest: bit_imp_le_length)

lemma IS_BIT_SET_bit [bit_view]: "IS_BIT_SET w (2 ^ n) \<longleftrightarrow> bit (w::'a::len word) n"
proof -
  have "w AND 2 ^ n = (if bit w n then 2 ^ n else 0)"
    by (rule bit_word_eqI) (auto simp: bit_and_iff)
  moreover have "bit w n \<Longrightarrow> (2 ^ n :: 'a word) \<noteq> 0"
    by (auto dest: bit_imp_le_length)
  ultimately show ?thesis by (auto simp: IS_BIT_SET_def)
qed

lemma and_one_bit: "w AND 1 = 0 \<longleftrightarrow> \<not> bit (w::'a::len word) 0"
  by (simp add: and_one_eq bit_0 even_iff_mod_2_eq_zero)

lemma unat_Suc_add: "unat (w::u32) + 1 < 2 ^ 32 \<Longrightarrow> unat (w + 1) = unat w + 1"
  by (simp add: unat_word_ariths)

lemma unat_pred: "(w::'a::len word) \<noteq> 0 \<Longrightarrow> unat (w - 1) = unat w - 1"
  by (metis unat_minus_one)

lemma unat_u32_less: "unat (w::u32) < 2 ^ 32"
  by (rule order.strict_trans2 [OF unsigned_less]) simp

lemma unat_Suc_less: "low < (ptr::'a::len word) \<Longrightarrow> unat (low + 1) = unat low + 1"
  by unat_arith

lemma unat_add_of_nat:
  "unat (w::u32) + n < 2 ^ 32 \<Longrightarrow> unat (w + of_nat n) = unat w + n"
  by (simp add: unat_word_ariths unat_of_nat)

lemma unat_uminus_of_nat: "0 < d \<Longrightarrow> d < 2 ^ 32 \<Longrightarrow> unat (- of_nat d :: u32) = 2 ^ 32 - d"
proof -
  assume d: "0 < d" "d < 2 ^ 32"
  then have "(of_nat (2 ^ 32 - d) :: u32) = of_nat (2 ^ 32) - of_nat d" by (intro of_nat_diff) simp
  then have "- of_nat d = (of_nat (2 ^ 32 - d) :: u32)" by simp
  then show ?thesis using d by (simp only: unat_of_nat) simp
qed

lemma unat_mod_div:
  "unat (a mod b) = unat a mod unat (b::u32)" "unat (a div b) = unat a div unat b"
  by (simp_all add: unat_mod unat_div)

lemma of_nat_u32_inject:
  "a < 2 ^ 32 \<Longrightarrow> b < 2 ^ 32 \<Longrightarrow> (of_nat a :: u32) = of_nat b \<longleftrightarrow> a = b"
  by (auto dest!: arg_cong [of _ _ unat] simp: unat_of_nat)

lemma and31: "unat ((of_nat n :: u32) AND 31) = n mod 32"
proof -
  have "(of_nat n :: u32) AND 31 = take_bit 5 (of_nat n)"
    by (simp add: take_bit_eq_mask mask_eq_exp_minus_1)
  then show ?thesis
    by (simp only: unsigned_take_bit_eq) (simp add: take_bit_eq_mod unat_of_nat mod_mod_cancel)
qed

lemma unat_eqD: "unat (w::'a::len word) = n \<Longrightarrow> w = of_nat n"
  by auto

lemma shl32_of_nat: "n < 32 \<Longrightarrow> shl32 x (of_nat n) = x * 2 ^ n"
  by (simp add: shl32_def and31 push_bit_eq_mult)

lemma unat_mult_small: "unat (a::u32) * unat (b::u32) < 2 ^ 32 \<Longrightarrow> unat (a * b) = unat a * unat b"
  by (simp add: unat_word_ariths)

lemma unat_two_power: "n < 32 \<Longrightarrow> unat ((2::u32) ^ n) = 2 ^ n"
proof -
  assume "n < 32"
  then have "(2::nat) ^ n < 2 ^ 32" by (intro power_strict_increasing) auto
  then have "unat (of_nat (2 ^ n) :: u32) = 2 ^ n" by (simp only: unat_of_nat) simp
  then show ?thesis by simp
qed

lemma and_not_mask_unat: "unat (x AND NOT (mask n) :: u32) = unat x div 2 ^ n * 2 ^ n"
proof -
  have eq: "x AND NOT (mask n) = push_bit n (drop_bit n x)"
    by (rule bit_word_eqI) (auto simp: bit_and_iff bit_not_iff bit_mask_iff bit_push_bit_iff
        bit_drop_bit_eq possible_bit_word dest: bit_imp_le_length)
  have "unat x div 2 ^ n * 2 ^ n \<le> unat x" by simp
  then have "unat x div 2 ^ n * 2 ^ n < 2 ^ 32" using unat_u32_less [of x] by linarith
  moreover have "drop_bit n x = of_nat (unat x div 2 ^ n)"
    by (rule unat_eqD, simp only: unat_drop_bit_eq, simp only: drop_bit_eq_div)
  then have "push_bit n (drop_bit n x) = of_nat (unat x div 2 ^ n * 2 ^ n)"
    by (simp add: push_bit_eq_mult)
  ultimately show ?thesis unfolding eq by (simp only: unat_of_nat) simp
qed

lemma unat_ALIGN_4k:
  assumes "unat v + 4095 < 2 ^ 32"
  shows "unat (ALIGN v (kb 4)) = (unat v + 4095) div 4096 * 4096"
proof -
  have "unat (v + of_nat 4095) = unat v + 4095" using assms by (rule unat_add_of_nat)
  moreover have "ALIGN v (kb 4) = (v + of_nat 4095) AND NOT (mask 12)"
    by (simp add: ALIGN_def kb_def mask_eq_exp_minus_1 add.commute)
  ultimately show ?thesis by (simp only: and_not_mask_unat) simp
qed

lemma and_4095: "unat ((a::u32) AND 4095) = unat a mod 4096"
proof -
  have "a AND 4095 = take_bit 12 a" by (simp add: take_bit_eq_mask mask_eq_exp_minus_1)
  then show ?thesis by (simp only: unsigned_take_bit_eq) (simp add: take_bit_eq_mod)
qed

lemma ALIGNED_4k: "ALIGNED a (kb 4) \<longleftrightarrow> 4096 dvd unat a"
proof -
  have "ALIGNED a (kb 4) \<longleftrightarrow> unat (a AND 4095) = 0" by (simp add: ALIGNED_def kb_def unat_eq_0)
  then show ?thesis by (simp only: and_4095) auto
qed

text \<open>Signed characters read back with sint: 128 to 255 are negative.\<close>

lemma bit_7_int:
  assumes "0 \<le> (k::int)" and "k < 256"
  shows "bit k 7 \<longleftrightarrow> 128 \<le> k"
proof -
  have "k div 128 = (if k < 128 then 0 else 1)"
    using assms by auto
  then show ?thesis by (simp add: bit_iff_odd)
qed

lemma sint_u8: "sint (x::u8) = (if uint x < 128 then uint x else uint x - 256)"
  using uint_lt2p [of x] uint_ge_0 [of x] bit_7_int [of "uint x"]
  by (simp add: sint_uint signed_take_bit_eq_take_bit_minus take_bit_int_eq_self not_less)

lemma sint_small: "n < 2 ^ 31 \<Longrightarrow> sint (of_nat n :: u32) = int n"
  by (simp add: signed_of_nat signed_take_bit_int_eq_self)

lemma sint_eq_unat:
  assumes "unat (w::u32) < 2 ^ 31"
  shows "sint w = int (unat w)"
proof -
  obtain n where n: "w = of_nat n" "n < 2 ^ 31" using assms that [of "unat w"] by simp
  then have "sint w = int n" by (simp add: sint_small)
  moreover have "unat w = n" using n by (simp add: unat_of_nat)
  ultimately show ?thesis by simp
qed

section \<open>Bitmaps\<close>

text \<open>
  The kernel keeps three bitmaps in raw memory: the bits of the buddy trees, the slab bitmap and
  the bitmap of timer entries. Each is written by an operation that changes one bit; what
  follows for a run of updates is proved once here.
\<close>

locale bitmap =
  fixes view :: "'s \<Rightarrow> nat \<Rightarrow> bool" and put :: "'s \<Rightarrow> nat \<Rightarrow> bool \<Rightarrow> 's" and cap :: nat
  assumes view_put: "n < cap \<Longrightarrow> k < cap \<Longrightarrow> view (put s n b) k = (if k = n then b else view s k)"
begin

lemma view_fold:
  "set ns \<subseteq> {..<cap} \<Longrightarrow> k < cap \<Longrightarrow>
    view (fold (\<lambda>n s. put s n b) ns s) k = (if k \<in> set ns then b else view s k)"
  by (induction ns arbitrary: s) (auto simp: view_put)

lemma put_put_same: "n < cap \<Longrightarrow> k < cap \<Longrightarrow> view (put (put s n a) n b) k = view (put s n b) k"
  by (simp add: view_put)

lemma put_restore: "n < cap \<Longrightarrow> k < cap \<Longrightarrow> view s n = b \<Longrightarrow> view (put (put s n a) n b) k = view s k"
  by (simp add: view_put)

end

lemma ucast_low_bytes [simp]:
  "(ucast ((w::u32) AND 0xff) :: u8) = ucast w" "(ucast ((v::u16) AND 0xff) :: u8) = ucast v"
  "(ucast (w AND 0xffff) :: u16) = ucast w"
proof -
  have m: "(0xff :: u32) = mask 8" "(0xff :: u16) = mask 8" "(0xffff :: u32) = mask 16"
    by (simp_all add: mask_eq_exp_minus_1)
  show "(ucast (w AND 0xff) :: u8) = ucast w" "(ucast (v AND 0xff) :: u8) = ucast v"
    "(ucast (w AND 0xffff) :: u16) = ucast w"
    unfolding m by (rule bit_word_eqI, auto simp: bit_simps)+
qed

end
