(* ===== verification/Libc_Mem.thy ===== *)
theory Libc_Mem
  imports Prelude
begin

text \<open>
  Byte memory and the two block routines of libc/string.c, memset and memcpy. The memory maps
  every 32-bit address to a byte; multi-byte fields are read and written little endian, as the
  x86 does. A copy or a fill runs from the highest index down, as the code does.
\<close>

type_synonym mem = "addr \<Rightarrow> u8"

section \<open>Little-endian fields\<close>

definition ld16 :: "mem \<Rightarrow> addr \<Rightarrow> u16" where
  "ld16 m a = ucast (m a) OR push_bit 8 (ucast (m (a + 1)))"

definition st16 :: "mem \<Rightarrow> addr \<Rightarrow> u16 \<Rightarrow> mem" where
  "st16 m a v = m(a := ucast v, a + 1 := ucast (drop_bit 8 v))"

definition ld32 :: "mem \<Rightarrow> addr \<Rightarrow> u32" where
  "ld32 m a = ucast (m a) OR push_bit 8 (ucast (m (a + 1)))
     OR push_bit 16 (ucast (m (a + 2))) OR push_bit 24 (ucast (m (a + 3)))"

definition st32 :: "mem \<Rightarrow> addr \<Rightarrow> u32 \<Rightarrow> mem" where
  "st32 m a v = m(a := ucast v, a + 1 := ucast (drop_bit 8 v),
     a + 2 := ucast (drop_bit 16 v), a + 3 := ucast (drop_bit 24 v))"

lemma st32_apply:
  "st32 m a v b =
     (if b - a = 0 then ucast v else if b - a = 1 then ucast (drop_bit 8 v)
      else if b - a = 2 then ucast (drop_bit 16 v) else if b - a = 3 then ucast (drop_bit 24 v)
      else m b)"
proof -
  have "b = a + k \<longleftrightarrow> b - a = k" for k by (auto simp: algebra_simps)
  from this [of 0] this [of 1] this [of 2] this [of 3] show ?thesis
    by (simp add: st32_def)
qed

lemma st32_other: "4 \<le> b - a \<Longrightarrow> st32 m a v b = m b"
  by (auto simp: st32_apply word_le_nat_alt)

lemma ld32_st32_same [simp]: "ld32 (st32 m a v) a = v"
proof (rule bit_word_eqI)
  fix n :: nat
  assume n: "n < LENGTH(32)"
  have "n < 8 \<or> (8 \<le> n \<and> n < 16) \<or> (16 \<le> n \<and> n < 24) \<or> (24 \<le> n \<and> n < 32)"
    using n by auto
  then show "bit (ld32 (st32 m a v) a) n = bit v n"
    by (elim disjE)
      (auto simp: ld32_def st32_apply bit_or_iff bit_push_bit_iff bit_ucast_iff bit_drop_bit_eq)
qed

lemma ld32_cong:
  "m a = m' a \<Longrightarrow> m (a + 1) = m' (a + 1) \<Longrightarrow> m (a + 2) = m' (a + 2) \<Longrightarrow> m (a + 3) = m' (a + 3)
   \<Longrightarrow> ld32 m a = ld32 m' a"
  by (simp add: ld32_def)

lemma ld32_frame:
  assumes "\<And>j. j < 4 \<Longrightarrow> m' (a + of_nat j) = m (a + of_nat j)"
  shows "ld32 m' a = ld32 m a"
  using assms [of 0] assms [of 1] assms [of 2] assms [of 3] by (intro ld32_cong) simp_all

lemma ld32_st32_other:
  assumes "4 \<le> b - a" and "4 \<le> a - b"
  shows "ld32 (st32 m a v) b = ld32 m b"
proof (rule ld32_cong)
  have far: "4 \<le> (b + k) - a" if "k < 4" for k :: u32
    using assms that by (simp add: word_le_nat_alt word_less_nat_alt) unat_arith
  show "st32 m a v b = m b" using far [of 0] by (simp add: st32_other)
  show "st32 m a v (b + 1) = m (b + 1)" using far [of 1] by (simp add: st32_other)
  show "st32 m a v (b + 2) = m (b + 2)" using far [of 2] by (simp add: st32_other)
  show "st32 m a v (b + 3) = m (b + 3)" using far [of 3] by (simp add: st32_other)
qed

section \<open>memset and memcpy\<close>

function memset :: "mem \<Rightarrow> addr \<Rightarrow> i32 \<Rightarrow> u32 \<Rightarrow> mem" where
  "memset m s c n =
     (if n = 0 then m else memset (m(s + (n - 1) := ucast c)) s c (n - 1))"
  by pat_completeness auto
termination
  by (relation "measure (\<lambda>(m, s, c, n). unat n)") (auto simp: unat_pred unat_gt_0)

function memcpy :: "mem \<Rightarrow> addr \<Rightarrow> addr \<Rightarrow> u32 \<Rightarrow> mem" where
  "memcpy m s d n =
     (if n = 0 then m else memcpy (m(d + (n - 1) := m (s + (n - 1)))) s d (n - 1))"
  by pat_completeness auto
termination
  by (relation "measure (\<lambda>(m, s, d, n). unat n)") (auto simp: unat_pred unat_gt_0)

declare memset.simps [simp del] memcpy.simps [simp del]

lemma below_pred: "(n::u32) \<noteq> 0 \<Longrightarrow> x < n \<longleftrightarrow> x < n - 1 \<or> x = n - 1"
  by unat_arith

lemma memset_apply: "memset m s c n a = (if a - s < n then ucast c else m a)"
proof (induction m s c n rule: memset.induct)
  case (1 m s c n)
  have shift: "a = s + (n - 1) \<longleftrightarrow> a - s = n - 1" by (auto simp: algebra_simps)
  show ?case
  proof (cases "n = 0")
    case True
    then show ?thesis by (simp add: memset.simps)
  next
    case False
    let ?m = "m(s + (n - 1) := ucast c)"
    have "memset m s c n a = memset ?m s c (n - 1) a"
      using False by (simp add: memset.simps [of m s c n])
    also have "\<dots> = (if a - s < n - 1 then ucast c else ?m a)"
      using "1.IH" [OF False] .
    also have "\<dots> = (if a - s < n then ucast c else m a)"
      using below_pred [OF False, of "a - s"] shift by simp
    finally show ?thesis .
  qed
qed

text \<open>
  A read index below the written one is not the written address, as long as the source does
  not start strictly inside the destination.
\<close>

lemma copy_down_safe:
  assumes "s = d \<or> n \<le> s - d" and "(k::u32) < j" and "j < n"
  shows "s + k \<noteq> d + j"
proof
  assume "s + k = d + j"
  then have eq: "s - d = j - k" by (simp add: algebra_simps)
  show False
  proof (cases "s = d")
    case True
    with eq assms(2) show False by simp
  next
    case False
    with assms(1) eq have "n \<le> j - k" by simp
    with assms(2,3) show False
      by (metis leD le_less_trans less_imp_le word_sub_le)
  qed
qed

lemma memcpy_apply:
  "s = d \<or> n \<le> s - d \<Longrightarrow> memcpy m s d n a = (if a - d < n then m (s + (a - d)) else m a)"
proof (induction m s d n rule: memcpy.induct)
  case (1 m s d n)
  have shift: "a = d + (n - 1) \<longleftrightarrow> a - d = n - 1" by (auto simp: algebra_simps)
  show ?case
  proof (cases "n = 0")
    case True
    then show ?thesis by (simp add: memcpy.simps)
  next
    case False
    let ?m = "m(d + (n - 1) := m (s + (n - 1)))"
    have less: "n - 1 < n" using below_pred [OF False, of "n - 1"] by simp
    then have pre: "s = d \<or> n - 1 \<le> s - d"
      using "1.prems" by (auto intro: less_imp_le dest: order_trans)
    have keep: "a - d < n - 1 \<Longrightarrow> ?m (s + (a - d)) = m (s + (a - d))"
      using copy_down_safe [OF "1.prems" _ less] by simp
    have "memcpy m s d n a = memcpy ?m s d (n - 1) a"
      using False by (simp add: memcpy.simps [of m s d n])
    also have "\<dots> = (if a - d < n - 1 then ?m (s + (a - d)) else ?m a)"
      using "1.IH" [OF False pre] .
    also have "\<dots> = (if a - d < n then m (s + (a - d)) else m a)"
      using below_pred [OF False, of "a - d"] shift keep by simp
    finally show ?thesis .
  qed
qed

section \<open>Offsets\<close>

lemma unat_offset:
  assumes "a < 2 ^ 32" and "b < 2 ^ 32"
  shows "unat ((base + of_nat a) - (base + of_nat b :: addr)) = (if b \<le> a then a - b else 2 ^ 32 - (b - a))"
proof (cases "b \<le> a")
  case True
  then have "(base + of_nat a) - (base + of_nat b) = (of_nat (a - b) :: addr)" by (simp add: of_nat_diff)
  moreover have "unat (of_nat (a - b) :: addr) = a - b" using assms by (simp only: unat_of_nat) simp
  ultimately show ?thesis using True by (simp only: if_True)
next
  case False
  then have "(base + of_nat a) - (base + of_nat b) = - (of_nat (b - a) :: addr)" by (simp add: of_nat_diff)
  moreover have "unat (- of_nat (b - a) :: addr) = 2 ^ 32 - (b - a)"
    using False assms by (intro unat_uminus_of_nat) auto
  ultimately show ?thesis using False by (simp only: if_False)
qed

lemma offset_exists:
  fixes x base :: addr
  obtains k where "k < 2 ^ 32" and "x = base + of_nat k" and "unat (x - base) = k"
  using that [of "unat (x - base)"] unsigned_less [of "x - base", where 'a = nat] by simp

text \<open>The bytes of one range lie behind those of another.\<close>

lemma range_apart:
  fixes x a d :: addr
  assumes "unat (x - a) < n" and "k \<le> unat (a - d)" and "unat (a - d) + n \<le> 2 ^ 32"
  shows "k \<le> unat (x - d)"
proof -
  have "x - d = (x - a) + (a - d)" by simp
  moreover have "unat ((x - a) + (a - d)) = unat (x - a) + unat (a - d)"
    using assms(1,3) by (intro unat_add_lem [THEN iffD1]) simp
  ultimately show ?thesis using assms(2) by simp
qed

section \<open>Half and double words\<close>

lemma st16_apply: "st16 m a v b = (if b = a + 1 then ucast (drop_bit 8 v) else if b = a then ucast v else m b)"
  by (simp add: st16_def)

lemma st16_other: "2 \<le> b - a \<Longrightarrow> st16 m a v b = m b"
proof -
  assume "2 \<le> b - a"
  then have "b - a \<noteq> 0" "b - a \<noteq> 1" by (auto simp: word_le_nat_alt)
  then show ?thesis by (auto simp: st16_apply algebra_simps)
qed

lemma ld16_st16_same [simp]: "ld16 (st16 m a v) a = v"
  by (rule bit_word_eqI) (auto simp: ld16_def st16_apply bit_simps)

lemma ld16_cong: "m' a = m a \<Longrightarrow> m' (a + 1) = m (a + 1) \<Longrightarrow> ld16 m' a = ld16 m a"
  by (simp add: ld16_def)

definition ld64 :: "mem \<Rightarrow> addr \<Rightarrow> u64" where
  "ld64 m a = ucast (ld32 m a) OR push_bit 32 (ucast (ld32 m (a + 4)))"

definition st64 :: "mem \<Rightarrow> addr \<Rightarrow> u64 \<Rightarrow> mem" where
  "st64 m a v = st32 (st32 m a (ucast v)) (a + 4) (ucast (drop_bit 32 v))"

lemma ld64_st64_same [simp]: "ld64 (st64 m a v) a = v"
proof -
  have "ld32 (st32 (st32 m a (ucast v)) (a + 4) w) a = ucast v" for w
    by (subst ld32_st32_other) simp_all
  then show ?thesis
    unfolding ld64_def st64_def
    by (auto intro!: bit_word_eqI simp: bit_or_iff bit_ucast_iff bit_push_bit_iff bit_drop_bit_eq)
qed

lemma st64_other: "8 \<le> b - a \<Longrightarrow> st64 m a v b = m b"
proof -
  assume "8 \<le> b - a"
  then have "8 \<le> unat (b - a)" by (simp add: word_le_nat_alt)
  then have "4 \<le> b - a" "4 \<le> b - a - 4" by (auto simp: word_le_nat_alt unat_sub)
  then have "4 \<le> b - a" "4 \<le> b - (a + 4)" by (simp_all add: diff_diff_eq)
  then show ?thesis by (simp add: st64_def st32_other)
qed

section \<open>Arrays of words\<close>

text \<open>The words of an array of at most 2 ^ 30 entries do not overlap.\<close>

lemma entry_dist:
  assumes "i < 2 ^ 30" and "k < 2 ^ 30" and "i \<noteq> k"
  shows "4 \<le> (base + 4 * of_nat i) - (base + 4 * of_nat k :: addr)"
proof -
  have "4 \<le> unat ((base + of_nat (4 * i)) - (base + of_nat (4 * k)))"
    using assms by (subst unat_offset) (auto split: if_splits)
  then show ?thesis by (simp add: word_le_nat_alt)
qed

lemma ld32_st32_word:
  assumes "i < 2 ^ 30" and "k < 2 ^ 30"
  shows "ld32 (st32 m (base + 4 * of_nat i) v) (base + 4 * of_nat k) = (if i = k then v else ld32 m (base + 4 * of_nat k))"
proof (cases "i = k")
  case False
  then show ?thesis
    using entry_dist [OF assms, of base] entry_dist [OF assms(2,1), of base] ld32_st32_other by auto
qed simp

lemma ld32_memset_zero:
  assumes "4 * k + 4 \<le> n" and "n < 2 ^ 32"
  shows "ld32 (memset m base 0 (of_nat n)) (base + 4 * of_nat k) = 0"
proof -
  have "memset m base 0 (of_nat n) (base + 4 * of_nat k + of_nat j) = 0" if "j < 4" for j
  proof -
    have "unat (of_nat (4 * k + j) :: u32) = 4 * k + j" "unat (of_nat n :: u32) = n"
      using assms that by (simp_all only: unat_of_nat) simp_all
    then have "(of_nat (4 * k + j) :: u32) < of_nat n"
      using assms that by (simp add: word_less_nat_alt)
    moreover have "base + 4 * of_nat k + of_nat j - base = (of_nat (4 * k + j) :: u32)" by simp
    ultimately show ?thesis by (simp only: memset_apply) simp
  qed
  from this [of 0] this [of 1] this [of 2] this [of 3] show ?thesis by (simp add: ld32_def)
qed

section \<open>Properties\<close>

text \<open>memcpy copies exactly n bytes from s to d and touches nothing else, also when the two
  ranges overlap, as long as the source does not start strictly inside the destination (the copy
  runs from the last byte down).\<close>

theorem memcpy_copies:
  assumes "s = d \<or> n \<le> s - d"
  shows "(\<forall>i < n. memcpy m s d n (d + i) = m (s + i)) \<and>
    (\<forall>a. n \<le> a - d \<longrightarrow> memcpy m s d n a = m a)"
  by (auto simp: memcpy_apply [OF assms] dest: leD)

theorem memcpy_copies_witness:
  "memcpy (\<lambda>a. ucast a) 0x100 0x104 8 0x107 = ucast (0x103 :: addr) \<and>
   memcpy (\<lambda>a. ucast a) 0x100 0x104 8 0x10C = ucast (0x10C :: addr)"
proof -
  have "(\<forall>i < 8. memcpy (\<lambda>a. ucast a) 0x100 0x104 8 (0x104 + i) = ucast (0x100 + i)) \<and>
     (\<forall>a. 8 \<le> a - 0x104 \<longrightarrow> memcpy (\<lambda>a. ucast a) 0x100 0x104 8 a = ucast a)"
    by (rule memcpy_copies) simp
  note this [THEN conjunct1, rule_format, of 3] this [THEN conjunct2, rule_format, of "0x10C"]
  then show ?thesis by simp
qed

end
