(* ===== verification/Libc_String.thy ===== *)
theory Libc_String
  imports Libc_Mem
begin

text \<open>
  The string routines of libc/string.c over byte memory: strlen, itoa/uitoa, to_upper, atoi with
  its helpers, strncmp and strcmp. A char is signed, so a range test on one compares sint. Loops
  that follow a string until some byte are partial functions: None when no such byte comes.
\<close>

section \<open>C strings in memory\<close>

fun cstr :: "mem \<Rightarrow> addr \<Rightarrow> u8 list \<Rightarrow> bool" where
  "cstr m p [] \<longleftrightarrow> m p = 0"
| "cstr m p (x # xs) \<longleftrightarrow> x \<noteq> 0 \<and> m p = x \<and> cstr m (p + 1) xs"

lemma cstr_iff_nth:
  "cstr m p xs \<longleftrightarrow>
     (\<forall>i < length xs. m (p + of_nat i) = xs ! i \<and> xs ! i \<noteq> 0) \<and> m (p + of_nat (length xs)) = 0"
proof (induction xs arbitrary: p)
  case Nil
  then show ?case by simp
next
  case (Cons x xs)
  have "(\<forall>i < length (x # xs). m (p + of_nat i) = (x # xs) ! i \<and> (x # xs) ! i \<noteq> 0) \<longleftrightarrow>
      (m p = x \<and> x \<noteq> 0) \<and> (\<forall>i < length xs. m (p + 1 + of_nat i) = xs ! i \<and> xs ! i \<noteq> 0)"
    by (auto simp: less_Suc_eq_0_disj add.assoc)
  with Cons.IH [of "p + 1"] show ?case by (auto simp: add.assoc)
qed

section \<open>strlen\<close>

partial_function (option) strlen_loop :: "mem \<Rightarrow> addr \<Rightarrow> u32 \<Rightarrow> u32 option" where
  "strlen_loop m string res =
     (if m (string + res) \<noteq> 0 then strlen_loop m string (res + 1) else Some (res + 1 - 1))"

definition strlen :: "mem \<Rightarrow> addr \<Rightarrow> u32 option" where
  "strlen m string = strlen_loop m string 0"

lemma strlen_loop_cstr:
  "cstr m (s + r) xs \<Longrightarrow> strlen_loop m s r = Some (r + of_nat (length xs))"
proof (induction xs arbitrary: r)
  case Nil
  then show ?case by (simp add: strlen_loop.simps)
next
  case (Cons x xs)
  from Cons.prems have "cstr m (s + (r + 1)) xs" by (simp add: add.assoc)
  with Cons.IH [of "r + 1"] Cons.prems show ?case
    by (subst strlen_loop.simps) (simp add: add.assoc)
qed

lemma strlen_cstr: "cstr m s xs \<Longrightarrow> strlen m s = Some (of_nat (length xs))"
  using strlen_loop_cstr [of m s 0 xs] by (simp add: strlen_def)

section \<open>itoa and uitoa\<close>

text \<open>The literal "0123456789abcdefghijklmnopqrstuvwxyz", with its terminating zero byte.\<close>

definition digit_table :: "u8 list" where
  "digit_table = [48, 49, 50, 51, 52, 53, 54, 55, 56, 57,
     97, 98, 99, 100, 101, 102, 103, 104, 105, 106, 107, 108, 109, 110, 111, 112, 113, 114,
     115, 116, 117, 118, 119, 120, 121, 122, 0]"

partial_function (option) uitoa_digits :: "mem \<Rightarrow> addr \<Rightarrow> u32 \<Rightarrow> u32 \<Rightarrow> (mem \<times> addr) run" where
  "uitoa_digits m ptr value base =
     (if base = 0 then Trap Divide_error
      else if length digit_table \<le> unat (value mod base) then Trap Out_of_bounds
      else let m' = m(ptr := digit_table ! unat (value mod base)); value' = value div base
           in if value' = 0 then Ret (m', ptr + 1) else uitoa_digits m' (ptr + 1) value' base)"

function uitoa_reverse :: "mem \<Rightarrow> addr \<Rightarrow> addr \<Rightarrow> mem" where
  "uitoa_reverse m low ptr =
     (if low < ptr then uitoa_reverse (m(low := m ptr, ptr := m low)) (low + 1) (ptr - 1) else m)"
  by pat_completeness auto
termination
proof (relation "measure (\<lambda>(m, low, ptr). unat ptr - unat low)", goal_cases)
  case (2 m low ptr)
  then have "unat low < unat ptr" and "ptr \<noteq> 0" by (auto simp: word_less_nat_alt)
  moreover from this have "unat (ptr - 1) = unat ptr - 1" and "unat (low + 1) = unat low + 1"
    using 2 by (simp_all add: unat_pred unat_Suc_less)
  ultimately show ?case by simp
qed simp

declare uitoa_reverse.simps [simp del]

definition uitoa :: "mem \<Rightarrow> u32 \<Rightarrow> addr \<Rightarrow> u32 \<Rightarrow> (mem \<times> addr) run" where
  "uitoa m value str base =
     run_bind (uitoa_digits m str value base)
       (\<lambda>(m1, ptr). Ret (uitoa_reverse (m1(ptr := 0)) str (ptr - 1), str))"

definition itoa :: "mem \<Rightarrow> i32 \<Rightarrow> addr \<Rightarrow> u32 \<Rightarrow> (mem \<times> addr) run" where
  "itoa m value str base =
     (if base < 2 \<or> 36 < base then Ret (m(str := 0), str)
      else if sint value < 0 \<and> base = 10 then uitoa (m(str := 45)) (- value) (str + 1) base
      else uitoa m value str base)"

section \<open>to_upper\<close>

partial_function (option) to_upper_loop :: "mem \<Rightarrow> addr \<Rightarrow> mem option" where
  "to_upper_loop m str =
     (if m str \<noteq> 0
      then to_upper_loop
             (if 97 \<le> sint (m str) \<and> sint (m str) \<le> 122 then m(str := m str - 0x20) else m)
             (str + 1)
      else Some m)"

definition to_upper :: "mem \<Rightarrow> addr \<Rightarrow> (mem \<times> addr) option" where
  "to_upper m str = map_option (\<lambda>m'. (m', str)) (to_upper_loop m str)"

section \<open>atoi\<close>

partial_function (option) value_2_loop :: "mem \<Rightarrow> addr \<Rightarrow> i32 \<Rightarrow> i32 option" where
  "value_2_loop m c res =
     (if m c = 48 \<or> m c = 49 then value_2_loop m (c + 1) (res * 2 + (scast (m c) - 48))
      else Some res)"

definition get_value_2 :: "mem \<Rightarrow> addr \<Rightarrow> i32 option" where
  "get_value_2 m str = value_2_loop m str 0"

partial_function (option) value_10_loop :: "mem \<Rightarrow> addr \<Rightarrow> i32 \<Rightarrow> (addr \<times> i32) option" where
  "value_10_loop m c res =
     (if 48 \<le> sint (m c) \<and> sint (m c) \<le> 57
      then value_10_loop m (c + 1) (res * 10 + (scast (m c) - 48))
      else Some (c, res))"

definition get_value_10 :: "mem \<Rightarrow> addr \<Rightarrow> i32 option" where
  "get_value_10 m str =
     map_option (\<lambda>(c, res). if m c \<noteq> 0 then 0 else res) (value_10_loop m str 0)"

text \<open>On a character that is no hexadecimal digit the code computes 0 / res and leaves.\<close>

partial_function (option) value_16_loop :: "mem \<Rightarrow> addr \<Rightarrow> i32 \<Rightarrow> i32 run" where
  "value_16_loop m c res =
     (if m c = 0 then Ret res
      else if 48 \<le> sint (m c) \<and> sint (m c) \<le> 57
      then value_16_loop m (c + 1) (res * 16 + (scast (m c) - 48))
      else if 97 \<le> sint (m c) \<and> sint (m c) \<le> 102
      then value_16_loop m (c + 1) (res * 16 + (scast (m c) - 97 + 10))
      else if 65 \<le> sint (m c) \<and> sint (m c) \<le> 70
      then value_16_loop m (c + 1) (res * 16 + (scast (m c) - 65 + 10))
      else if res = 0 then Trap Divide_error else Ret 0)"

definition get_value_16 :: "mem \<Rightarrow> addr \<Rightarrow> i32 run" where
  "get_value_16 m str = value_16_loop m str 0"

definition get_base :: "mem \<Rightarrow> addr \<Rightarrow> i32" where
  "get_base m c =
     (if m c = 48
      then (if m (c + 1) = 98 \<or> m (c + 1) = 66 then 2
            else if m (c + 1) = 120 \<or> m (c + 1) = 88 then 16 else 8)
      else if m c = 45 then - 10 else 10)"

partial_function (option) skip_blanks :: "mem \<Rightarrow> addr \<Rightarrow> addr option" where
  "skip_blanks m c =
     (if m c = 32 \<or> m c = 9 then (if c \<noteq> 0 then skip_blanks m (c + 1) else Some (c + 1))
      else Some c)"

definition atoi :: "mem \<Rightarrow> addr \<Rightarrow> i32 run" where
  "atoi m str =
     run_bind (lift_run (skip_blanks m str)) (\<lambda>c0.
       let base0 = get_base m c0; neg = (base0 = - 10);
           c = (if neg then c0 + 1 else c0); base = (if neg then 10 else base0)
       in run_bind
            (if base = 2 then lift_run (get_value_2 m (c + 2))
             else if base = 10 then lift_run (get_value_10 m c)
             else if base = 16 then get_value_16 m (c + 2)
             else lift_run (get_value_10 m c))
            (\<lambda>res. Ret (if neg then - res else res)))"

section \<open>Comparison\<close>

function strncmp :: "mem \<Rightarrow> addr \<Rightarrow> addr \<Rightarrow> u32 \<Rightarrow> int" where
  "strncmp m a b num =
     (if m a = m b \<and> num - 1 \<noteq> 0 then strncmp m (a + 1) (b + 1) (num - 1)
      else sint (m a) - sint (m b))"
  by pat_completeness auto
termination
proof (relation "measure (\<lambda>(m, a, b, num). unat (num - 1))", goal_cases)
  case (2 m a b num)
  then show ?case using measure_unat [of "num - 1"] by simp
qed simp

declare strncmp.simps [simp del]

text \<open>The loop of strcmp tests the pointer it_b, not the character under it.\<close>

partial_function (option) strcmp :: "mem \<Rightarrow> addr \<Rightarrow> addr \<Rightarrow> int option" where
  "strcmp m it_a it_b =
     (if (m it_a \<noteq> 0 \<or> it_b \<noteq> NULL) \<and> m it_a = m it_b then strcmp m (it_a + 1) (it_b + 1)
      else Some (sint (m it_b) - sint (m it_a)))"


section \<open>The text of a number\<close>

text \<open>The digits of a number, most significant first, and the characters the table gives.\<close>

fun ndigits :: "nat \<Rightarrow> nat \<Rightarrow> nat list" where
  "ndigits b n = (if n < b \<or> b < 2 then [n] else ndigits b (n div b) @ [n mod b])"

declare ndigits.simps [simp del]

definition number_text :: "nat \<Rightarrow> nat \<Rightarrow> u8 list" where
  "number_text b n = map (\<lambda>d. digit_table ! d) (ndigits b n)"

lemma ndigits_nonempty [simp]: "ndigits b n \<noteq> []"
  by (subst ndigits.simps) simp

lemma ndigits_bound: "2 \<le> b \<Longrightarrow> \<forall>d \<in> set (ndigits b n). d < b"
proof (induction b n rule: ndigits.induct)
  case (1 b n)
  then show ?case by (subst ndigits.simps) auto
qed

lemma length_ndigits_le: "2 \<le> b \<Longrightarrow> n < 2 ^ k \<Longrightarrow> 0 < k \<Longrightarrow> length (ndigits b n) \<le> k"
proof (induction b n arbitrary: k rule: ndigits.induct)
  case (1 b n)
  show ?case
  proof (cases "n < b")
    case True
    with "1.prems" show ?thesis by (subst ndigits.simps) simp
  next
    case False
    then have k: "1 < k" using "1.prems" by (cases "k = 1") auto
    then have "(2::nat) ^ k = 2 * 2 ^ (k - 1)" by (cases k) auto
    moreover have "n div b \<le> n div 2" using "1.prems" by (simp add: div_le_mono2)
    ultimately have "n div b < 2 ^ (k - 1)" using "1.prems" by auto
    then have "length (ndigits b (n div b)) \<le> k - 1"
      using False "1.prems" k by (intro "1.IH") auto
    with False k "1.prems" show ?thesis by (subst ndigits.simps) auto
  qed
qed

lemma digits_value:
  "foldl (\<lambda>r d. r * of_nat b + of_nat d) (0::'a::comm_semiring_1) (ndigits b n) = of_nat n"
proof (induction b n rule: ndigits.induct)
  case (1 b n)
  show ?case
  proof (cases "n < b \<or> b < 2")
    case True
    then show ?thesis by (subst ndigits.simps) simp
  next
    case False
    with "1.IH" [OF False] have "foldl (\<lambda>r d. r * of_nat b + of_nat d) (0::'a) (ndigits b n)
        = of_nat (n div b * b + n mod b)"
      by (subst ndigits.simps) (simp only: if_False foldl_append of_nat_add of_nat_mult
          foldl_Cons foldl_Nil)
    then show ?thesis by simp
  qed
qed

lemma digit_table_nonzero: "d < 36 \<Longrightarrow> digit_table ! d \<noteq> 0"
proof -
  assume "d < 36"
  then have "d \<in> set [0..<36]" by simp
  moreover have "\<forall>d \<in> set [0..<36]. digit_table ! d \<noteq> 0"
    by (simp add: digit_table_def upt_rec)
  ultimately show ?thesis by blast
qed

lemma digit_table_decimal: "d < 10 \<Longrightarrow> digit_table ! d = 48 + of_nat d"
proof -
  assume "d < 10"
  then have "d \<in> set [0..<10]" by simp
  moreover have "\<forall>d \<in> set [0..<10]. digit_table ! d = 48 + of_nat d"
    by (simp add: digit_table_def upt_rec)
  ultimately show ?thesis by blast
qed

section \<open>What uitoa writes\<close>

fun write_bytes :: "mem \<Rightarrow> addr \<Rightarrow> u8 list \<Rightarrow> mem" where
  "write_bytes m p [] = m"
| "write_bytes m p (x # xs) = write_bytes (m(p := x)) (p + 1) xs"

lemma unat_diff_Suc:
  assumes "a \<noteq> p"
  shows "unat (a - p) = Suc (unat (a - (p + 1 :: u32)))"
proof -
  have e: "a - (p + 1) = (a - p) - 1" by simp
  have nz: "a - p \<noteq> 0" using assms by simp
  have "unat (a - (p + 1)) = unat (a - p) - 1"
    unfolding e using nz by (rule unat_pred)
  moreover have "0 < unat (a - p)" using nz unat_gt_0 by blast
  ultimately show ?thesis by simp
qed

lemma write_bytes_apply:
  "length xs \<le> 2 ^ 32 \<Longrightarrow>
   write_bytes m p xs a = (if unat (a - p) < length xs then xs ! unat (a - p) else m a)"
proof (induction xs arbitrary: m p)
  case Nil
  then show ?case by simp
next
  case (Cons x xs)
  have IH: "write_bytes (m(p := x)) (p + 1) xs a =
      (if unat (a - (p + 1)) < length xs then xs ! unat (a - (p + 1)) else (m(p := x)) a)"
    using Cons by simp
  show ?case
  proof (cases "a = p")
    case True
    have "unat (- 1 :: u32) = 2 ^ 32 - 1"
      by (simp add: unsigned_minus_1_eq_mask mask_eq_exp_minus_1)
    with Cons.prems have "\<not> unat (p - (p + 1)) < length xs" by simp
    with IH True show ?thesis by simp
  next
    case False
    with IH unat_diff_Suc [OF False] show ?thesis by auto
  qed
qed

lemma uitoa_digits_text:
  "2 \<le> base \<Longrightarrow> base \<le> 36 \<Longrightarrow>
   uitoa_digits m p v base =
     Ret (write_bytes m p (rev (number_text (unat base) (unat v))),
          p + of_nat (length (number_text (unat base) (unat v))))"
proof (induction "unat v" arbitrary: v m p rule: less_induct)
  case less
  have b: "2 \<le> unat base" "unat base \<le> 36" "base \<noteq> 0"
    using less.prems by (auto simp: word_le_nat_alt)
  then have small: "unat (v mod base) < 36"
    by (simp add: unat_mod_div order.strict_trans2 [OF mod_less_divisor])
  have v': "v div base = 0 \<longleftrightarrow> unat v < unat base"
    using b by (simp add: unat_eq_0 [symmetric] unat_mod_div div_eq_0_iff)
  have digs: "number_text (unat base) (unat v) =
      (if unat v < unat base then [] else number_text (unat base) (unat (v div base)))
        @ [digit_table ! unat (v mod base)]"
    using b by (auto simp: number_text_def ndigits.simps [of _ "unat v"] unat_mod_div)
  have step: "uitoa_digits m p v base =
      (if unat v < unat base then Ret (m(p := digit_table ! unat (v mod base)), p + 1)
       else uitoa_digits (m(p := digit_table ! unat (v mod base))) (p + 1) (v div base) base)"
    using b small v' by (subst uitoa_digits.simps) (simp add: Let_def digit_table_def)
  show ?case
  proof (cases "unat v < unat base")
    case True
    then show ?thesis by (simp add: step digs)
  next
    case False
    then have "unat (v div base) < unat v"
      using b by (simp add: unat_mod_div)
    from less.hyps [OF this less.prems] False show ?thesis
      by (simp add: step digs add.assoc)
  qed
qed

lemma shrink_ends:
  fixes x k :: u32
  assumes k: "2 \<le> k"
  shows shrink_split: "x \<le> k \<longleftrightarrow> x = 0 \<or> x = k \<or> x - 1 \<le> k - 2"
    and shrink_low: "\<not> 0 - 1 \<le> k - 2"
    and shrink_high: "\<not> k - 1 \<le> k - 2"
proof -
  have k2: "unat (k - 2) = unat k - 2" and k1: "unat (k - 1) = unat k - 1"
    and ge: "2 \<le> unat k"
    using k by (auto simp: unat_sub word_le_nat_alt unat_pred)
  show "x \<le> k \<longleftrightarrow> x = 0 \<or> x = k \<or> x - 1 \<le> k - 2"
  proof (cases "x = 0")
    case False
    then have "unat (x - 1) = unat x - 1" and "0 < unat x" by (simp_all add: unat_pred unat_gt_0)
    with k2 ge show ?thesis by (auto simp: word_le_nat_alt word_unat_eq_iff)
  qed simp
  have "unat (0 - 1 :: u32) = 2 ^ 32 - 1"
    by (simp add: unsigned_minus_1_eq_mask mask_eq_exp_minus_1)
  with k2 ge unat_u32_less [of k] show "\<not> 0 - 1 \<le> k - 2" by (simp add: word_le_nat_alt)
  show "\<not> k - 1 \<le> k - 2" using k1 k2 ge by (simp add: word_le_nat_alt)
qed

lemma uitoa_reverse_apply:
  "low \<le> ptr \<Longrightarrow>
   uitoa_reverse m low ptr a = (if a - low \<le> ptr - low then m (low + (ptr - a)) else m a)"
proof (induction m low ptr rule: uitoa_reverse.induct)
  case (1 m low ptr)
  let ?m = "m(low := m ptr, ptr := m low)"
  have mid: "low + (ptr - a) = low \<longleftrightarrow> a = ptr" "low + (ptr - a) = ptr \<longleftrightarrow> a = low"
    by (auto simp: algebra_simps)
  consider "low = ptr" | "ptr = low + 1" "low < ptr" | "low + 1 \<le> ptr - 1" "low < ptr"
  proof (cases "low < ptr")
    case True
    then have "ptr \<noteq> 0" by auto
    with True have "unat (low + 1) = unat low + 1" "unat (ptr - 1) = unat ptr - 1"
        "unat low < unat ptr"
      by (simp_all add: unat_Suc_less unat_pred word_less_nat_alt)
    then have "ptr = low + 1 \<or> low + 1 \<le> ptr - 1"
      by (auto simp: word_le_nat_alt word_unat_eq_iff)
    with that True show ?thesis by blast
  next
    case False
    with "1.prems" that(1) show ?thesis by simp
  qed
  then show ?case
  proof cases
    case 1
    then show ?thesis by (auto simp: uitoa_reverse.simps [of _ ptr ptr])
  next
    case 2
    then have "\<not> low + 1 < low" by (simp add: not_less less_imp_le)
    with 2 have "uitoa_reverse m low ptr = ?m"
      by (subst uitoa_reverse.simps, subst uitoa_reverse.simps) simp
    moreover have "a - low \<le> ptr - low \<longleftrightarrow> a = low \<or> a = ptr"
    proof -
      have "a - low \<le> 1 \<longleftrightarrow> a - low = 0 \<or> a - low = 1" by unat_arith
      with 2 show ?thesis by (auto simp: algebra_simps)
    qed
    ultimately show ?thesis using mid by (simp del: diff_diff_eq2)
  next
    case 3
    have split: "a - low \<le> ptr - low \<longleftrightarrow>
        a = low \<or> a = ptr \<or> a - (low + 1) \<le> ptr - 1 - (low + 1)"
      and ends: "\<not> low - (low + 1) \<le> ptr - 1 - (low + 1)" "\<not> ptr - (low + 1) \<le> ptr - 1 - (low + 1)"
    proof -
      have "ptr \<noteq> 0" using 3(2) by auto
      then have "unat low + 1 \<le> unat ptr - 1"
        using 3 by (simp add: word_le_nat_alt unat_Suc_less unat_pred)
      then have k: "2 \<le> ptr - low"
        using 3(2) by (simp add: word_le_nat_alt unat_sub less_imp_le)
      have eqs: "a - (low + 1) = (a - low) - 1" "low - (low + 1) = 0 - 1"
          "ptr - (low + 1) = (ptr - low) - 1" "ptr - 1 - (low + 1) = (ptr - low) - 2"
        by simp_all
      have eq0: "a - low = 0 \<longleftrightarrow> a = low" "a - low = ptr - low \<longleftrightarrow> a = ptr"
        by simp_all
      show "a - low \<le> ptr - low \<longleftrightarrow>
          a = low \<or> a = ptr \<or> a - (low + 1) \<le> ptr - 1 - (low + 1)"
        using shrink_split [OF k, of "a - low"] unfolding eqs eq0 .
      show "\<not> low - (low + 1) \<le> ptr - 1 - (low + 1)" "\<not> ptr - (low + 1) \<le> ptr - 1 - (low + 1)"
        using shrink_low [OF k] shrink_high [OF k] unfolding eqs .
    qed
    have arg: "low + 1 + (ptr - 1 - a) = low + (ptr - a)" by simp
    have "uitoa_reverse m low ptr a = uitoa_reverse ?m (low + 1) (ptr - 1) a"
      using 3 by (simp add: uitoa_reverse.simps [of m low ptr])
    also have "\<dots> = (if a - (low + 1) \<le> ptr - 1 - (low + 1) then ?m (low + (ptr - a)) else ?m a)"
      using "1.IH" [OF 3(2,1)] unfolding arg .
    also have "\<dots> = (if a - low \<le> ptr - low then m (low + (ptr - a)) else m a)"
      using split ends mid by auto
    finally show ?thesis .
  qed
qed

lemma number_text_length:
  "2 \<le> b \<Longrightarrow> 0 < length (number_text b (unat (v::u32))) \<and> length (number_text b (unat v)) \<le> 32"
  using unsigned_less [of v] length_ndigits_le [of b "unat v" 32]
  by (simp add: number_text_def)

lemma number_text_nonzero: "2 \<le> b \<Longrightarrow> b \<le> 36 \<Longrightarrow> 0 \<notin> set (number_text b n)"
  using ndigits_bound [of b n] digit_table_nonzero by (fastforce simp: number_text_def)

text \<open>What uitoa leaves in memory: the text at str, closed by a zero byte, and nothing else.\<close>

lemma uitoa_text:
  assumes base: "2 \<le> base" "base \<le> 36"
    and room: "unat str + 33 < 2 ^ 32"
  shows "\<exists>m'. uitoa m v str base = Ret (m', str)
    \<and> cstr m' str (number_text (unat base) (unat v))
    \<and> (\<forall>a. length (number_text (unat base) (unat v)) < unat (a - str) \<longrightarrow> m' a = m a)"
proof -
  define xs where "xs = number_text (unat base) (unat v)"
  define n where "n = length xs"
  have b: "2 \<le> unat base" "unat base \<le> 36"
    using base by (auto simp: word_le_nat_alt)
  have n: "0 < n" "n \<le> 32"
    using number_text_length [OF b(1), of v] by (simp_all add: n_def xs_def)
  define m1 where "m1 = (write_bytes m str (rev xs))(str + of_nat n := 0)"
  define last where "last = str + of_nat n - 1"
  have un: "unat (of_nat n - 1 :: u32) = n - 1" "(of_nat n :: u32) \<noteq> 0" "unat (of_nat n :: u32) = n"
    using n by (simp_all add: unat_pred unat_of_nat unat_eq_0 [symmetric])
  have "last = str + (of_nat n - 1)" by (simp add: last_def)
  moreover have "unat (str + (of_nat n - 1 :: u32)) = unat str + (n - 1)"
    using room n un by (simp add: unat_word_ariths)
  ultimately have last: "str \<le> last" "last - str = of_nat n - 1"
    by (simp_all add: word_le_nat_alt)
  have m1: "m1 a = (if unat (a - str) < n then xs ! (n - 1 - unat (a - str))
      else if a = str + of_nat n then 0 else m a)" for a
    using n un by (auto simp: m1_def write_bytes_apply rev_nth n_def)
  have res: "uitoa m v str base = Ret (uitoa_reverse m1 str last, str)"
    using base by (simp add: uitoa_def uitoa_digits_text m1_def last_def xs_def n_def)
  have rev: "uitoa_reverse m1 str last a = (if unat (a - str) < n then xs ! unat (a - str)
      else if a = str + of_nat n then 0 else m a)" for a
  proof (cases "unat (a - str) < n")
    case True
    define i where "i = unat (a - str)"
    have i: "Suc i \<le> n" using True by (simp add: i_def)
    have "(of_nat (n - 1 - i) :: u32) = of_nat n - 1 - of_nat i"
      using i by (simp add: of_nat_diff)
    moreover have "(of_nat i :: u32) = a - str" by (simp add: i_def)
    ultimately have "last - a = of_nat (n - 1 - i)"
      by (simp add: last_def)
    moreover have "unat (of_nat (n - 1 - i) :: u32) = n - 1 - i"
      using n by (simp add: unat_of_nat)
    moreover have "a - str \<le> last - str"
      using True un by (simp add: word_le_nat_alt last(2))
    ultimately show ?thesis
      using True n by (simp add: uitoa_reverse_apply [OF last(1)] m1 i_def [symmetric])
  next
    case False
    then have "\<not> a - str \<le> last - str"
      using un n by (simp add: word_le_nat_alt last(2))
    with False show ?thesis by (simp add: uitoa_reverse_apply [OF last(1)] m1)
  qed
  have "cstr (uitoa_reverse m1 str last) str xs"
  proof (unfold cstr_iff_nth, intro conjI allI impI)
    fix i assume "i < length xs"
    then have i: "i < n" by (simp add: n_def)
    with n have "unat (of_nat i :: u32) = i" by (simp add: unat_of_nat)
    with i show "uitoa_reverse m1 str last (str + of_nat i) = xs ! i" by (simp add: rev)
    show "xs ! i \<noteq> 0"
      using number_text_nonzero [OF b, of "unat v"] \<open>i < length xs\<close> nth_mem unfolding xs_def by metis
  qed (simp add: rev un n_def [symmetric])
  moreover have "uitoa_reverse m1 str last a = m a" if "length xs < unat (a - str)" for a
    using that un by (auto simp: rev n_def)
  ultimately show ?thesis using res by (auto simp: xs_def)
qed


section \<open>What atoi reads\<close>

lemma signed_digit: "d < 10 \<Longrightarrow> 48 \<le> sint (48 + of_nat d :: u8) \<and> sint (48 + of_nat d :: u8) \<le> 57"
  and scast_digit: "d < 10 \<Longrightarrow> (scast (48 + of_nat d :: u8) :: i32) - 48 = of_nat d"
proof -
  assume "d < 10"
  then have d: "d \<in> set [0..<10]" by simp
  have "\<forall>d \<in> set [0..<10]. 48 \<le> sint (48 + of_nat d :: u8) \<and> sint (48 + of_nat d :: u8) \<le> 57"
    by (simp add: upt_rec sint_u8)
  with d show "48 \<le> sint (48 + of_nat d :: u8) \<and> sint (48 + of_nat d :: u8) \<le> 57" by blast
  have "\<forall>d \<in> set [0..<10]. (scast (48 + of_nat d :: u8) :: i32) - 48 = of_nat d"
    by (simp add: upt_rec)
  with d show "(scast (48 + of_nat d :: u8) :: i32) - 48 = of_nat d" by blast
qed

lemma value_10_loop_digits:
  "cstr m c (map (\<lambda>d. digit_table ! d) ds) \<Longrightarrow> \<forall>d \<in> set ds. d < 10 \<Longrightarrow>
   value_10_loop m c r = Some (c + of_nat (length ds), foldl (\<lambda>r d. r * 10 + of_nat d) r ds)"
proof (induction ds arbitrary: c r)
  case Nil
  then show ?case by (simp add: value_10_loop.simps)
next
  case (Cons d ds)
  then have d: "d < 10" by simp
  with Cons show ?case
    by (subst value_10_loop.simps)
      (auto simp: digit_table_decimal signed_digit [OF d] scast_digit [OF d] add.assoc)
qed

lemma get_value_10_text:
  assumes "cstr m c (number_text 10 n)"
  shows "get_value_10 m c = Some (of_nat n)"
proof -
  have "\<forall>d \<in> set (ndigits 10 n). d < 10" by (rule ndigits_bound) simp
  then have "value_10_loop m c 0 = Some (c + of_nat (length (ndigits 10 n)), of_nat n)"
    using value_10_loop_digits [of m c "ndigits 10 n" 0] assms digits_value [of 10 n]
    by (simp add: number_text_def)
  moreover have "m (c + of_nat (length (ndigits 10 n))) = 0"
    using assms by (simp add: cstr_iff_nth number_text_def)
  ultimately show ?thesis by (simp add: get_value_10_def)
qed

text \<open>
  The first character of a decimal text is a digit, and it is 0 only for the text "0", so
  get_base sends atoi to the decimal reader (directly, or by the default branch for "0").
\<close>

lemma ndigits_hd_pos: "2 \<le> b \<Longrightarrow> 0 < n \<Longrightarrow> 0 < hd (ndigits b n)"
proof (induction b n rule: ndigits.induct)
  case (1 b n)
  show ?case
  proof (cases "n < b")
    case True
    with "1.prems" show ?thesis by (subst ndigits.simps) simp
  next
    case False
    with "1.prems" have "0 < n div b" by (simp add: div_greater_zero_iff)
    with 1 False show ?thesis by (subst ndigits.simps) simp
  qed
qed

lemma number_text_head:
  assumes "cstr m c (number_text 10 n)"
  shows "\<exists>d. d < 10 \<and> m c = 48 + of_nat d \<and> (d = 0 \<longrightarrow> m (c + 1) = 0)"
proof -
  obtain d ds where ds: "ndigits 10 n = d # ds" by (cases "ndigits 10 n") auto
  have d: "d < 10" using ndigits_bound [of 10 n] ds by simp
  have "d = 0 \<longrightarrow> n = 0" using ndigits_hd_pos [of 10 n] ds by auto
  then have "d = 0 \<longrightarrow> ds = []" using ds by (auto simp: ndigits.simps [of 10 0])
  with assms ds d show ?thesis
    by (auto simp: number_text_def digit_table_decimal)
qed

lemma decimal_char_not:
  "d < 10 \<Longrightarrow> (48 + of_nat d :: u8) \<notin> {9, 32, 45} \<and> ((48 + of_nat d :: u8) = 48 \<longleftrightarrow> d = 0)"
proof -
  assume "d < 10"
  then have "d \<in> set [0..<10]" by simp
  moreover have "\<forall>d \<in> set [0..<10].
      (48 + of_nat d :: u8) \<notin> {9, 32, 45} \<and> ((48 + of_nat d :: u8) = 48 \<longleftrightarrow> d = 0)"
    by (simp add: upt_rec)
  ultimately show ?thesis by blast
qed

lemma atoi_text:
  assumes "cstr m c (number_text 10 n)"
  shows "atoi m c = Ret (of_nat n)"
proof -
  obtain d where d: "d < 10" "m c = 48 + of_nat d" "d = 0 \<longrightarrow> m (c + 1) = 0"
    using number_text_head [OF assms] by blast
  have "skip_blanks m c = Some c"
    using d decimal_char_not [OF d(1)] by (subst skip_blanks.simps) auto
  moreover have "get_base m c = (if d = 0 then 8 else 10)"
    using d decimal_char_not [OF d(1)] by (auto simp: get_base_def)
  ultimately show ?thesis
    using get_value_10_text [OF assms] by (simp add: atoi_def Let_def)
qed

lemma atoi_minus_text:
  assumes "m c = 45" and "cstr m (c + 1) (number_text 10 n)"
  shows "atoi m c = Ret (- of_nat n)"
proof -
  have "skip_blanks m c = Some c" and "get_base m c = - 10"
    using assms by (simp_all add: skip_blanks.simps get_base_def)
  then show ?thesis
    using get_value_10_text [OF assms(2)] by (simp add: atoi_def)
qed

section \<open>What to_upper leaves\<close>

definition upper :: "u8 \<Rightarrow> u8" where
  "upper x = (if 97 \<le> sint x \<and> sint x \<le> 122 then x - 0x20 else x)"

lemma upper_nonzero: "x \<noteq> 0 \<Longrightarrow> upper x \<noteq> 0"
  by (auto simp: upper_def)

lemma cstr_upd_before:
  "cstr m (p + 1) xs \<Longrightarrow> length xs + 1 < 2 ^ 32 \<Longrightarrow> cstr (m(p := y)) (p + 1) xs"
proof -
  assume str: "cstr m (p + 1) xs" and len: "length xs + 1 < 2 ^ 32"
  have "p + 1 + of_nat i \<noteq> p" if "i \<le> length xs" for i
  proof -
    have "(of_nat (1 + i) :: u32) \<noteq> of_nat 0"
      using that len by (subst of_nat_u32_inject) auto
    then show ?thesis by (auto simp: add.assoc)
  qed
  with str show ?thesis by (simp add: cstr_iff_nth)
qed

lemma to_upper_loop_cstr:
  "cstr m p xs \<Longrightarrow> length xs < 2 ^ 32 \<Longrightarrow>
   to_upper_loop m p = Some (write_bytes m p (map upper xs))"
proof (induction xs arbitrary: m p)
  case Nil
  then show ?case by (simp add: to_upper_loop.simps)
next
  case (Cons x xs)
  then have "cstr (m(p := upper x)) (p + 1) xs" and x: "m p = x" "x \<noteq> 0"
    by (auto intro: cstr_upd_before)
  with Cons have "to_upper_loop (m(p := upper x)) (p + 1)
      = Some (write_bytes (m(p := upper x)) (p + 1) (map upper xs))"
    by simp
  moreover have "m(p := upper x) = (if 97 \<le> sint x \<and> sint x \<le> 122 then m(p := x - 0x20) else m)"
    using x by (auto simp: upper_def)
  ultimately show ?case
    using x by (cases "97 \<le> sint x \<and> sint x \<le> 122")
      (auto simp: to_upper_loop.simps [of m p])
qed

lemma cstr_write_bytes:
  assumes "cstr m p xs" and "length ys = length xs" and "0 \<notin> set ys" and "length xs < 2 ^ 32"
  shows "cstr (write_bytes m p ys) p ys"
proof (unfold cstr_iff_nth, intro conjI allI impI)
  fix i assume i: "i < length ys"
  then have "unat (of_nat i :: u32) = i" using assms by (simp add: unat_of_nat)
  with i assms show "write_bytes m p ys (p + of_nat i) = ys ! i"
    by (simp add: write_bytes_apply)
  show "ys ! i \<noteq> 0" using i assms(3) nth_mem by metis
next
  have "unat (of_nat (length ys) :: u32) = length ys" using assms by (simp add: unat_of_nat)
  with assms show "write_bytes m p ys (p + of_nat (length ys)) = 0"
    by (simp add: write_bytes_apply cstr_iff_nth)
qed

lemma cstr_nonzero: "cstr m p xs \<Longrightarrow> 0 \<notin> set xs"
  by (induction xs arbitrary: p) auto

lemma to_upper_cstr:
  assumes "cstr m p xs" and "length xs < 2 ^ 32"
  shows "\<exists>m'. to_upper m p = Some (m', p) \<and> cstr m' p (map upper xs)
    \<and> (\<forall>a. length xs \<le> unat (a - p) \<longrightarrow> m' a = m a)"
proof -
  have "0 \<notin> set (map upper xs)"
    using cstr_nonzero [OF assms(1)] upper_nonzero by (auto simp: image_iff) (metis upper_nonzero)
  then have "cstr (write_bytes m p (map upper xs)) p (map upper xs)"
    using assms by (intro cstr_write_bytes) auto
  then show ?thesis
    using to_upper_loop_cstr [OF assms] assms(2)
    by (auto simp: to_upper_def write_bytes_apply)
qed

section \<open>What the comparisons decide\<close>

lemma sint_u8_eq: "sint (x::u8) = sint y \<longleftrightarrow> x = y"
proof
  assume "sint x = sint y"
  then have "(of_int (sint x) :: u8) = of_int (sint y)" by simp
  then show "x = y" by simp
qed simp

lemma strncmp_zero_iff:
  "num \<noteq> 0 \<Longrightarrow>
   strncmp m a b num = 0 \<longleftrightarrow> (\<forall>i < unat num. m (a + of_nat i) = m (b + of_nat i))"
proof (induction m a b num rule: strncmp.induct)
  case (1 m a b num)
  then have un: "unat num = Suc (unat (num - 1))"
    by (simp add: unat_pred unat_gt_0)
  have all: "(\<forall>i < unat num. m (a + of_nat i) = m (b + of_nat i)) \<longleftrightarrow>
      m a = m b \<and> (\<forall>i < unat (num - 1). m (a + 1 + of_nat i) = m (b + 1 + of_nat i))"
    unfolding un by (auto simp: less_Suc_eq_0_disj add.assoc)
  show ?case
  proof (cases "m a = m b \<and> num - 1 \<noteq> 0")
    case True
    with "1.IH" all show ?thesis by (subst strncmp.simps) simp
  next
    case False
    then have "\<not> m a = m b \<or> unat (num - 1) = 0" by auto
    with all False show ?thesis by (subst strncmp.simps) (auto simp: sint_u8_eq)
  qed
qed

text \<open>strcmp stops at the first difference only, wherever the strings end.\<close>

lemma strcmp_first_difference:
  "\<forall>i < k. m (a + of_nat i) = m (b + of_nat i) \<Longrightarrow> m (a + of_nat k) \<noteq> m (b + of_nat k) \<Longrightarrow>
   b \<noteq> NULL \<Longrightarrow> unat b + k < 2 ^ 32 \<Longrightarrow>
   strcmp m a b = Some (sint (m (b + of_nat k)) - sint (m (a + of_nat k)))"
proof (induction k arbitrary: a b)
  case 0
  then show ?case by (subst strcmp.simps) simp
next
  case (Suc k)
  have eq: "m a = m b" using Suc.prems(1) by auto
  have "unat (b + 1) = unat b + 1" using Suc.prems(4) by (intro unat_Suc_add) simp
  then have b: "b + 1 \<noteq> NULL" "unat (b + 1) + k < 2 ^ 32"
    using Suc.prems(4) by (auto simp flip: unat_eq_0)
  have "\<forall>i < k. m (a + 1 + of_nat i) = m (b + 1 + of_nat i)"
    using Suc.prems(1) by (auto simp: add.assoc simp flip: of_nat_Suc)
  moreover have "m (a + 1 + of_nat k) \<noteq> m (b + 1 + of_nat k)"
    using Suc.prems(2) by (simp add: add.assoc)
  ultimately have "strcmp m (a + 1) (b + 1)
      = Some (sint (m (b + 1 + of_nat k)) - sint (m (a + 1 + of_nat k)))"
    using b by (intro Suc.IH) auto
  with eq Suc.prems(3) show ?case
    by (subst strcmp.simps) (simp add: add.assoc)
qed

section \<open>Properties\<close>

text \<open>C13: atoi reads back every 32-bit value itoa writes in base 10, the most negative one
  included: itoa terminates with a string in memory and atoi of that string returns the value.\<close>

theorem atoi_itoa_roundtrip:
  assumes room: "unat str + 34 < 2 ^ 32"
  shows "\<exists>m' p. itoa m v str 10 = Ret (m', p) \<and> atoi m' str = Ret v"
proof (cases "sint v < 0")
  case False
  obtain m' where "uitoa m v str 10 = Ret (m', str)" "cstr m' str (number_text 10 (unat v))"
    using uitoa_text [of 10 str m v] room by auto
  with False atoi_text [of m' str "unat v"] show ?thesis by (simp add: itoa_def)
next
  case True
  have succ: "unat (str + 1) = unat str + 1" using room by (intro unat_Suc_add) simp
  obtain m' where m': "uitoa (m(str := 45)) (- v) (str + 1) 10 = Ret (m', str + 1)"
      "cstr m' (str + 1) (number_text 10 (unat (- v)))"
    and rest: "\<forall>a. length (number_text 10 (unat (- v))) < unat (a - (str + 1))
      \<longrightarrow> m' a = (m(str := 45)) a"
    using uitoa_text [of 10 "str + 1" "m(str := 45)" "- v"] room succ by auto
  have "unat (str - (str + 1)) = 2 ^ 32 - 1"
    by (simp add: unsigned_minus_1_eq_mask mask_eq_exp_minus_1)
  moreover have "length (number_text 10 (unat (- v))) \<le> 32"
    using number_text_length [of 10 "- v"] by simp
  ultimately have "m' str = 45" using rest by simp
  from atoi_minus_text [OF this m'(2)] True m'(1) show ?thesis by (simp add: itoa_def)
qed

theorem atoi_itoa_roundtrip_witness:
  "\<exists>m' p. itoa (\<lambda>_. 0) (- 42) 0x1000 10 = Ret (m', p) \<and> atoi m' 0x1000 = Ret (- 42)"
  by (rule atoi_itoa_roundtrip) simp

text \<open>strcmp never reports two equal strings as equal. Its loop condition tests the pointer
  it_b instead of the character under it, so it runs past the terminating zero bytes to the first
  differing byte, wherever that is, and returns the (nonzero) difference there.\<close>

theorem strcmp_runs_past_terminator:
  assumes "\<forall>i < k. m (a + of_nat i) = m (b + of_nat i)"
    and "m (a + of_nat k) \<noteq> m (b + of_nat k)" and "b \<noteq> NULL" and "unat b + k < 2 ^ 32"
  shows "\<exists>r. strcmp m a b = Some r \<and> r \<noteq> 0"
  using strcmp_first_difference [OF assms] assms(2) by (auto simp: sint_u8_eq)

theorem strcmp_runs_past_terminator_witness:
  "let m = (\<lambda>_. 0)(0x1000 := 97, 0x2000 := 97, 0x2002 := 98)
   in cstr m 0x1000 [97] \<and> cstr m 0x2000 [97] \<and> (\<exists>r. strcmp m 0x1000 0x2000 = Some r \<and> r \<noteq> 0)"
  using strcmp_runs_past_terminator
    [where k = 2 and m = "(\<lambda>_. 0)(0x1000 := 97, 0x2000 := 97, 0x2002 := 98)"
      and a = "0x1000" and b = "0x2000"]
  by (simp add: Let_def less_2_cases_iff)

end
