(* ===== verification/Libc_List.thy ===== *)
theory Libc_List
  imports Prelude
begin

text \<open>
  The intrusive lists of libc/list.c. A node is an address; the heap of list nodes gives its
  next (and prev) field. A list root is the address it stores. FOR_EACH_LIST of list.h is the
  walk for_each_find, which stops at the first node a loop body accepts.

  Two locales state what the clients of lists rely on (walking a list, appending to it); the
  interpretations at the end prove it of the routines here.
\<close>

section \<open>Node heaps\<close>

type_synonym snodes = "addr \<Rightarrow> addr"

record dnodes =
  nxt :: "addr \<Rightarrow> addr"
  prv :: "addr \<Rightarrow> addr"

section \<open>Singly linked lists\<close>

definition slist_insert_head :: "addr \<Rightarrow> snodes \<Rightarrow> addr \<Rightarrow> addr \<times> snodes" where
  "slist_insert_head head h new_head = (new_head, h(new_head := head))"

definition slist_insert_after :: "snodes \<Rightarrow> addr \<Rightarrow> addr \<Rightarrow> snodes" where
  "slist_insert_after h prev node =
     (if prev \<noteq> NULL then (let h1 = h(node := h prev) in h1(prev := node)) else h)"

partial_function (option) for_each_find ::
    "(addr \<Rightarrow> bool) \<Rightarrow> (addr \<Rightarrow> addr) \<Rightarrow> addr \<Rightarrow> addr option" where
  "for_each_find P nx it =
     (if it = NULL then Some NULL else if P it then Some it else for_each_find P nx (nx it))"

section \<open>Doubly linked lists\<close>

definition dlist_insert_head :: "addr \<Rightarrow> dnodes \<Rightarrow> addr \<Rightarrow> addr \<times> dnodes" where
  "dlist_insert_head head h new_head =
     (let h1 = h\<lparr>prv := (prv h)(new_head := NULL)\<rparr>;
          h2 = (if head \<noteq> NULL
                then h1\<lparr>nxt := (nxt h1)(new_head := head), prv := (prv h1)(head := new_head)\<rparr>
                else h1)
      in (new_head, h2))"

partial_function (option) dlist_get_tail :: "dnodes \<Rightarrow> addr \<Rightarrow> addr run" where
  "dlist_get_tail h from =
     (if from = NULL then Trap Null_deref
      else if nxt h from \<noteq> NULL then dlist_get_tail h (nxt h from) else Ret from)"

definition dlist_insert :: "dnodes \<Rightarrow> addr \<Rightarrow> addr \<Rightarrow> dnodes" where
  "dlist_insert h prev new =
     (let h1 = h\<lparr>nxt := (nxt h)(new := nxt h prev)\<rparr>;
          h2 = (if nxt h1 new \<noteq> NULL then h1\<lparr>prv := (prv h1)(nxt h1 new := new)\<rparr> else h1);
          h3 = h2\<lparr>prv := (prv h2)(new := prev)\<rparr>
      in h3\<lparr>nxt := (nxt h3)(prev := new)\<rparr>)"

definition dlist_insert_tail :: "addr \<Rightarrow> dnodes \<Rightarrow> addr \<Rightarrow> (addr \<times> dnodes) run" where
  "dlist_insert_tail root h new =
     (if root = NULL then Ret (new, h)
      else run_bind (dlist_get_tail h root) (\<lambda>tail. Ret (root, dlist_insert h tail new)))"

section \<open>The sequence a heap holds\<close>

primrec chain :: "(addr \<Rightarrow> addr) \<Rightarrow> addr \<Rightarrow> addr list \<Rightarrow> addr \<Rightarrow> bool" where
  "chain nx p [] q \<longleftrightarrow> p = q"
| "chain nx p (x # xs) q \<longleftrightarrow> x \<noteq> NULL \<and> p = x \<and> chain nx (nx x) xs q"

abbreviation slist :: "(addr \<Rightarrow> addr) \<Rightarrow> addr \<Rightarrow> addr list \<Rightarrow> bool" where
  "slist nx p xs \<equiv> chain nx p xs NULL"

text \<open>Neighbours point back at each other; the prev field of the first node is not read.\<close>

fun linked_back :: "(addr \<Rightarrow> addr) \<Rightarrow> addr list \<Rightarrow> bool" where
  "linked_back pv (x # y # xs) \<longleftrightarrow> pv y = x \<and> linked_back pv (y # xs)"
| "linked_back pv xs \<longleftrightarrow> True"

definition dlist :: "dnodes \<Rightarrow> addr \<Rightarrow> addr list \<Rightarrow> bool" where
  "dlist h p xs \<longleftrightarrow> slist (nxt h) p xs \<and> linked_back (prv h) xs"

lemma chain_append:
  "chain nx p (xs @ ys) q \<longleftrightarrow> (\<exists>r. chain nx p xs r \<and> chain nx r ys q)"
  by (induction xs arbitrary: p) auto

lemma chain_frame:
  "\<forall>x \<in> set xs. nx' x = nx x \<Longrightarrow> chain nx' p xs q = chain nx p xs q"
  by (induction xs arbitrary: p) auto

lemma chain_upd [simp]: "a \<notin> set xs \<Longrightarrow> chain (nx(a := b)) p xs q = chain nx p xs q"
  by (rule chain_frame) auto

lemma chain_nonnull: "chain nx p xs q \<Longrightarrow> NULL \<notin> set xs"
  by (induction xs arbitrary: p) auto

lemma slist_NULL [simp]: "slist nx NULL xs \<longleftrightarrow> xs = []"
  by (cases xs) auto

lemma slist_unique: "slist nx p xs \<Longrightarrow> slist nx p ys \<Longrightarrow> xs = ys"
proof (induction xs arbitrary: p ys)
  case (Cons x xs)
  then show ?case by (cases ys) auto
qed simp

lemma slist_hd_fresh: "slist nx (nx x) xs \<Longrightarrow> x \<noteq> NULL \<Longrightarrow> x \<notin> set xs"
proof
  assume list: "slist nx (nx x) xs" and nn: "x \<noteq> NULL" and "x \<in> set xs"
  then obtain us vs where "xs = us @ x # vs" by (meson split_list)
  with list nn have "slist nx (nx x) vs" by (auto simp: chain_append)
  then have "vs = xs" using list slist_unique by blast
  with \<open>xs = us @ x # vs\<close> show False by simp
qed

lemma slist_distinct: "slist nx p xs \<Longrightarrow> distinct xs"
  by (induction xs arbitrary: p) (auto dest: slist_hd_fresh)

lemma slist_insert_head_chain:
  assumes "slist h p xs" and "n \<notin> set xs" and "n \<noteq> NULL"
  shows "slist (snd (slist_insert_head p h n)) (fst (slist_insert_head p h n)) (n # xs)"
  using assms by (simp add: slist_insert_head_def)

lemma slist_insert_after_chain:
  assumes list: "slist h p (xs @ a # ys)" and new: "n \<notin> set (xs @ a # ys)" "n \<noteq> NULL"
  shows "slist (slist_insert_after h a n) p (xs @ a # n # ys)"
proof -
  have "a \<notin> set xs" "a \<notin> set ys" "a \<noteq> NULL"
    using slist_distinct [OF list] chain_nonnull [OF list] by auto
  with list new show ?thesis
    by (auto simp: slist_insert_after_def Let_def chain_append)
qed

lemma for_each_find_slist:
  "slist nx p xs \<Longrightarrow>
   for_each_find P nx p = Some (case find P xs of None \<Rightarrow> NULL | Some x \<Rightarrow> x)"
proof (induction xs arbitrary: p)
  case Nil
  then show ?case by (simp add: for_each_find.simps)
next
  case (Cons x xs)
  then show ?case by (subst for_each_find.simps) auto
qed

section \<open>Appending to a doubly linked list\<close>

lemma dlist_get_tail_last:
  "slist (nxt h) p (xs @ [t]) \<Longrightarrow> dlist_get_tail h p = Ret t"
proof (induction xs arbitrary: p)
  case Nil
  then show ?case by (auto simp: dlist_get_tail.simps)
next
  case (Cons x xs)
  then have "nxt h x \<noteq> NULL" by (cases xs) auto
  with Cons show ?case by (subst dlist_get_tail.simps) auto
qed

lemma linked_back_append:
  "linked_back pv (xs @ y # ys) \<longleftrightarrow> linked_back pv (xs @ [y]) \<and> linked_back pv (y # ys)"
  by (induction pv xs rule: linked_back.induct) (auto simp: neq_Nil_conv)

lemma linked_back_upd: "a \<notin> set (tl xs) \<Longrightarrow> linked_back (pv(a := b)) xs = linked_back pv xs"
  by (induction pv xs rule: linked_back.induct) auto

lemma linked_back_frame [simp]: "a \<notin> set xs \<Longrightarrow> linked_back (pv(a := b)) xs = linked_back pv xs"
  by (rule linked_back_upd) (cases xs; simp)

lemma dlist_insert_middle:
  assumes list: "dlist h p (xs @ a # ys)" and new: "n \<notin> set (xs @ a # ys)" "n \<noteq> NULL"
  shows "dlist (dlist_insert h a n) p (xs @ a # n # ys)"
proof -
  have chain: "slist (nxt h) p (xs @ a # ys)" and links: "linked_back (prv h) (xs @ a # ys)"
    using list by (auto simp: dlist_def)
  have dist: "a \<notin> set xs" "a \<notin> set ys" "distinct ys" "set xs \<inter> set ys = {}" "a \<noteq> NULL"
    using slist_distinct [OF chain] chain_nonnull [OF chain] by auto
  have next_a: "nxt h a = (case ys of [] \<Rightarrow> NULL | y # _ \<Rightarrow> y)" "NULL \<notin> set ys"
    using chain chain_nonnull [OF chain] by (auto simp: chain_append split: list.splits)
  have nxt: "nxt (dlist_insert h a n) = (nxt h)(n := nxt h a, a := n)"
    using new by (auto simp: dlist_insert_def Let_def)
  have prv: "prv (dlist_insert h a n) =
      (if ys = [] then (prv h)(n := a) else (prv h)(hd ys := n, n := a))"
    using new next_a by (auto simp: dlist_insert_def Let_def split: list.splits)
  have "slist (nxt (dlist_insert h a n)) p (xs @ a # n # ys)"
    using chain new dist by (auto simp: nxt chain_append)
  moreover have "linked_back (prv (dlist_insert h a n)) (xs @ a # n # ys)"
  proof -
    have "linked_back (prv h) (xs @ [a])" "linked_back (prv h) (a # ys)"
      using links by (simp_all only: linked_back_append [of _ xs a ys])
    then show ?thesis
      using new dist unfolding linked_back_append [of _ xs a "n # ys"] prv
      by (cases ys) (auto simp: linked_back_upd)
  qed
  ultimately show ?thesis by (simp add: dlist_def)
qed

lemma dlist_insert_tail_append:
  assumes list: "dlist h p xs" and new: "n \<notin> set xs" "n \<noteq> NULL" "nxt h n = NULL"
  shows "\<exists>p' h'. dlist_insert_tail p h n = Ret (p', h') \<and> dlist h' p' (xs @ [n]) \<and>
    p' = hd (xs @ [n]) \<and> (\<forall>a. a \<noteq> n \<longrightarrow> a \<notin> set xs \<longrightarrow> nxt h' a = nxt h a)"
proof (cases xs rule: rev_cases)
  case Nil
  with list new show ?thesis by (auto simp: dlist_insert_tail_def dlist_def)
next
  case (snoc ys t)
  with list have chain: "slist (nxt h) p (ys @ [t])" by (simp add: dlist_def)
  then have p: "p \<noteq> NULL" "p = hd (ys @ [t])"
    by (cases ys; auto)+
  have "dlist (dlist_insert h t n) p (ys @ [t, n])"
    using dlist_insert_middle [of h p ys t "[]" n] list new snoc by simp
  moreover have "nxt (dlist_insert h t n) a = nxt h a" if "a \<noteq> n" "a \<notin> set xs" for a
    using that snoc by (auto simp: dlist_insert_def Let_def)
  ultimately show ?thesis
    using dlist_get_tail_last [OF chain] p snoc
    by (simp add: dlist_insert_tail_def hd_append)
qed

section \<open>What the clients of lists rely on\<close>

text \<open>Insertion of a whole sequence, one node after another, as registration code does it.\<close>

fun insert_all :: "(addr \<Rightarrow> 'h \<Rightarrow> addr \<Rightarrow> (addr \<times> 'h) run) \<Rightarrow> addr \<Rightarrow> 'h \<Rightarrow> addr list
    \<Rightarrow> (addr \<times> 'h) run" where
  "insert_all ins p h [] = Ret (p, h)"
| "insert_all ins p h (n # ns) = run_bind (ins p h n) (\<lambda>(p', h'). insert_all ins p' h' ns)"

locale walkable =
  fixes nx :: "'h \<Rightarrow> addr \<Rightarrow> addr"
    and lst :: "'h \<Rightarrow> addr \<Rightarrow> addr list \<Rightarrow> bool"
  assumes lst_slist: "lst h p xs \<Longrightarrow> slist (nx h) p xs"
begin

lemma walk_find:
  "lst h p xs \<Longrightarrow>
   for_each_find P (nx h) p = Some (case find P xs of None \<Rightarrow> NULL | Some x \<Rightarrow> x)"
  by (rule for_each_find_slist) (rule lst_slist)

lemma walk_terminates: "lst h p xs \<Longrightarrow> \<exists>r. for_each_find P (nx h) p = Some r"
  by (simp add: walk_find)

lemma walk_finds:
  assumes "lst h p xs"
  shows "\<exists>r. for_each_find P (nx h) p = Some r \<and>
    (if \<exists>x \<in> set xs. P x then r \<in> set xs \<and> P r else r = NULL)"
proof (cases "find P xs")
  case None
  then have "\<forall>x \<in> set xs. \<not> P x" by (simp add: find_None_iff)
  with None show ?thesis using walk_find [OF assms, of P] by simp
next
  case (Some x)
  then have "P x \<and> x \<in> set xs" by (auto simp: find_Some_iff)
  with Some show ?thesis using walk_find [OF assms] by auto
qed

lemma lst_distinct: "lst h p xs \<Longrightarrow> distinct xs \<and> NULL \<notin> set xs"
  using lst_slist slist_distinct chain_nonnull by blast

end

locale appendable = walkable nx lst
  for nx :: "'h \<Rightarrow> addr \<Rightarrow> addr" and lst :: "'h \<Rightarrow> addr \<Rightarrow> addr list \<Rightarrow> bool" +
  fixes insert_tail :: "addr \<Rightarrow> 'h \<Rightarrow> addr \<Rightarrow> (addr \<times> 'h) run"
  assumes insert_tail: "lst h p xs \<Longrightarrow> n \<notin> set xs \<Longrightarrow> n \<noteq> NULL \<Longrightarrow> nx h n = NULL \<Longrightarrow>
      \<exists>p' h'. insert_tail p h n = Ret (p', h') \<and> lst h' p' (xs @ [n]) \<and>
        p' = hd (xs @ [n]) \<and> (\<forall>a. a \<noteq> n \<longrightarrow> a \<notin> set xs \<longrightarrow> nx h' a = nx h a)"
    and lst_empty: "lst h NULL []"
begin

lemma insert_all_appends:
  "lst h p xs \<Longrightarrow> distinct ns \<Longrightarrow> set ns \<inter> set xs = {} \<Longrightarrow> NULL \<notin> set ns \<Longrightarrow>
   \<forall>n \<in> set ns. nx h n = NULL \<Longrightarrow>
   \<exists>p' h'. insert_all insert_tail p h ns = Ret (p', h') \<and> lst h' p' (xs @ ns)"
proof (induction ns arbitrary: p h xs)
  case Nil
  then show ?case by simp
next
  case (Cons n ns)
  then obtain p' h' where ins: "insert_tail p h n = Ret (p', h')" "lst h' p' (xs @ [n])"
    and frame: "\<forall>a. a \<noteq> n \<longrightarrow> a \<notin> set xs \<longrightarrow> nx h' a = nx h a"
    using insert_tail [of h p xs n] by auto
  have "\<exists>p'' h''. insert_all insert_tail p' h' ns = Ret (p'', h'') \<and> lst h'' p'' ((xs @ [n]) @ ns)"
  proof (rule Cons.IH)
    show "lst h' p' (xs @ [n])" by (rule ins(2))
    show "distinct ns" using Cons.prems by simp
    show "set ns \<inter> set (xs @ [n]) = {}" using Cons.prems by auto
    show "NULL \<notin> set ns" using Cons.prems by simp
    show "\<forall>m \<in> set ns. nx h' m = NULL" using Cons.prems frame by auto
  qed
  with ins show ?case by simp
qed

lemma registered_in_order:
  assumes "distinct ns" and "NULL \<notin> set ns" and "\<forall>n \<in> set ns. nx h n = NULL"
  shows "\<exists>p' h'. insert_all insert_tail NULL h ns = Ret (p', h') \<and> lst h' p' ns \<and>
    for_each_find P (nx h') p' = Some (case find P ns of None \<Rightarrow> NULL | Some x \<Rightarrow> x)"
  using insert_all_appends [OF lst_empty assms(1) _ assms(2,3)] walk_find by fastforce

end

interpretation sl: walkable "\<lambda>h. h" slist
  by unfold_locales

interpretation dl: appendable nxt dlist dlist_insert_tail
proof (unfold_locales, goal_cases)
  case (1 h p xs)
  then show ?case by (simp add: dlist_def)
next
  case (2 h p xs n)
  then show ?case by (rule dlist_insert_tail_append)
next
  case (3 h)
  show ?case by (simp add: dlist_def)
qed

section \<open>Properties\<close>

text \<open>Appending a sequence of fresh nodes with dlist_insert_tail to an empty root terminates,
  without a fault, with a well-linked list of exactly those nodes in that order, and a walk over
  it stops at the first node the loop body accepts (NULL when there is none). The nodes' next
  fields have to be NULL beforehand: the routine does not clear them.\<close>

theorem dlist_registration_order:
  assumes "distinct ns" and "NULL \<notin> set ns" and "\<forall>n \<in> set ns. nxt h n = NULL"
  shows "\<exists>p' h'. insert_all dlist_insert_tail NULL h ns = Ret (p', h') \<and> dlist h' p' ns \<and>
    for_each_find P (nxt h') p' = Some (case find P ns of None \<Rightarrow> NULL | Some x \<Rightarrow> x)"
  by (rule dl.registered_in_order [OF assms])

theorem dlist_registration_order_witness:
  "\<exists>p' h'. insert_all dlist_insert_tail NULL \<lparr>nxt = (\<lambda>_. 0), prv = (\<lambda>_. 0)\<rparr> [0x40, 0x20, 0x80]
      = Ret (p', h') \<and> dlist h' p' [0x40, 0x20, 0x80] \<and>
    for_each_find (\<lambda>a. a < 0x30) (nxt h') p'
      = Some (case find (\<lambda>a. a < 0x30) [0x40, 0x20, 0x80] of None \<Rightarrow> NULL | Some x \<Rightarrow> x)"
  by (rule dlist_registration_order) simp_all

text \<open>
  dlist_insert_head links in front of a non-empty list; into an empty list it leaves the new
  node's next field as it was, so a node that was linked elsewhere drags its old successor in.
\<close>

lemma dlist_insert_head_nonempty:
  assumes "dlist h p (x # xs)" and "n \<notin> set (x # xs)" and "n \<noteq> NULL"
  shows "dlist (snd (dlist_insert_head p h n)) (fst (dlist_insert_head p h n)) (n # x # xs)"
  using assms slist_distinct [of "nxt h" p "x # xs"]
  by (auto simp: dlist_insert_head_def Let_def dlist_def linked_back_upd)

lemma dlist_insert_head_empty:
  "fst (dlist_insert_head NULL h n) = n \<and> nxt (snd (dlist_insert_head NULL h n)) n = nxt h n"
  by (simp add: dlist_insert_head_def Let_def)

end
