(* ===== verification/Buddy.thy ===== *)
theory Buddy
  imports Libc_Mem
begin

text \<open>
  The buddy allocator of kernel/arch/x86/page.c over byte memory: bit trees of 4095 nodes, one
  tree for each 8 MB of memory, kept in an array at DYNAMIC_MEMORY_BASE behind the two words of
  struct buddy_system. A node's bit says that it is allocated or split.

  The instruction lzcnt is executed by the CPU, not by code under src/, so it is a parameter lz
  of the operations that use it.
\<close>

section \<open>Constants and struct layout\<close>

abbreviation DYNAMIC_MEMORY_BASE :: u32 where
  "DYNAMIC_MEMORY_BASE \<equiv> 0x1000000"

abbreviation BUDDY_MIN_REGION_SIZE :: u32 where
  "BUDDY_MIN_REGION_SIZE \<equiv> 0x1000"

abbreviation BUDDY_MAX_REGION_SIZE :: u32 where
  "BUDDY_MAX_REGION_SIZE \<equiv> 0x800000"

abbreviation BUDDY_MAX_DEPTH :: u32 where
  "BUDDY_MAX_DEPTH \<equiv> 12"

abbreviation BYTES_PER_BUDDY_TREE :: u32 where
  "BYTES_PER_BUDDY_TREE \<equiv> 512"

text \<open>struct buddy_system: buddy_count at offset 0, mem_size at 4, the trees from 8 on.\<close>

definition buddy_count :: "mem \<Rightarrow> u32" where
  "buddy_count m = ld32 m DYNAMIC_MEMORY_BASE"

definition buddy_array :: "u32 \<Rightarrow> addr" where
  "buddy_array i = DYNAMIC_MEMORY_BASE + 8 + BYTES_PER_BUDDY_TREE * i"

definition get_buddy_count :: "u32 \<Rightarrow> u32" where
  "get_buddy_count mem_size = (mem_size + BUDDY_MAX_REGION_SIZE - 1) div BUDDY_MAX_REGION_SIZE"

section \<open>Tree nodes\<close>

definition get_tree_node :: "mem \<Rightarrow> addr \<Rightarrow> u32 \<Rightarrow> i8" where
  "get_tree_node m tree idx =
     (let byte = idx div 8; offset = idx mod 8
      in signed_drop_bit (unat offset) (m (tree + byte)) AND 1)"

definition set_tree_node :: "mem \<Rightarrow> addr \<Rightarrow> u32 \<Rightarrow> bool \<Rightarrow> mem" where
  "set_tree_node m tree idx val =
     (let byte = idx div 8; offset = idx mod 8
      in if val then m(tree + byte := SET_BIT (m (tree + byte)) (2 ^ unat offset))
         else m(tree + byte := CLEAR_BIT (m (tree + byte)) (2 ^ unat offset)))"

definition get_tree_node_addr :: "u32 \<Rightarrow> u32 \<Rightarrow> u32" where
  "get_tree_node_addr node cur_depth =
     (let size_per_node = shl32 BUDDY_MIN_REGION_SIZE (BUDDY_MAX_DEPTH - cur_depth);
          offset_from_first = node - (shl32 1 (cur_depth - 1) - 1)
      in size_per_node * offset_from_first)"

definition IS_SET :: "mem \<Rightarrow> addr \<Rightarrow> u32 \<Rightarrow> bool" where
  "IS_SET m tree idx \<longleftrightarrow> get_tree_node m tree idx \<noteq> 0"

definition SET :: "mem \<Rightarrow> addr \<Rightarrow> u32 \<Rightarrow> mem" where
  "SET m tree idx = set_tree_node m tree idx True"

definition UNSET :: "mem \<Rightarrow> addr \<Rightarrow> u32 \<Rightarrow> mem" where
  "UNSET m tree idx = set_tree_node m tree idx False"

definition LC :: "u32 \<Rightarrow> u32" where
  "LC n = n * 2 + 1"

definition RC :: "u32 \<Rightarrow> u32" where
  "RC n = n * 2 + 2"

definition PARENT :: "u32 \<Rightarrow> u32" where
  "PARENT n = (n - 1) div 2"

definition BUDDY :: "u32 \<Rightarrow> u32" where
  "BUDDY n = - ((- n) XOR 1)"

definition TREE_BASE_ADDR :: "u32 \<Rightarrow> u32" where
  "TREE_BASE_ADDR i = BUDDY_MAX_REGION_SIZE * i"

definition TREE_ID_FROM_ADDR :: "addr \<Rightarrow> u32" where
  "TREE_ID_FROM_ADDR a = sdiv32 (a - DYNAMIC_MEMORY_BASE) BUDDY_MAX_REGION_SIZE"

definition GET_NODE_FROM_ADDR :: "addr \<Rightarrow> u32" where
  "GET_NODE_FROM_ADDR a = sdiv32 a BUDDY_MIN_REGION_SIZE"

section \<open>Allocation\<close>

text \<open>
  The explicit stack of buddy_tree_try_alloc_depth, top first. Its array has
  2 * BUDDY_MAX_DEPTH = 24 entries: a push on a full one is out of bounds.
\<close>

type_synonym frames = "(u32 \<times> i32) list"

definition STACK_PUSH :: "u32 \<Rightarrow> i32 \<Rightarrow> frames \<Rightarrow> frames run" where
  "STACK_PUSH n d stack = (if length stack < 24 then Ret ((n, d) # stack) else Trap Out_of_bounds)"

partial_function (option) try_alloc_loop ::
    "addr \<Rightarrow> i32 \<Rightarrow> frames \<Rightarrow> mem \<Rightarrow> (mem \<times> u32 option) run" where
  "try_alloc_loop tree depth stack m =
     (if stack = [] then Ret (m, None)
      else let node = fst (hd stack); cur_depth = snd (hd stack); stack = tl stack in
        if depth = cur_depth then
          (if \<not> IS_SET m tree node
           then Ret (SET m tree node, Some (get_tree_node_addr node cur_depth))
           else try_alloc_loop tree depth stack m)
        else let lc = LC node; rc = RC node in
          if \<not> IS_SET m tree node then
            run_bind (STACK_PUSH lc (cur_depth + 1) stack)
              (\<lambda>stack. try_alloc_loop tree depth stack (SET m tree node))
          else if \<not> IS_SET m tree lc \<and> \<not> IS_SET m tree rc then
            try_alloc_loop tree depth stack m
          else if IS_SET m tree rc then
            run_bind (STACK_PUSH lc (cur_depth + 1) stack) (\<lambda>stack.
              run_bind (STACK_PUSH rc (cur_depth + 1) stack)
                (\<lambda>stack. try_alloc_loop tree depth stack m))
          else
            run_bind (STACK_PUSH rc (cur_depth + 1) stack) (\<lambda>stack.
              run_bind (STACK_PUSH lc (cur_depth + 1) stack)
                (\<lambda>stack. try_alloc_loop tree depth stack m)))"

definition buddy_tree_try_alloc_depth :: "mem \<Rightarrow> addr \<Rightarrow> i32 \<Rightarrow> (mem \<times> u32 option) run" where
  "buddy_tree_try_alloc_depth m tree depth = try_alloc_loop tree depth [(0, 1)] m"

partial_function (option) alloc_depth_loop :: "u32 \<Rightarrow> u32 \<Rightarrow> mem \<Rightarrow> (mem \<times> addr) run" where
  "alloc_depth_loop depth i m =
     (if i < buddy_count m then
        run_bind (buddy_tree_try_alloc_depth m (buddy_array i) depth)
          (\<lambda>r. case snd r of
                 Some a \<Rightarrow> Ret (fst r, TREE_BASE_ADDR i + a)
               | None \<Rightarrow> alloc_depth_loop depth (i + 1) (fst r))
      else Trap Assert_fail)"

definition buddy_alloc_depth :: "mem \<Rightarrow> u32 \<Rightarrow> (mem \<times> addr) run" where
  "buddy_alloc_depth m depth = alloc_depth_loop depth 0 m"

definition buddy_alloc :: "(u32 \<Rightarrow> u32) \<Rightarrow> mem \<Rightarrow> u32 \<Rightarrow> (mem \<times> addr) run" where
  "buddy_alloc lz m sz =
     (let logsize = lz (sz - 1) + 1; depth = BUDDY_MAX_DEPTH - (logsize - 12) in
      run_bind (assert1 (0 < sint depth)) (\<lambda>_.
        run_bind (buddy_alloc_depth m depth) (\<lambda>(m', a). Ret (m', DYNAMIC_MEMORY_BASE + a))))"

section \<open>Release\<close>

lemma unat_PARENT_less: "n \<noteq> 0 \<Longrightarrow> unat (PARENT n) < unat n"
proof -
  assume n: "n \<noteq> 0"
  have "unat (PARENT n) \<le> unat (n - 1)" by (simp add: PARENT_def unat_mod_div)
  also have "\<dots> < unat n" using n by (rule measure_unat)
  finally show ?thesis .
qed

function unset_merge_loop :: "mem \<Rightarrow> addr \<Rightarrow> u32 \<Rightarrow> mem \<times> u32" where
  "unset_merge_loop m tree node =
     (if node = 0 then (m, node)
      else if IS_SET m tree (BUDDY node) then (m, node)
      else let node' = PARENT node in unset_merge_loop (UNSET m tree node') tree node')"
  by pat_completeness auto
termination
  by (relation "measure (\<lambda>(m, tree, node). unat node)") (auto simp: unat_PARENT_less)

declare unset_merge_loop.simps [simp del]

definition buddy_tree_unset_merge_nodes :: "mem \<Rightarrow> addr \<Rightarrow> u32 \<Rightarrow> mem" where
  "buddy_tree_unset_merge_nodes m tree node =
     (let (m1, node1) = unset_merge_loop (UNSET m tree node) tree node
      in if node1 = 0 then UNSET m1 tree node1 else m1)"

function free_addr_loop :: "mem \<Rightarrow> addr \<Rightarrow> u32 \<Rightarrow> mem" where
  "free_addr_loop m tree node =
     (if node = 0 then m
      else if IS_SET m tree node then buddy_tree_unset_merge_nodes m tree node
      else free_addr_loop m tree (PARENT node))"
  by pat_completeness auto
termination
  by (relation "measure (\<lambda>(m, tree, node). unat node)") (auto simp: unat_PARENT_less)

declare free_addr_loop.simps [simp del]

definition free_start_node :: "addr \<Rightarrow> u32" where
  "free_start_node a =
     (let base_addr = TREE_BASE_ADDR (TREE_ID_FROM_ADDR a); relative_addr = a - base_addr
      in GET_NODE_FROM_ADDR relative_addr)"

definition buddy_tree_free_addr :: "mem \<Rightarrow> addr \<Rightarrow> addr \<Rightarrow> mem" where
  "buddy_tree_free_addr m tree a = free_addr_loop m tree (free_start_node a)"

definition buddy_free :: "mem \<Rightarrow> addr \<Rightarrow> mem" where
  "buddy_free m a = buddy_tree_free_addr m (buddy_array (TREE_ID_FROM_ADDR a)) a"

section \<open>Initialisation and the kernel interface\<close>

text \<open>sizeof (struct buddy_tree) is 512, sizeof (struct buddy_system) is 8.\<close>

definition init_buddy_system :: "(u32 \<Rightarrow> u32) \<Rightarrow> mem \<Rightarrow> u32 \<Rightarrow> mem run" where
  "init_buddy_system lz m mem_size =
     (let count = get_buddy_count mem_size;
          required = ALIGN (count * 512 + 8) (kb 4);
          m1 = memset m DYNAMIC_MEMORY_BASE 0 required;
          m2 = st32 m1 DYNAMIC_MEMORY_BASE count;
          m3 = st32 m2 (DYNAMIC_MEMORY_BASE + 4) mem_size
      in run_bind (buddy_alloc lz m3 required) (\<lambda>(m4, _). Ret m4))"

definition kalloc :: "(u32 \<Rightarrow> u32) \<Rightarrow> mem \<Rightarrow> u32 \<Rightarrow> (mem \<times> addr) run" where
  "kalloc lz m page_count = buddy_alloc lz m (kb 4 * page_count)"

definition kballoc :: "(u32 \<Rightarrow> u32) \<Rightarrow> mem \<Rightarrow> u32 \<Rightarrow> (mem \<times> addr) run" where
  "kballoc lz m sz = buddy_alloc lz m sz"

definition kfree :: "mem \<Rightarrow> addr \<Rightarrow> mem run" where
  "kfree m v =
     run_bind (assert1 (v \<noteq> 0)) (\<lambda>_.
       run_bind (assert1 (ALIGNED v (kb 4))) (\<lambda>_. Ret (buddy_free m v)))"

end
