(* ===== verification/Buddy_Tree.thy ===== *)
theory Buddy_Tree
  imports Main
begin

text \<open>
  What the bits of one buddy tree mean, with no memory in sight. A node is named by its heap
  index (the source's index plus one): the root is 1, the children of h are 2 * h and
  2 * h + 1, the leaves are 2048 to 4095. The abstract state of a tree is its set of live
  blocks; the bits of a well-formed tree are determined by it.
\<close>

section \<open>Ancestors\<close>

definition above :: "nat \<Rightarrow> nat \<Rightarrow> bool" where
  "above a h \<longleftrightarrow> 0 < a \<and> (\<exists>i. h div 2 ^ i = a)"

lemma above_refl [simp]: "0 < h \<Longrightarrow> above h h"
  unfolding above_def by (metis div_by_1 power_0)

lemma above_pos: "above a h \<Longrightarrow> 0 < a"
  by (simp add: above_def)

lemma above_trans: "above a b \<Longrightarrow> above b c \<Longrightarrow> above a c"
  unfolding above_def by (metis div_mult2_eq power_add)

lemma above_le: "above a h \<Longrightarrow> a \<le> h"
  unfolding above_def by (metis div_le_dividend)

lemma above_antisym: "above a b \<Longrightarrow> above b a \<Longrightarrow> a = b"
  by (simp add: above_le order_antisym)

lemma above_step: "above a h \<longleftrightarrow> 0 < a \<and> (a = h \<or> above a (h div 2))"
proof
  assume "above a h"
  then obtain i where i: "0 < a" "h div 2 ^ i = a" by (auto simp: above_def)
  show "0 < a \<and> (a = h \<or> above a (h div 2))"
  proof (cases i)
    case 0
    then show ?thesis using i by simp
  next
    case (Suc j)
    then have "h div 2 div 2 ^ j = a" using i by (simp add: div_mult2_eq)
    then show ?thesis using i by (auto simp: above_def)
  qed
next
  assume "0 < a \<and> (a = h \<or> above a (h div 2))"
  then show "above a h"
    unfolding above_def by (metis div_by_1 div_mult2_eq power_0 power_Suc)
qed

lemma above_child: "above a h \<Longrightarrow> a = h \<or> above (2 * a) h \<or> above (2 * a + 1) h"
proof -
  assume "above a h"
  then obtain i where i: "0 < a" "h div 2 ^ i = a" by (auto simp: above_def)
  show ?thesis
  proof (cases i)
    case 0
    then show ?thesis using i by simp
  next
    case (Suc j)
    have "h div 2 ^ j div 2 = a" using i Suc by (metis div_mult2_eq power_Suc2)
    then have "h div 2 ^ j = 2 * a \<or> h div 2 ^ j = 2 * a + 1" by linarith
    then show ?thesis using i(1) by (auto simp: above_def)
  qed
qed

lemma above_linear: "above a h \<Longrightarrow> above b h \<Longrightarrow> above a b \<or> above b a"
proof (induction h arbitrary: a b rule: less_induct)
  case (less h)
  show ?case
  proof (cases "a = h \<or> b = h")
    case True
    then show ?thesis using less.prems by auto
  next
    case False
    then have "above a (h div 2)" "above b (h div 2)"
      using less.prems above_step [of a h] above_step [of b h] by auto
    moreover from this have "h div 2 < h" using above_le [of a h] less.prems
      by (auto simp: above_def)
    ultimately show ?thesis using less.IH by blast
  qed
qed

lemma above_children:
  "0 < h \<Longrightarrow> above h (2 * h)" "0 < h \<Longrightarrow> above h (2 * h + 1)"
  using above_step [of h "2 * h"] above_step [of h "2 * h + 1"] by auto

lemma above_parent: "2 \<le> h \<Longrightarrow> above (h div 2) h"
  using above_step [of "h div 2" h] by auto

lemma child_above_iff:
  assumes "0 < b" and "x div 2 = b"
  shows "above x g \<Longrightarrow> above b g \<and> b \<noteq> g"
proof -
  assume x: "above x g"
  have bx: "above b x" using assms above_step [of b x] by auto
  have "b < x" using assms by linarith
  then show ?thesis using above_trans [OF bx x] above_le [OF x] by auto
qed

section \<open>Bits, live blocks and pages\<close>

definition wf_bits :: "(nat \<Rightarrow> bool) \<Rightarrow> bool" where
  "wf_bits A \<longleftrightarrow> (\<forall>h. 2 \<le> h \<and> h < 4096 \<and> A h \<longrightarrow> A (h div 2))"

definition live :: "(nat \<Rightarrow> bool) \<Rightarrow> nat \<Rightarrow> bool" where
  "live A h \<longleftrightarrow> 0 < h \<and> h < 4096 \<and> A h \<and> (2048 \<le> h \<or> \<not> A (2 * h) \<and> \<not> A (2 * h + 1))"

text \<open>The pages below node h; page j of the tree is leaf 2048 + j.\<close>

definition pages :: "nat \<Rightarrow> nat set" where
  "pages h = {j. j < 2048 \<and> above h (2048 + j)}"

lemma wf_above: "wf_bits A \<Longrightarrow> above a h \<Longrightarrow> h < 4096 \<Longrightarrow> A h \<Longrightarrow> A a"
proof (induction h rule: less_induct)
  case (less h)
  show ?case
  proof (cases "a = h")
    case False
    then have a: "above a (h div 2)" using less.prems above_step by blast
    then have h: "2 \<le> h" using above_le [OF a] above_pos [OF a] by linarith
    then have "A (h div 2)" using less.prems by (auto simp: wf_bits_def)
    then show ?thesis using less.IH [of "h div 2"] less.prems a h by auto
  qed (use less.prems in simp)
qed

lemma set_has_live: "A h \<Longrightarrow> 0 < h \<Longrightarrow> h < 4096 \<Longrightarrow> \<exists>b. live A b \<and> above h b"
proof (induction "4096 - h" arbitrary: h rule: less_induct)
  case less
  show ?case
  proof (cases "live A h")
    case True
    then show ?thesis using less.prems by auto
  next
    case False
    then obtain c where c: "A c" "c = 2 * h \<or> c = 2 * h + 1" "h < 2048"
      using less.prems by (auto simp: live_def)
    then have "4096 - c < 4096 - h" "0 < c" "c < 4096" using less.prems by auto
    then obtain b where "live A b" "above c b" using less.hyps [of c] c(1) by blast
    moreover have "above h c" using c less.prems above_children by auto
    ultimately show ?thesis using above_trans by blast
  qed
qed

text \<open>The live blocks determine the bits of a well-formed tree.\<close>

lemma bits_from_live:
  assumes "wf_bits A" and "0 < h" "h < 4096"
  shows "A h \<longleftrightarrow> (\<exists>b. live A b \<and> above h b)"
  using assms set_has_live [of A h] wf_above [OF assms(1)] by (auto simp: live_def)

lemma live_antichain:
  assumes "wf_bits A" and "live A a" and "live A b" and "above a b"
  shows "a = b"
proof (rule ccontr)
  assume "a \<noteq> b"
  then obtain c where c: "c = 2 * a \<or> c = 2 * a + 1" "above c b"
    using above_child [OF assms(4)] by auto
  have "A c" using wf_above [OF assms(1) c(2)] assms(3) by (auto simp: live_def)
  moreover have "a < 2048" using c above_le [OF c(2)] assms(3) by (auto simp: live_def)
  ultimately show False using assms(2) c(1) by (auto simp: live_def)
qed

lemma pages_mono: "above a h \<Longrightarrow> pages h \<subseteq> pages a"
  unfolding pages_def using above_trans by blast

lemma has_leaf: "0 < h \<Longrightarrow> h < 4096 \<Longrightarrow> \<exists>j < 2048. above h (2048 + j)"
proof (induction "4096 - h" arbitrary: h rule: less_induct)
  case less
  show ?case
  proof (cases "2048 \<le> h")
    case True
    then have "h - 2048 < 2048" "above h (2048 + (h - 2048))" using less.prems by auto
    then show ?thesis by blast
  next
    case False
    then have "4096 - 2 * h < 4096 - h" "0 < 2 * h" "2 * h < 4096" using less.prems by auto
    then obtain j where "j < 2048" "above (2 * h) (2048 + j)" using less.hyps by blast
    then show ?thesis using above_trans above_children(1) less.prems by blast
  qed
qed

lemma pages_nonempty: "0 < h \<Longrightarrow> h < 4096 \<Longrightarrow> pages h \<noteq> {}"
  using has_leaf by (auto simp: pages_def)

lemma pages_overlap: "pages a \<inter> pages b \<noteq> {} \<Longrightarrow> above a b \<or> above b a"
  unfolding pages_def using above_linear by blast

lemma overlap_pages:
  assumes "above a b" and "b < 4096"
  shows "pages a \<inter> pages b \<noteq> {}"
proof -
  have "0 < b" using assms above_le [OF assms(1)] by (auto simp: above_def)
  then show ?thesis using pages_mono [OF assms(1)] pages_nonempty assms(2) by blast
qed

lemma live_disjoint:
  assumes "wf_bits A" and "live A a" and "live A b" and "a \<noteq> b"
  shows "pages a \<inter> pages b = {}"
  using pages_overlap live_antichain [OF assms(1)] assms by metis

section \<open>The search of the allocator\<close>

text \<open>The nodes an allocation marks, k levels below h; None when nothing is free there.\<close>

fun search :: "(nat \<Rightarrow> bool) \<Rightarrow> nat \<Rightarrow> nat \<Rightarrow> nat list option" where
  "search A 0 h = (if A h then None else Some [h])"
| "search A (Suc k) h =
     (if \<not> A h then map_option (Cons h) (search A k (2 * h))
      else if \<not> A (2 * h) \<and> \<not> A (2 * h + 1) then None
      else if A (2 * h + 1)
      then (case search A k (2 * h + 1) of Some p \<Rightarrow> Some p | None \<Rightarrow> search A k (2 * h))
      else (case search A k (2 * h) of Some p \<Rightarrow> Some p | None \<Rightarrow> search A k (2 * h + 1)))"

definition below_limit :: "nat \<Rightarrow> nat \<Rightarrow> bool" where
  "below_limit h k \<longleftrightarrow> 0 < h \<and> (h + 1) * 2 ^ k \<le> 4096"

lemma below_limit_children:
  assumes "below_limit h (Suc k)"
  shows "below_limit (2 * h) k" "below_limit (2 * h + 1) k" "h < 2048"
proof -
  have le: "(2 * h + 1) * 2 ^ k \<le> (2 * h + 2) * 2 ^ k" by simp
  have eq: "(h + 1) * 2 ^ Suc k = (2 * h + 2) * 2 ^ k" by simp
  show "below_limit (2 * h) k" "below_limit (2 * h + 1) k"
    using assms le eq by (auto simp: below_limit_def)
  have "(2::nat) \<le> 2 ^ Suc k" by simp
  then have "(h + 1) * 2 \<le> (h + 1) * 2 ^ Suc k" by (intro mult_left_mono) auto
  then have "(h + 1) * 2 \<le> 4096" using assms by (auto simp: below_limit_def)
  then show "h < 2048" by simp
qed

lemma below_limit_less: "below_limit h k \<Longrightarrow> h < 4096"
proof -
  assume b: "below_limit h k"
  have "(h + 1) * 1 \<le> (h + 1) * 2 ^ k" by (intro mult_left_mono) auto
  then show ?thesis using b by (auto simp: below_limit_def)
qed

lemma wf_unset_children:
  assumes "wf_bits A" and "\<not> A h" and "0 < h" "h < 2048"
  shows "\<not> A (2 * h)" "\<not> A (2 * h + 1)"
  using assms unfolding wf_bits_def by (auto dest: spec [of _ "2 * h"] spec [of _ "2 * h + 1"])

lemma search_unset:
  "wf_bits A \<Longrightarrow> \<not> A h \<Longrightarrow> below_limit h k \<Longrightarrow> \<exists>p. search A k h = Some p"
proof (induction k arbitrary: h)
  case (Suc k)
  have "\<not> A (2 * h)"
    using wf_unset_children Suc.prems below_limit_children [OF Suc.prems(3)]
    by (auto simp: below_limit_def)
  then show ?case using Suc below_limit_children [OF Suc.prems(3)] by auto
qed simp

lemma search_None:
  "wf_bits A \<Longrightarrow> below_limit h k \<Longrightarrow> search A k h = None \<Longrightarrow> g div 2 ^ k = h \<Longrightarrow>
    A g \<or> (\<exists>b. live A b \<and> above b g)"
proof (induction k arbitrary: h)
  case 0
  then show ?case by (auto split: if_splits)
next
  case (Suc k)
  have h: "0 < h" "h < 2048" and lim: "below_limit (2 * h) k" "below_limit (2 * h + 1) k"
    using Suc.prems(2) below_limit_children [OF Suc.prems(2)] by (auto simp: below_limit_def)
  have set: "A h" using search_unset Suc.prems by fastforce
  have half: "g div 2 ^ k div 2 = h" using Suc.prems(4) by (metis div_mult2_eq power_Suc2)
  show ?case
  proof (cases "A (2 * h) \<or> A (2 * h + 1)")
    case False
    then have "live A h" using set h by (auto simp: live_def)
    moreover have "above h g" unfolding above_def using Suc.prems(4) h by blast
    ultimately show ?thesis by blast
  next
    case True
    then have none: "search A k (2 * h) = None" "search A k (2 * h + 1) = None"
      using Suc.prems(3) set by (auto split: if_splits option.splits)
    have "g div 2 ^ k = 2 * h \<or> g div 2 ^ k = 2 * h + 1" using half by linarith
    then show ?thesis using Suc.IH Suc.prems(1) lim none by blast
  qed
qed

text \<open>What a successful search has found and which nodes it marks.\<close>

definition found :: "(nat \<Rightarrow> bool) \<Rightarrow> nat \<Rightarrow> nat \<Rightarrow> nat list \<Rightarrow> bool" where
  "found A k h p \<longleftrightarrow>
     p \<noteq> [] \<and> last p div 2 ^ k = h \<and> \<not> A (last p) \<and>
     (\<forall>i. 1 \<le> i \<and> i \<le> k \<longrightarrow> \<not> live A (last p div 2 ^ i)) \<and>
     (\<forall>x. A x \<or> x \<in> set p \<longleftrightarrow> A x \<or> (\<exists>i \<le> k. x = last p div 2 ^ i)) \<and>
     (\<forall>x \<in> set p. \<exists>i \<le> k. x = last p div 2 ^ i)"

lemma le_Suc_ex: "(\<exists>i \<le> Suc k. P i) \<longleftrightarrow> P (Suc k) \<or> (\<exists>i \<le> k. P i)"
  by (auto simp: le_Suc_eq)

lemma found_extend:
  assumes f: "found A k c p" and c: "c div 2 = h" and nl: "\<not> live A h"
    and q: "q = (if A h then p else h # p)"
  shows "found A (Suc k) h q"
proof -
  have p: "p \<noteq> []" "last p div 2 ^ k = c" using f by (auto simp: found_def)
  have "last p div 2 ^ Suc k = last p div 2 ^ k div 2" by (metis div_mult2_eq power_Suc2)
  then have h: "last p div 2 ^ Suc k = h" using p c by simp
  have q': "q \<noteq> []" "last q = last p" using p q by auto
  have nla: "\<not> live A (last q div 2 ^ i)" if "1 \<le> i" "i \<le> Suc k" for i
    using f nl h that unfolding q' found_def by (cases "i = Suc k") auto
  have mark: "A x \<or> x \<in> set q \<longleftrightarrow> A x \<or> (\<exists>i \<le> Suc k. x = last q div 2 ^ i)" for x
    unfolding q' le_Suc_ex h using f q unfolding found_def by (auto split: if_splits)
  have "\<forall>x \<in> set q. \<exists>i \<le> Suc k. x = last q div 2 ^ i"
    unfolding q' le_Suc_ex h using f q unfolding found_def by (auto split: if_splits)
  then show ?thesis
    using f q' h nla mark unfolding found_def by simp
qed

lemma search_Some:
  "wf_bits A \<Longrightarrow> below_limit h k \<Longrightarrow> search A k h = Some p \<Longrightarrow> found A k h p"
proof (induction k arbitrary: h p)
  case 0
  then show ?case by (auto simp: found_def split: if_splits)
next
  case (Suc k)
  have h: "0 < h" "h < 2048" and lim: "below_limit (2 * h) k" "below_limit (2 * h + 1) k"
    using Suc.prems(2) below_limit_children [OF Suc.prems(2)] by (auto simp: below_limit_def)
  show ?case
  proof (cases "A h")
    case False
    then obtain p' where p': "search A k (2 * h) = Some p'" "p = h # p'"
      using Suc.prems(3) by auto
    show ?thesis
      by (rule found_extend [OF Suc.IH [OF Suc.prems(1) lim(1) p'(1)]])
        (use False p' in \<open>auto simp: live_def\<close>)
  next
    case True
    then obtain c where c: "search A k c = Some p" "c = 2 * h \<or> c = 2 * h + 1"
      and nl: "A (2 * h) \<or> A (2 * h + 1)"
      using Suc.prems(3) by (auto split: if_splits option.splits)
    have "below_limit c k" using c lim by auto
    then show ?thesis
      by (intro found_extend [OF Suc.IH [OF Suc.prems(1) _ c(1)]])
        (use True c nl h in \<open>auto simp: live_def\<close>)
  qed
qed

section \<open>Allocation and release of a block\<close>

lemma above_power:
  assumes "2 ^ k \<le> g" and "g < 2 * 2 ^ k"
  shows "(\<exists>i \<le> k. x = g div 2 ^ i) \<longleftrightarrow> above x g"
proof
  assume "\<exists>i \<le> k. x = g div 2 ^ i"
  then obtain i where i: "i \<le> k" "x = g div 2 ^ i" by auto
  have "(2::nat) ^ i \<le> 2 ^ k" using i by (simp add: power_increasing)
  then have "2 ^ i \<le> g" using assms by linarith
  then have "0 < g div 2 ^ i" by (simp add: div_greater_zero_iff)
  then show "above x g" using i by (auto simp: above_def)
next
  assume "above x g"
  then obtain i where i: "0 < x" "x = g div 2 ^ i" by (auto simp: above_def)
  have "i \<le> k"
  proof (rule ccontr)
    assume "\<not> i \<le> k"
    then have "(2::nat) ^ Suc k \<le> 2 ^ i" by (intro power_increasing) auto
    then have "g div 2 ^ i = 0" using assms by (intro div_less) auto
    then show False using i by simp
  qed
  then show "\<exists>i \<le> k. x = g div 2 ^ i" using i by auto
qed

lemma level_iff: "g div 2 ^ k = 1 \<longleftrightarrow> 2 ^ k \<le> g \<and> g < 2 * (2::nat) ^ k"
proof
  assume g: "g div 2 ^ k = 1"
  have "2 ^ k * (g div 2 ^ k) + g mod 2 ^ k = g" "g mod 2 ^ k < 2 ^ k"
    by simp_all
  then show "2 ^ k \<le> g \<and> g < 2 * 2 ^ k" unfolding g by linarith
next
  assume "2 ^ k \<le> g \<and> g < 2 * (2::nat) ^ k"
  then show "g div 2 ^ k = 1" by (intro div_nat_eqI) auto
qed

lemma mark_block:
  assumes wf: "wf_bits A" and g: "0 < g" "g < 4096" and free: "\<not> A g"
    and nl: "\<And>b. above b g \<Longrightarrow> \<not> live A b" and A': "\<And>x. A' x \<longleftrightarrow> A x \<or> above x g"
  shows "wf_bits A'" "\<And>b. live A' b \<longleftrightarrow> live A b \<or> b = g"
    "\<And>b. live A b \<Longrightarrow> pages b \<inter> pages g = {}"
proof -
  show "wf_bits A'"
    using wf A' above_parent above_trans unfolding wf_bits_def by meson
  have kids: "\<not> A' c" if "c div 2 = g" "g < 2048" for c
  proof -
    have "c = 2 * g \<or> c = 2 * g + 1" using that by linarith
    then have "\<not> A c" using wf_unset_children [OF wf free g(1) that(2)] by auto
    moreover have "\<not> above c g" using child_above_iff [OF g(1) that(1)] by auto
    ultimately show ?thesis using A' by simp
  qed
  show live: "live A' b \<longleftrightarrow> live A b \<or> b = g" for b
  proof (cases "b = g")
    case True
    then show ?thesis using A' g kids [of "2 * g"] kids [of "2 * g + 1"] by (auto simp: live_def)
  next
    case neq: False
    show ?thesis
    proof (cases "above b g")
      case True
      then obtain c where c: "c = 2 * b \<or> c = 2 * b + 1" "above c g"
        using above_child neq by blast
      moreover have "b < 2048" using above_le [OF c(2)] c(1) g by auto
      ultimately have "\<not> live A' b" using A' by (auto simp: live_def)
      then show ?thesis using nl True neq by simp
    next
      case False
      then have "0 < b \<Longrightarrow> A' c = A c" if "c div 2 = b" for c
        using that A' child_above_iff by blast
      from this [of "2 * b"] this [of "2 * b + 1"] show ?thesis
        using False A' neq by (auto simp: live_def)
    qed
  qed
  show "pages b \<inter> pages g = {}" if b: "live A b" for b
  proof (rule ccontr)
    assume "pages b \<inter> pages g \<noteq> {}"
    then consider "above b g" | "above g b" using pages_overlap by blast
    then show False
    proof cases
      case 1
      then show False using nl b by blast
    next
      case 2
      then show False using wf_above [OF wf 2] b free by (auto simp: live_def)
    qed
  qed
qed

text \<open>
  What the merge loop of the release preserves: below h, where the freed block g was the only
  live one, every bit is clear, and no other bit has changed.
\<close>

definition clearing :: "(nat \<Rightarrow> bool) \<Rightarrow> nat \<Rightarrow> (nat \<Rightarrow> bool) \<Rightarrow> nat \<Rightarrow> bool" where
  "clearing A g A' h \<longleftrightarrow>
     0 < h \<and> h < 4096 \<and> above h g \<and> (\<forall>b. live A b \<and> above h b \<longrightarrow> b = g) \<and>
     (\<forall>x. 0 < x \<and> x < 4096 \<longrightarrow> A' x = (A x \<and> \<not> above h x))"

definition sibling :: "nat \<Rightarrow> nat" where
  "sibling h = (if even h then h + 1 else h - 1)"

lemma sibling_facts:
  assumes "2 \<le> h" and "h < 4096"
  shows "sibling h div 2 = h div 2" "0 < sibling h" "sibling h < 4096" "sibling h \<noteq> h"
    "above (h div 2) x \<Longrightarrow> x = h div 2 \<or> above h x \<or> above (sibling h) x"
    "\<not> above h (sibling h)"
proof -
  show fact: "sibling h div 2 = h div 2" "0 < sibling h" "sibling h < 4096" "sibling h \<noteq> h"
    using assms by (auto simp: sibling_def elim!: evenE oddE)
  show "above (h div 2) x \<Longrightarrow> x = h div 2 \<or> above h x \<or> above (sibling h) x"
    using above_child [of "h div 2" x] by (auto simp: sibling_def elim!: evenE oddE)
  show "\<not> above h (sibling h)"
    using fact above_step [of h "sibling h"] above_le [of h "h div 2"] assms by auto
qed

lemma clearing_init:
  assumes "wf_bits A" and "live A g"
  shows "clearing A g (A(g := False)) g"
proof -
  have g: "0 < g" "g < 4096" using assms by (auto simp: live_def)
  have "\<not> A x" if x: "above g x" "x \<noteq> g" "x < 4096" for x
  proof
    assume "A x"
    moreover have "0 < x" using above_le [OF x(1)] g by simp
    ultimately obtain b where b: "live A b" "above x b" using set_has_live x by blast
    then have "g = b" using live_antichain [OF assms b(1)] above_trans x(1) by blast
    then show False using above_antisym x b by blast
  qed
  then show ?thesis
    using g live_antichain [OF assms(1,2)] unfolding clearing_def by auto
qed

lemma clearing_step:
  assumes c: "clearing A g A' h" and wf: "wf_bits A" and g: "live A g" and h: "2 \<le> h"
    and sib: "\<not> A' (sibling h)"
  shows "clearing A g (A'(h div 2 := False)) (h div 2)"
proof -
  let ?p = "h div 2"
  have h4: "h < 4096" and hg: "above h g"
    and only: "\<And>b. live A b \<Longrightarrow> above h b \<Longrightarrow> b = g"
    and eq: "\<And>x. 0 < x \<Longrightarrow> x < 4096 \<Longrightarrow> A' x = (A x \<and> \<not> above h x)"
    using c by (auto simp: clearing_def)
  note sf = sibling_facts [OF h h4]
  have p: "0 < ?p" "?p < 4096" "above ?p g"
    using h h4 above_parent [OF h] above_trans [OF _ hg] by auto
  have nsib: "\<not> A (sibling h)" using sib eq sf by blast
  have below: "\<not> A x" if "above (sibling h) x" "x < 4096" for x
    using wf_above [OF wf that] nsib by blast
  have Ah: "A h" using wf_above [OF wf hg] g by (auto simp: live_def)
  have "\<not> live A ?p"
    using Ah h h4 by (cases "even h") (auto simp: live_def elim!: evenE oddE)
  then have "\<forall>b. live A b \<and> above ?p b \<longrightarrow> b = g"
    using sf(5) only below by (metis live_def)
  moreover have "(A'(?p := False)) x = (A x \<and> \<not> above ?p x)" if x: "0 < x" "x < 4096" for x
  proof (cases "x = ?p")
    case True
    then show ?thesis using p by simp
  next
    case False
    have "above h x \<Longrightarrow> above ?p x" using above_trans [OF above_parent [OF h]] by blast
    then show ?thesis using False eq [OF x] sf(5) [of x] below [of x] x by auto
  qed
  ultimately show ?thesis unfolding clearing_def using p by blast
qed

lemma clearing_done:
  assumes c: "clearing A g A' h" and wf: "wf_bits A" and g: "live A g"
    and stop: "h = 1 \<or> A' (sibling h)"
  shows "wf_bits A'" "live A' b \<longleftrightarrow> live A b \<and> b \<noteq> g"
proof -
  have h: "0 < h" "h < 4096" and hg: "above h g"
    and only: "\<And>b. live A b \<Longrightarrow> above h b \<Longrightarrow> b = g"
    and eq: "\<And>x. 0 < x \<Longrightarrow> x < 4096 \<Longrightarrow> A' x = (A x \<and> \<not> above h x)"
    using c by (auto simp: clearing_def)
  show "wf_bits A'"
    unfolding wf_bits_def
  proof (intro allI impI)
    fix x assume x: "2 \<le> x \<and> x < 4096 \<and> A' x"
    then have "A x" "\<not> above h x" using eq [of x] by auto
    moreover have "above (x div 2) x" using x above_parent by blast
    ultimately show "A' (x div 2)"
      using eq [of "x div 2"] x wf above_trans [of h "x div 2" x] by (auto simp: wf_bits_def)
  qed
  have kid: "A' c" if c: "0 < b" "b < 2048" "A' b" "\<not> A' (2 * b) \<and> \<not> A' (2 * b + 1)" "A c"
      "c = 2 * b \<or> c = 2 * b + 1" for c
  proof (rule ccontr)
    assume "\<not> A' c"
    then have "above h c" using eq [of c] c by auto
    moreover have "\<not> above h b" using eq [of b] c by auto
    ultimately have "h = c" using above_step [of h c] c(6) by auto
    moreover from this have "h \<noteq> 1" using c by auto
    ultimately have "A' (sibling c)" using stop by auto
    then show False using c(4,6) by (auto simp: sibling_def)
  qed
  show "live A' b \<longleftrightarrow> live A b \<and> b \<noteq> g"
  proof
    assume l: "live A' b"
    then have b: "0 < b" "b < 4096" "A b" "\<not> above h b" using eq [of b] by (auto simp: live_def)
    have "2048 \<le> b \<or> \<not> A (2 * b) \<and> \<not> A (2 * b + 1)"
      using kid [of "2 * b"] kid [of "2 * b + 1"] l b by (auto simp: live_def)
    then show "live A b \<and> b \<noteq> g" using b hg by (auto simp: live_def)
  next
    assume l: "live A b \<and> b \<noteq> g"
    then have "\<not> above h b" using only by blast
    moreover have "\<not> A' (2 * b)" "\<not> A' (2 * b + 1)" if "b < 2048"
      using l that eq [of "2 * b"] eq [of "2 * b + 1"] by (auto simp: live_def)
    ultimately show "live A' b" using l eq [of b] by (auto simp: live_def not_le)
  qed
qed

end
