(* ===== verification/Buddy_Memory.thy ===== *)
theory Buddy_Memory
  imports Buddy Buddy_Tree
begin

text \<open>
  The buddy allocator of Buddy refines the trees of Buddy_Tree: the bits of the tree at address t
  in memory m are read as a set of live blocks, and allocation and release change that set by
  the one block they are about and no byte outside the tree.
\<close>

section \<open>Bits of a tree in memory\<close>

definition tbit :: "mem \<Rightarrow> addr \<Rightarrow> nat \<Rightarrow> bool" where
  "tbit m t n = bit (m (t + of_nat (n div 8))) (n mod 8)"

definition bits :: "mem \<Rightarrow> addr \<Rightarrow> nat \<Rightarrow> bool" where
  "bits m t h = tbit m t (h - 1)"

lemma unat_node: "n < 4096 \<Longrightarrow> unat (of_nat n :: u32) = n"
  by (simp add: unat_of_nat)

lemma IS_SET_tbit: "n < 4096 \<Longrightarrow> IS_SET m t (of_nat n) = tbit m t n"
proof -
  assume n: "n < 4096"
  have "(of_nat n :: u32) div 8 = of_nat (n div 8)" "unat ((of_nat n :: u32) mod 8) = n mod 8"
    using n by (auto simp: word_unat_eq_iff unat_mod_div unat_of_nat)
  moreover have "\<not> 8 \<le> n mod 8" by simp
  ultimately show ?thesis
    by (simp add: IS_SET_def get_tree_node_def tbit_def Let_def and_one_bit bit_signed_drop_bit_iff)
qed

lemma set_tree_node_apply:
  assumes "n < 4096"
  shows "set_tree_node m t (of_nat n) b =
    m(t + of_nat (n div 8) :=
      (if b then SET_BIT else CLEAR_BIT) (m (t + of_nat (n div 8))) (2 ^ (n mod 8)))"
proof -
  have "(of_nat n :: u32) div 8 = of_nat (n div 8)" "unat ((of_nat n :: u32) mod 8) = n mod 8"
    using assms by (auto simp: word_unat_eq_iff unat_mod_div unat_of_nat)
  then show ?thesis by (simp add: set_tree_node_def Let_def)
qed

lemma tbit_set_tree_node:
  assumes "n < 4096" and "k < 4096"
  shows "tbit (set_tree_node m t (of_nat n) b) t k = (if k = n then b else tbit m t k)"
proof -
  have "n div 8 < 2 ^ 32" "k div 8 < 2 ^ 32" using assms by auto
  then have inj: "(of_nat (n div 8) :: u32) = of_nat (k div 8) \<longleftrightarrow> n div 8 = k div 8"
    by (rule of_nat_u32_inject)
  have eq: "k = n \<longleftrightarrow> n div 8 = k div 8 \<and> n mod 8 = k mod 8"
    by (metis div_mult_mod_eq)
  have "n mod 8 < 8" by simp
  then show ?thesis
    using inj by (cases "n div 8 = k div 8")
      (auto simp add: set_tree_node_apply [OF assms(1)] tbit_def bit_view eq)
qed

interpretation tree_bits: bitmap "\<lambda>m. tbit m t" "\<lambda>m n. set_tree_node m t (of_nat n)" 4096
  for t by unfold_locales (rule tbit_set_tree_node)

text \<open>The bytes of a tree, and what an update leaves alone.\<close>

definition tree_range :: "addr \<Rightarrow> addr set" where
  "tree_range t = {t + of_nat i | i. i < 512}"

lemma tree_range_byte: "n < 4096 \<Longrightarrow> t + of_nat (n div 8) \<in> tree_range t"
  unfolding tree_range_def by (rule CollectI, rule exI [of _ "n div 8"]) auto

lemma set_tree_node_frame:
  "n < 4096 \<Longrightarrow> a \<notin> tree_range t \<Longrightarrow> set_tree_node m t (of_nat n) b a = m a"
  using tree_range_byte [of n t] by (auto simp: set_tree_node_apply)

lemma tbit_cong: "n < 4096 \<Longrightarrow> (\<And>a. a \<in> tree_range t \<Longrightarrow> m a = m' a) \<Longrightarrow> tbit m t n = tbit m' t n"
  unfolding tbit_def using tree_range_byte by metis

lemma bits_cong:
  assumes "h < 4096" and "\<And>a. a \<in> tree_range t \<Longrightarrow> m a = m' a"
  shows "bits m t h = bits m' t h"
  unfolding bits_def by (rule tbit_cong) (use assms in auto)

definition node_of :: "nat \<Rightarrow> u32" where
  "node_of h = of_nat (h - 1)"

lemma bits_SET:
  "0 < g \<Longrightarrow> g \<le> 4096 \<Longrightarrow> 0 < h \<Longrightarrow> h \<le> 4096 \<Longrightarrow>
    bits (SET m t (node_of g)) t h = (h = g \<or> bits m t h)"
  unfolding bits_def SET_def node_of_def by (subst tbit_set_tree_node) auto

lemma bits_UNSET:
  "0 < g \<Longrightarrow> g \<le> 4096 \<Longrightarrow> 0 < h \<Longrightarrow> h \<le> 4096 \<Longrightarrow>
    bits (UNSET m t (node_of g)) t h = (h \<noteq> g \<and> bits m t h)"
  unfolding bits_def UNSET_def node_of_def by (subst tbit_set_tree_node) auto

lemma IS_SET_bits: "0 < h \<Longrightarrow> h \<le> 4096 \<Longrightarrow> IS_SET m t (node_of h) = bits m t h"
  unfolding bits_def node_of_def by (rule IS_SET_tbit) auto

lemma SET_frame: "g \<le> 4096 \<Longrightarrow> a \<notin> tree_range t \<Longrightarrow> SET m t (node_of g) a = m a"
  unfolding SET_def node_of_def by (rule set_tree_node_frame) auto

lemma UNSET_frame: "g \<le> 4096 \<Longrightarrow> a \<notin> tree_range t \<Longrightarrow> UNSET m t (node_of g) a = m a"
  unfolding UNSET_def node_of_def by (rule set_tree_node_frame) auto

lemma unat_node_of: "h \<le> 4096 \<Longrightarrow> unat (node_of h) = h - 1"
  by (simp only: node_of_def unat_of_nat) simp

lemma child_nodes:
  assumes "0 < h"
  shows "LC (node_of h) = node_of (2 * h)" "RC (node_of h) = node_of (2 * h + 1)"
proof -
  obtain n where n: "h = Suc n" using assms by (cases h) auto
  show "LC (node_of h) = node_of (2 * h)" "RC (node_of h) = node_of (2 * h + 1)"
    by (simp_all add: LC_def RC_def n node_of_def algebra_simps)
qed

lemma parent_node:
  assumes "2 \<le> h" and "h < 4096"
  shows "PARENT (node_of h) = node_of (h div 2)"
proof -
  obtain k where k: "h = Suc (Suc k)" using assms by (metis Suc_le_D numeral_2_eq_2 Suc_le_mono)
  have "node_of h - 1 = of_nat k" by (simp add: k node_of_def)
  then have "unat (PARENT (node_of h)) = k div 2"
    using assms k by (simp add: PARENT_def unat_mod_div unat_of_nat)
  also have "\<dots> = unat (node_of (h div 2))"
    using assms k unat_node_of [of "h div 2"] by auto
  finally show ?thesis by (simp add: word_unat_eq_iff)
qed

lemma sibling_node:
  assumes "2 \<le> h" and "h < 4096"
  shows "BUDDY (node_of h) = node_of (sibling h)"
proof -
  have ev: "even (node_of h) \<longleftrightarrow> odd h"
    using assms by (cases h) (auto simp: node_of_def even_of_nat_iff)
  have one: "node_of (h + 1) = node_of h + 1" "odd h \<Longrightarrow> node_of (h - 1) = node_of h - 1"
    using assms by (cases h; auto simp: node_of_def of_nat_diff)+
  show ?thesis
  proof (cases "even h")
    case True
    then have "odd (- node_of h)" using ev by simp
    then have "(- node_of h) XOR 1 = - node_of h - 1" by (simp add: xor_one_eq)
    then show ?thesis using True one by (simp add: BUDDY_def sibling_def)
  next
    case False
    then have "even (- node_of h)" using ev by simp
    then have "(- node_of h) XOR 1 = - node_of h + 1" by (simp add: xor_one_eq)
    then show ?thesis using False one by (simp add: BUDDY_def sibling_def)
  qed
qed

section \<open>Allocation in one tree\<close>

definition mark :: "addr \<Rightarrow> nat list \<Rightarrow> mem \<Rightarrow> mem" where
  "mark t p m = fold (\<lambda>h m. SET m t (node_of h)) p m"

lemma mark_simps [simp]: "mark t [] m = m" "mark t (h # p) m = mark t p (SET m t (node_of h))"
  by (simp_all add: mark_def)

lemma bits_mark:
  "\<forall>h \<in> set p. 0 < h \<and> h \<le> 4096 \<Longrightarrow> 0 < h \<Longrightarrow> h \<le> 4096 \<Longrightarrow>
    bits (mark t p m) t h = (h \<in> set p \<or> bits m t h)"
  by (induction p arbitrary: m) (auto simp: bits_SET)

lemma mark_frame: "\<forall>h \<in> set p. h \<le> 4096 \<Longrightarrow> a \<notin> tree_range t \<Longrightarrow> mark t p m a = m a"
  by (induction p arbitrary: m) (auto simp: SET_frame)

text \<open>Marking h does not disturb the search below it.\<close>

lemma search_cong:
  "below_limit h k \<Longrightarrow> (\<And>x. x < 4096 \<Longrightarrow> above h x \<Longrightarrow> A x = B x) \<Longrightarrow> search A k h = search B k h"
proof (induction k arbitrary: h)
  case 0
  then show ?case using below_limit_less by (auto simp: below_limit_def)
next
  case (Suc k)
  note lim = below_limit_children [OF Suc.prems(1)]
  have h: "0 < h" using Suc.prems(1) by (simp add: below_limit_def)
  have eq: "A h = B h" "A (2 * h) = B (2 * h)" "A (2 * h + 1) = B (2 * h + 1)"
    using Suc.prems(2) lim(3) h above_children by auto
  have "search A k c = search B k c" if "below_limit c k" "above h c" for c
    by (rule Suc.IH [OF that(1)], rule Suc.prems(2)) (use above_trans [OF that(2)] in auto)
  then have "search A k (2 * h) = search B k (2 * h)"
      "search A k (2 * h + 1) = search B k (2 * h + 1)"
    using lim h above_children by simp_all
  then show ?case unfolding search.simps eq by presburger
qed

lemma of_nat_Suc_u32: "(of_nat d :: u32) + 1 = of_nat (Suc d)"
  by simp

lemma depth_eq_iff: "a \<le> 12 \<Longrightarrow> b \<le> 12 \<Longrightarrow> (of_nat a :: u32) = of_nat b \<longleftrightarrow> a = b"
  by (rule of_nat_u32_inject) auto

lemmas alloc_unfold = try_alloc_loop.simps [of _ _ "_ # _"]

lemma wf_bits_SET:
  assumes "wf_bits (bits m t)" and "0 < h" "h < 4096" and "2 \<le> h \<longrightarrow> bits m t (h div 2)"
  shows "wf_bits (bits (SET m t (node_of h)) t)"
  using assms unfolding wf_bits_def by (auto simp: bits_SET)

lemma try_alloc_loop_search:
  assumes "below_limit h k" and "wf_bits (bits m t)" and "length st + k < 24" and "d + k \<le> 12"
    and "2 \<le> h \<longrightarrow> bits m t (h div 2)"
  shows "try_alloc_loop t (of_nat (d + k)) ((node_of h, of_nat d) # st) m =
    (case search (bits m t) k h of
       Some p \<Rightarrow> Ret (mark t p m, Some (get_tree_node_addr (node_of (last p)) (of_nat (d + k))))
     | None \<Rightarrow> try_alloc_loop t (of_nat (d + k)) st m)"
  using assms
proof (induction k arbitrary: h m st d)
  case 0
  then show ?case
    using below_limit_less [OF 0(1)]
    by (subst alloc_unfold) (auto simp: IS_SET_bits below_limit_def Let_def)
next
  case (Suc k)
  note lim = below_limit_children [OF Suc.prems(1)]
  have h: "0 < h" "h \<le> 4096" "h < 4096" "2 * h \<le> 4096" "2 * h + 1 \<le> 4096"
    using Suc.prems(1) lim(3) by (auto simp: below_limit_def)
  have ne: "(of_nat (d + Suc k) :: u32) \<noteq> of_nat d"
    using depth_eq_iff [of "d + Suc k" d] Suc.prems(4) by simp
  have push: "STACK_PUSH n (of_nat d + 1) st = Ret ((n, of_nat (Suc d)) # st)"
      "STACK_PUSH n (of_nat d + 1) (f # st) = Ret ((n, of_nat (Suc d)) # f # st)" for n f
    using Suc.prems(3) by (simp_all add: STACK_PUSH_def)
  have IH: "try_alloc_loop t (of_nat (d + Suc k)) ((node_of c, of_nat (Suc d)) # s) m' =
      (case search (bits m' t) k c of
         Some p \<Rightarrow> Ret (mark t p m', Some (get_tree_node_addr (node_of (last p)) (of_nat (d + Suc k))))
       | None \<Rightarrow> try_alloc_loop t (of_nat (d + Suc k)) s m')"
    if "c = 2 * h \<or> c = 2 * h + 1" "wf_bits (bits m' t)" "length s \<le> Suc (length st)"
      "bits m' t h" for c m' s
  proof -
    have sd: "d + Suc k = Suc d + k" by simp
    have "below_limit c k" "c div 2 = h" using that lim by auto
    then show ?thesis
      unfolding sd using that Suc.prems(3,4) by (intro Suc.IH) auto
  qed
  show ?case
  proof (cases "bits m t h")
    case False
    let ?m = "SET m t (node_of h)"
    have wf: "wf_bits (bits ?m t)" "bits ?m t h"
      using wf_bits_SET [OF Suc.prems(2) h(1,3) Suc.prems(5)] h by (auto simp: bits_SET)
    have "search (bits ?m t) k (2 * h) = search (bits m t) k (2 * h)"
    proof (rule search_cong [OF lim(1)])
      fix x assume "x < 4096" "above (2 * h) x"
      then show "bits ?m t x = bits m t x" using h above_le by (fastforce simp: bits_SET)
    qed
    moreover obtain p where "search (bits m t) k (2 * h) = Some p"
      using search_unset [OF Suc.prems(2) _ lim(1)] wf_unset_children [OF Suc.prems(2) False] h lim
      by auto
    ultimately show ?thesis
      using False h ne IH [of "2 * h" ?m st] wf search_Some [OF Suc.prems(2) lim(1)]
      by (subst alloc_unfold)
        (auto simp: IS_SET_bits child_nodes Let_def push found_def simp del: of_nat_add of_nat_Suc)
  next
    case True
    define D :: u32 where "D = of_nat (d + Suc k)"
    define d' :: u32 where "d' = of_nat (Suc d)"
    define r where "r = 2 * h + 1"
    have IH': "try_alloc_loop t D ((node_of c, d') # s) m =
      (case search (bits m t) k c of
         Some p \<Rightarrow> Ret (mark t p m, Some (get_tree_node_addr (node_of (last p)) D))
       | None \<Rightarrow> try_alloc_loop t D s m)"
      if "c = 2 * h \<or> c = r" "length s \<le> Suc (length st)" for c s
      unfolding D_def d'_def using that unfolding r_def by (intro IH Suc.prems(2) True)
    have ne': "D \<noteq> of_nat d" unfolding D_def by (rule ne)
    have rb: "IS_SET m t (node_of r) = bits m t r" "RC (node_of h) = node_of r"
      using IS_SET_bits [of r m t] h child_nodes [OF h(1)] by (simp_all add: r_def)
    have "try_alloc_loop t D ((node_of h, of_nat d) # st) m =
      (if \<not> bits m t (2 * h) \<and> \<not> bits m t r then try_alloc_loop t D st m
       else if bits m t r then try_alloc_loop t D ((node_of r, d') # (node_of (2 * h), d') # st) m
       else try_alloc_loop t D ((node_of (2 * h), d') # (node_of r, d') # st) m)"
      using True h ne' rb IS_SET_bits [of "2 * h" m t]
      by (subst alloc_unfold)
        (simp add: IS_SET_bits child_nodes Let_def push [folded d'_def])
    moreover have "search (bits m t) (Suc k) h =
      (if \<not> bits m t (2 * h) \<and> \<not> bits m t r then None
       else if bits m t r
       then (case search (bits m t) k r of Some p \<Rightarrow> Some p | None \<Rightarrow> search (bits m t) k (2 * h))
       else (case search (bits m t) k (2 * h) of Some p \<Rightarrow> Some p | None \<Rightarrow> search (bits m t) k r))"
      unfolding r_def using True by (simp only: search.simps simp_thms if_False if_True)
    ultimately show ?thesis
      unfolding D_def [symmetric] by (simp add: IH' split: option.splits)
  qed
qed

text \<open>Block h of depth d is the region of 2 ^ (12 - d) pages at this offset in its tree.\<close>

lemma level_bound: "1 \<le> d \<Longrightarrow> d \<le> 12 \<Longrightarrow> (2::nat) ^ (12 - d) * 2 ^ (d - 1) = 2048"
proof -
  assume "1 \<le> d" "d \<le> 12"
  then have "12 - d + (d - 1) = 11" by simp
  then show ?thesis by (simp flip: power_add)
qed

lemma node_address:
  assumes d: "1 \<le> d" "d \<le> 12" and h: "2 ^ (d - 1) \<le> h" "h < 2 * 2 ^ (d - 1)"
  shows "unat (get_tree_node_addr (node_of h) (of_nat d)) = 4096 * (2 ^ (12 - d) * (h - 2 ^ (d - 1)))"
    and "2 ^ (12 - d) * (h - 2 ^ (d - 1)) + 2 ^ (12 - d) \<le> 2048"
proof -
  let ?o = "h - 2 ^ (d - 1)"
  have "?o + 1 \<le> 2 ^ (d - 1)" using h by simp
  then have "2 ^ (12 - d) * (?o + 1) \<le> 2 ^ (12 - d) * (2 ^ (d - 1) :: nat)"
    by (rule mult_left_mono) simp
  then show bound: "2 ^ (12 - d) * ?o + 2 ^ (12 - d) \<le> 2048"
    using level_bound [OF d] by (simp add: add.commute)
  have args: "(12 - of_nat d :: u32) = of_nat (12 - d)" "(of_nat d :: u32) - 1 = of_nat (d - 1)"
    using d by (auto simp: of_nat_diff)
  have "node_of h - (2 ^ (d - 1) - 1) = of_nat ?o"
    using h by (simp add: node_of_def of_nat_diff le_trans [OF _ h(1)])
  then have eq: "get_tree_node_addr (node_of h) (of_nat d) = of_nat (4096 * (2 ^ (12 - d) * ?o))"
    unfolding get_tree_node_addr_def Let_def args
    using d by (simp add: shl32_of_nat del: of_nat_diff)
  have "2 ^ (12 - d) * ?o \<le> 2048" using bound by (rule add_leD1)
  then have "4096 * (2 ^ (12 - d) * ?o) \<le> 4096 * 2048" by (rule mult_left_mono) simp
  then show "unat (get_tree_node_addr (node_of h) (of_nat d)) = 4096 * (2 ^ (12 - d) * ?o)"
    unfolding eq unat_of_nat by (intro mod_less) simp
qed

text \<open>
  What buddy_tree_try_alloc_depth does at depth d: it returns; a success adds one block of that
  depth, disjoint from all live ones, and nothing else; a failure leaves memory as it was and
  means that every block of that depth meets a live one.
\<close>

definition alloc_ok :: "mem \<Rightarrow> addr \<Rightarrow> nat \<Rightarrow> mem \<Rightarrow> nat \<Rightarrow> bool" where
  "alloc_ok m t d m' h \<longleftrightarrow>
     2 ^ (d - 1) \<le> h \<and> h < 2 * 2 ^ (d - 1) \<and> wf_bits (bits m' t) \<and>
     (\<forall>b. live (bits m' t) b \<longleftrightarrow> live (bits m t) b \<or> b = h) \<and>
     (\<forall>b. live (bits m t) b \<longrightarrow> pages b \<inter> pages h = {}) \<and>
     (\<forall>a. a \<notin> tree_range t \<longrightarrow> m' a = m a)"

lemma level_limit: "d \<le> 12 \<Longrightarrow> (2::nat) * 2 ^ (d - 1) \<le> 4096"
proof -
  assume "d \<le> 12"
  then have "(2::nat) ^ (d - 1) \<le> 2 ^ 11" by (intro power_increasing) auto
  then show ?thesis by simp
qed

lemma level_in_tree: "1 \<le> d \<Longrightarrow> d \<le> 12 \<Longrightarrow> h < 2 * 2 ^ (d - 1) \<Longrightarrow> h < (4096::nat)"
proof -
  assume "1 \<le> d" "d \<le> 12" "h < 2 * 2 ^ (d - 1)"
  moreover from this have "(2::nat) ^ (d - 1) \<le> 2 ^ 11" by (intro power_increasing) auto
  ultimately show ?thesis by simp
qed

lemma try_alloc_loop_Nil: "try_alloc_loop t d [] m = Ret (m, None)"
  by (subst try_alloc_loop.simps) simp

lemma try_alloc_success:
  assumes wf: "wf_bits (bits m t)" and d: "1 \<le> d" "d \<le> 12"
    and found: "found (bits m t) (d - 1) 1 p"
  shows "alloc_ok m t d (mark t p m) (last p)"
proof -
  let ?A = "bits m t" and ?g = "last p" and ?m = "mark t p m"
  have "?g div 2 ^ (d - 1) = 1" using found by (simp add: found_def)
  then have lev: "2 ^ (d - 1) \<le> ?g" "?g < 2 * 2 ^ (d - 1)" unfolding level_iff by auto
  note anc = above_power [OF lev]
  have "(0::nat) < 2 ^ (d - 1)" by simp
  then have g: "0 < ?g" using lev(1) by (rule less_le_trans)
  have g4: "?g < 4096" using level_in_tree [OF d lev(2)] .
  have memb: "\<forall>x \<in> set p. \<exists>i \<le> d - 1. x = ?g div 2 ^ i"
    and ifree: "\<forall>i. 1 \<le> i \<and> i \<le> d - 1 \<longrightarrow> \<not> live ?A (?g div 2 ^ i)"
    and marks: "\<forall>x. ?A x \<or> x \<in> set p \<longleftrightarrow> ?A x \<or> (\<exists>i \<le> d - 1. x = ?g div 2 ^ i)"
    and free: "\<not> ?A ?g"
    using found unfolding found_def by blast+
  have mem: "above x ?g" if "x \<in> set p" for x
    using bspec [OF memb that] unfolding anc .
  have range: "\<forall>x \<in> set p. 0 < x \<and> x \<le> 4096"
  proof
    fix x assume "x \<in> set p"
    then have a: "above x ?g" by (rule mem)
    have "x < 4096" using above_le [OF a] g4 by (rule le_less_trans)
    then show "0 < x \<and> x \<le> 4096" using above_pos [OF a] by (intro conjI less_imp_le)
  qed
  have nl: "\<not> live ?A b" if "above b ?g" for b
  proof -
    have "\<exists>i \<le> d - 1. b = ?g div 2 ^ i" using that unfolding anc .
    then obtain i where i: "i \<le> d - 1" "b = ?g div 2 ^ i" by blast
    show ?thesis
    proof (cases "i = 0")
      case True
      then show ?thesis using i free by (simp add: live_def)
    next
      case False
      then show ?thesis using i ifree by simp
    qed
  qed
  let ?A' = "\<lambda>x. ?A x \<or> above x ?g"
  note marked = mark_block [OF wf g g4 free nl, of ?A', OF _ refl]
  have eq: "bits ?m t x = ?A' x" if "0 < x" "x \<le> 4096" for x
    using bits_mark [OF range that] spec [OF marks, of x] unfolding anc by blast
  have live: "live (bits ?m t) b = live ?A' b" for b
    unfolding live_def using eq [of b] eq [of "2 * b"] eq [of "2 * b + 1"] by auto
  have wf': "wf_bits (bits ?m t)"
    unfolding wf_bits_def
  proof (intro allI impI)
    fix x assume x: "2 \<le> x \<and> x < 4096 \<and> bits ?m t x"
    then have "?A' x" using eq [of x] by auto
    then have "?A' (x div 2)" using x marked(1) unfolding wf_bits_def by blast
    then show "bits ?m t (x div 2)" using eq [of "x div 2"] x by auto
  qed
  have frame: "\<forall>a. a \<notin> tree_range t \<longrightarrow> ?m a = m a" using mark_frame range by blast
  show ?thesis
    unfolding alloc_ok_def live using lev wf' frame marked(2,3) by blast
qed

lemma try_alloc_failure:
  assumes wf: "wf_bits (bits m t)" and d: "1 \<le> d" "d \<le> 12"
    and none: "search (bits m t) (d - 1) 1 = None" and h: "2 ^ (d - 1) \<le> h" "h < 2 * 2 ^ (d - 1)"
  shows "\<exists>b. live (bits m t) b \<and> pages b \<inter> pages h \<noteq> {}"
proof -
  have lim: "below_limit 1 (d - 1)" using level_limit [OF d(2)] by (simp add: below_limit_def)
  have "h div 2 ^ (d - 1) = 1" using h by (simp only: level_iff)
  then consider "bits m t h" | b where "live (bits m t) b" "above b h"
    using search_None [OF wf lim none] by blast
  then show ?thesis
  proof cases
    case 1
    have r: "0 < h" "h < 4096" using h level_in_tree [OF d] by auto
    then obtain b where b: "live (bits m t) b" "above h b" using set_has_live 1 by blast
    then show ?thesis using overlap_pages [OF b(2)] by (auto simp: live_def)
  next
    case 2
    then show ?thesis using overlap_pages [OF 2(2)] level_in_tree [OF d h(2)] by auto
  qed
qed

section \<open>The pages of a block\<close>

lemma level_unique:
  assumes "2 ^ a \<le> h" "h < 2 * 2 ^ a" "2 ^ b \<le> h" "h < 2 * (2::nat) ^ b"
  shows "a = b"
proof -
  have "(2::nat) ^ a < 2 ^ Suc b" "(2::nat) ^ b < 2 ^ Suc a" using assms by auto
  then have "a < Suc b" "b < Suc a" by (simp_all only: power_strict_increasing_iff)
  then show ?thesis by simp
qed

lemma div_eq_iff_nat: "0 < s \<Longrightarrow> a div s = h \<longleftrightarrow> s * h \<le> a \<and> a < s * h + (s::nat)"
  using dividend_less_times_div [of s a] by (auto simp: div_nat_eqI add.commute)

lemma pages_level:
  assumes d: "1 \<le> d" "d \<le> 12" and h: "2 ^ (d - 1) \<le> h" "h < 2 * 2 ^ (d - 1)"
  shows "pages h = {2 ^ (12 - d) * (h - 2 ^ (d - 1)) ..< 2 ^ (12 - d) * (h - 2 ^ (d - 1)) + 2 ^ (12 - d)}"
proof -
  let ?s = "2 ^ (12 - d) :: nat" and ?o = "h - 2 ^ (d - 1)"
  have sum: "?s * h = 2048 + ?s * ?o"
    using arg_cong [OF le_add_diff_inverse [OF h(1)], of "\<lambda>x. ?s * x"] level_bound [OF d]
    by (simp add: distrib_left)
  have eq: "above h (2048 + j) \<longleftrightarrow> (2048 + j) div ?s = h" if j: "j < 2048" for j
  proof
    assume a: "above h (2048 + j)"
    have "2 ^ 11 \<le> 2048 + j" "2048 + j < 2 * 2 ^ 11" using j by auto
    then obtain i where i: "i \<le> 11" "h = (2048 + j) div 2 ^ i" using above_power a by blast
    have "h div 2 ^ (11 - i) = (2048 + j) div 2 ^ 11"
      using i by (simp add: div_mult2_eq [symmetric] power_add [symmetric])
    also have "\<dots> = 1" using j by (intro div_nat_eqI) auto
    finally have "h div 2 ^ (11 - i) = 1" .
    then have "2 ^ (11 - i) \<le> h" "h < 2 * 2 ^ (11 - i)" unfolding level_iff by auto
    then have "11 - i = d - 1" using level_unique h by blast
    then have "i = 12 - d" using i d by simp
    then show "(2048 + j) div ?s = h" using i by simp
  next
    assume "(2048 + j) div ?s = h"
    then show "above h (2048 + j)" using h by (auto simp: above_def)
  qed
  have "(2048 + j) div ?s = h \<longleftrightarrow> ?s * ?o \<le> j \<and> j < ?s * ?o + ?s" for j
  proof -
    have "(2048 + j) div ?s = h \<longleftrightarrow> ?s * h \<le> 2048 + j \<and> 2048 + j < ?s * h + ?s"
      by (rule div_eq_iff_nat) simp
    then show ?thesis using sum by linarith
  qed
  then show ?thesis using eq node_address(2) [OF d h] by (auto simp: pages_def)
qed

lemma tree_alloc_cases:
  assumes wf: "wf_bits (bits m t)" and d: "1 \<le> d" "d \<le> 12"
  shows "case search (bits m t) (d - 1) 1 of
      None \<Rightarrow> buddy_tree_try_alloc_depth m t (of_nat d) = Ret (m, None)
    | Some p \<Rightarrow> buddy_tree_try_alloc_depth m t (of_nat d) =
        Ret (mark t p m, Some (get_tree_node_addr (node_of (last p)) (of_nat d))) \<and>
        alloc_ok m t d (mark t p m) (last p)"
proof -
  have lim: "below_limit 1 (d - 1)" using level_limit [OF d(2)] by (simp add: below_limit_def)
  have d': "(of_nat (1 + (d - 1)) :: u32) = of_nat d" using d by simp
  have "buddy_tree_try_alloc_depth m t (of_nat d) =
      try_alloc_loop t (of_nat (1 + (d - 1))) [(node_of 1, of_nat 1)] m"
    unfolding d' by (simp add: buddy_tree_try_alloc_depth_def node_of_def)
  also have "\<dots> = (case search (bits m t) (d - 1) 1 of
       Some p \<Rightarrow> Ret (mark t p m, Some (get_tree_node_addr (node_of (last p)) (of_nat d)))
     | None \<Rightarrow> Ret (m, None))"
    using d by (subst try_alloc_loop_search [OF lim wf]) (auto simp: try_alloc_loop_Nil split: option.split)
  finally show ?thesis
    using try_alloc_success [OF wf d search_Some [OF wf lim]] by (auto split: option.split)
qed

text \<open>
  C5: buddy_tree_try_alloc_depth always returns for a depth of 1 to 12 (its stack of 24 frames
  never overflows). If it reports success, the address is that of a block of this depth that
  was free and is now allocated: it shares no page with a live block, every other live block is
  still live, the tree is well formed and no byte outside the tree has changed. If it reports
  failure, memory is unchanged and every block of this depth shares a page with a live block.
\<close>
theorem buddy_tree_alloc_correct:
  assumes "wf_bits (bits m t)" and "1 \<le> d" and "d \<le> 12"
  shows "\<exists>m' r. buddy_tree_try_alloc_depth m t (of_nat d) = Ret (m', r) \<and>
    (case r of
       Some a \<Rightarrow> \<exists>h. alloc_ok m t d m' h \<and>
         unat a = 4096 * (2 ^ (12 - d) * (h - 2 ^ (d - 1)))
     | None \<Rightarrow> m' = m \<and> (\<forall>h. 2 ^ (d - 1) \<le> h \<and> h < 2 * 2 ^ (d - 1) \<longrightarrow>
         (\<exists>b. live (bits m t) b \<and> pages b \<inter> pages h \<noteq> {})))"
proof (cases "search (bits m t) (d - 1) 1")
  case None
  then show ?thesis using tree_alloc_cases [OF assms] try_alloc_failure [OF assms None] by auto
next
  case (Some p)
  then have ok: "alloc_ok m t d (mark t p m) (last p)" using tree_alloc_cases [OF assms] by simp
  then have "unat (get_tree_node_addr (node_of (last p)) (of_nat d)) =
      4096 * (2 ^ (12 - d) * (last p - 2 ^ (d - 1)))"
    using node_address(1) [OF assms(2,3)] by (simp add: alloc_ok_def)
  then show ?thesis using Some ok tree_alloc_cases [OF assms] by auto
qed

lemma wf_bits_empty: "(\<And>h. 0 < h \<Longrightarrow> h < 4096 \<Longrightarrow> \<not> A h) \<Longrightarrow> wf_bits A"
  by (auto simp: wf_bits_def)

lemma bits_zero: "bits (\<lambda>_. 0) t h = False"
  by (simp add: bits_def tbit_def)

theorem buddy_tree_alloc_correct_witness:
  "\<exists>m' a h. buddy_tree_try_alloc_depth (\<lambda>_. 0) 0 (of_nat 12) = Ret (m', Some a) \<and>
     alloc_ok (\<lambda>_. 0) 0 12 m' h"
proof -
  have wf: "wf_bits (bits (\<lambda>_. 0) 0)" by (rule wf_bits_empty) (simp add: bits_zero)
  have none: "\<not> live (bits (\<lambda>_. 0) 0) b" for b by (simp add: live_def bits_zero)
  have "(2::nat) ^ (12 - 1) < 2 * 2 ^ (12 - 1)" by simp
  with buddy_tree_alloc_correct [OF wf, of 12] none show ?thesis
    by (fastforce split: option.splits)
qed

section \<open>Release in one tree\<close>

lemma clearing_cong:
  "(\<And>x. 0 < x \<Longrightarrow> x < 4096 \<Longrightarrow> A' x = A'' x) \<Longrightarrow> clearing A g A' h = clearing A g A'' h"
  by (simp add: clearing_def)

lemma clearing_UNSET:
  assumes "0 < h" and "h < 4096" and "clearing A g ((bits m t)(h := False)) h"
  shows "clearing A g (bits (UNSET m t (node_of h)) t) h"
  using assms(3) by (rule clearing_cong [THEN iffD1, rotated]) (use assms in \<open>auto simp: bits_UNSET\<close>)

lemma node_of_zero: "h \<le> 4096 \<Longrightarrow> node_of h = 0 \<longleftrightarrow> h \<le> 1"
  using unat_node_of [of h] by (auto simp: unat_eq_0 [symmetric])

lemma unset_merge_loop_clears:
  assumes "clearing A g (bits m t) h" and "wf_bits A" and "live A g"
  shows "\<exists>m' h'. unset_merge_loop m t (node_of h) = (m', node_of h') \<and> h' < 4096 \<and> 0 < h' \<and>
    clearing A g (bits m' t) h' \<and> (h' = 1 \<or> bits m' t (sibling h')) \<and>
    (\<forall>a. a \<notin> tree_range t \<longrightarrow> m' a = m a)"
  using assms
proof (induction h arbitrary: m rule: less_induct)
  case (less h)
  have h: "0 < h" "h < 4096" using less.prems(1) by (simp_all add: clearing_def)
  show ?case
  proof (cases "h = 1")
    case True
    then show ?thesis
      using less.prems h node_of_zero [of 1]
      by (subst unset_merge_loop.simps) (intro exI [of _ m] exI [of _ h], simp)
  next
    case False
    then have h2: "2 \<le> h" using h by simp
    note sf = sibling_facts [OF h2 h(2)]
    have nz: "node_of h \<noteq> 0" using node_of_zero [of h] h2 h by simp
    have sib: "IS_SET m t (BUDDY (node_of h)) = bits m t (sibling h)"
      using sibling_node [OF h2 h(2)] IS_SET_bits [OF sf(2)] sf(3) by simp
    show ?thesis
    proof (cases "bits m t (sibling h)")
      case True
      then show ?thesis
        using less.prems h nz sib
        by (subst unset_merge_loop.simps) (intro exI [of _ m] exI [of _ h], simp)
    next
      case nsib: False
      let ?p = "h div 2"
      let ?m = "UNSET m t (node_of ?p)"
      have p: "0 < ?p" "?p < h" "?p < 4096" using h2 h by auto
      have c: "clearing A g (bits ?m t) ?p"
        by (rule clearing_UNSET [OF p(1,3) clearing_step [OF less.prems h2 nsib]])
      have step: "unset_merge_loop m t (node_of h) = unset_merge_loop ?m t (node_of ?p)"
        using nz sib nsib parent_node [OF h2 h(2)]
        by (subst unset_merge_loop.simps) (simp add: Let_def)
      have frame: "\<forall>a. a \<notin> tree_range t \<longrightarrow> ?m a = m a" using UNSET_frame p(3) by simp
      from less.IH [OF p(2) c less.prems(2,3)] show ?thesis
        unfolding step using frame by force
    qed
  qed
qed

lemma buddy_release_sound:
  assumes "wf_bits (bits m t)" and "live (bits m t) g"
  defines "r \<equiv> buddy_tree_unset_merge_nodes m t (node_of g)"
  shows "wf_bits (bits r t)"
    and "live (bits r t) b \<longleftrightarrow> live (bits m t) b \<and> b \<noteq> g"
    and "a \<notin> tree_range t \<Longrightarrow> r a = m a"
proof -
  have g: "0 < g" "g < 4096" using assms(2) by (simp_all add: live_def)
  let ?m = "UNSET m t (node_of g)"
  have "clearing (bits m t) g (bits ?m t) g"
    by (rule clearing_UNSET [OF g clearing_init [OF assms(1,2)]])
  from unset_merge_loop_clears [OF this assms(1,2)] obtain m' h' where
    loop: "unset_merge_loop ?m t (node_of g) = (m', node_of h')" and h': "h' < 4096" "0 < h'"
    and c: "clearing (bits m t) g (bits m' t) h'" and stop: "h' = 1 \<or> bits m' t (sibling h')"
    and frame: "\<forall>a. a \<notin> tree_range t \<longrightarrow> m' a = ?m a" by (elim exE conjE)
  let ?r = r
  have r: "?r = (if h' = 1 then UNSET m' t (node_of h') else m')"
    using h' node_of_zero [of h'] by (auto simp: r_def buddy_tree_unset_merge_nodes_def loop)
  have same: "bits ?r t x = bits m' t x" if "0 < x" "x \<le> 4095" for x
    using c h' that by (auto simp: r bits_UNSET clearing_def)
  have c': "clearing (bits m t) g (bits ?r t) h'"
    by (rule clearing_cong [THEN iffD1, OF _ c]) (use same in auto)
  have stop': "h' = 1 \<or> bits ?r t (sibling h')" using stop unfolding r by auto
  show "wf_bits (bits ?r t)" "live (bits ?r t) b \<longleftrightarrow> live (bits m t) b \<and> b \<noteq> g"
    using clearing_done [OF c' assms(1,2) stop'] by blast+
  show "?r a = m a" if "a \<notin> tree_range t"
    using frame that UNSET_frame [of g a t m] UNSET_frame [of h' a t m'] g h' by (auto simp: r)
qed

text \<open>
  C6: buddy_tree_unset_merge_nodes, given a live block, releases exactly this block: the tree
  stays well formed, the other live blocks are live as before, their buddies are merged as far
  as they can be (a bit stays set only above a live block) and no byte outside the tree has
  changed.
\<close>
theorem buddy_release_correct:
  assumes "wf_bits (bits m t)" and "live (bits m t) g"
  shows "let m' = buddy_tree_unset_merge_nodes m t (node_of g) in
    wf_bits (bits m' t) \<and>
    (\<forall>b. live (bits m' t) b \<longleftrightarrow> live (bits m t) b \<and> b \<noteq> g) \<and>
    (\<forall>h. 0 < h \<and> h < 4096 \<longrightarrow> bits m' t h = (\<exists>b. live (bits m t) b \<and> b \<noteq> g \<and> above h b)) \<and>
    (\<forall>a. a \<notin> tree_range t \<longrightarrow> m' a = m a)"
proof -
  note r = buddy_release_sound [OF assms]
  show ?thesis
    unfolding Let_def using r bits_from_live [OF r(1)] by blast
qed

text \<open>
  C7: allocating a block of some depth in a tree and then releasing the node that stands for it
  gives back every bit of the tree: the splits the allocation made are undone by the merge.
\<close>
theorem buddy_alloc_release_restores:
  assumes wf: "wf_bits (bits m t)" and d: "1 \<le> d" "d \<le> 12"
    and alloc: "buddy_tree_try_alloc_depth m t (of_nat d) = Ret (m', Some a)"
    and x: "0 < x" "x < 4096"
  shows "bits (buddy_tree_unset_merge_nodes m' t
      (node_of (2 ^ (d - 1) + unat a div (4096 * 2 ^ (12 - d))))) t x = bits m t x"
proof -
  from alloc tree_alloc_cases [OF wf d] obtain p where
    ok: "alloc_ok m t d m' (last p)" and a: "a = get_tree_node_addr (node_of (last p)) (of_nat d)"
    by (auto split: option.splits)
  let ?g = "last p"
  have lev: "2 ^ (d - 1) \<le> ?g" "?g < 2 * 2 ^ (d - 1)" and wf': "wf_bits (bits m' t)"
    and live': "\<forall>b. live (bits m' t) b \<longleftrightarrow> live (bits m t) b \<or> b = ?g"
    and disj: "\<forall>b. live (bits m t) b \<longrightarrow> pages b \<inter> pages ?g = {}"
    using ok by (simp_all add: alloc_ok_def)
  have "unat a div (4096 * 2 ^ (12 - d)) = ?g - 2 ^ (d - 1)"
    unfolding a node_address(1) [OF d lev] by (simp add: mult.assoc [symmetric])
  then have node: "2 ^ (d - 1) + unat a div (4096 * 2 ^ (12 - d)) = ?g" using lev(1) by simp
  have "live (bits m' t) ?g" using live' by simp
  note rel = buddy_release_sound [OF wf' this]
  have "\<not> live (bits m t) ?g"
    using disj pages_nonempty [of ?g] \<open>live (bits m' t) ?g\<close> by (auto simp: live_def)
  then have "(live (bits m' t) b \<and> b \<noteq> ?g) = live (bits m t) b" for b using live' by blast
  then show ?thesis
    unfolding node using rel bits_from_live [OF wf x] bits_from_live [OF rel(1) x] by simp
qed

lemma zero_tree: "wf_bits (bits (\<lambda>_. 0) t)" "\<not> live (bits (\<lambda>_. 0) t) b"
  by (simp_all add: wf_bits_empty live_def bits_zero)

lemma root_tree:
  "bits (SET (\<lambda>_. 0) t (node_of 1)) t h = (h = 1)" if "0 < h" "h \<le> 4096"
  using that by (simp add: bits_SET bits_zero)

theorem buddy_release_correct_witness:
  "\<not> live (bits (buddy_tree_unset_merge_nodes (SET (\<lambda>_. 0) 64 (node_of 1)) 64 (node_of 1)) 64) 1"
proof -
  have "wf_bits (bits (SET (\<lambda>_. 0) 64 (node_of 1)) 64)" "live (bits (SET (\<lambda>_. 0) 64 (node_of 1)) 64) 1"
    by (auto simp: wf_bits_def live_def root_tree simp del: One_nat_def)
  from buddy_release_correct [OF this] show ?thesis unfolding Let_def by blast
qed

theorem buddy_alloc_release_restores_witness:
  "\<exists>m'. buddy_tree_try_alloc_depth (\<lambda>_. 0) 64 (of_nat 3) = Ret (m', Some 0) \<and>
    bits (buddy_tree_unset_merge_nodes m' 64 (node_of 4)) 64 1 = bits (\<lambda>_. 0) 64 1"
proof -
  have d: "1 \<le> (3::nat)" "(3::nat) \<le> 12" by simp_all
  have "search (bits (\<lambda>_. 0) 64) (3 - 1) 1 = Some [1, 2, 4]"
    by (simp add: bits_zero numeral_2_eq_2)
  then obtain m' where a: "buddy_tree_try_alloc_depth (\<lambda>_. 0) 64 (of_nat 3) =
      Ret (m', Some (get_tree_node_addr (node_of 4) (of_nat 3)))"
    using tree_alloc_cases [OF zero_tree(1) d, of 64] by auto
  have z: "get_tree_node_addr (node_of 4) (of_nat 3) = 0"
    using node_address(1) [OF d, of 4] by (simp add: unat_eq_0 [symmetric])
  note r = buddy_alloc_release_restores [OF zero_tree(1) d a, of 1, unfolded z]
  show ?thesis using a r unfolding z by auto
qed

end
