(* ===== verification/Buddy_System.thy ===== *)
theory Buddy_System
  imports Buddy_Memory
begin

text \<open>
  The allocator as the kernel calls it (kalloc, kballoc, kfree of kernel/arch/x86/page.c): one
  tree for each 8 MB, searched in order. Pages are numbered from DYNAMIC_MEMORY_BASE; the state
  of the allocator is the set of pages of its live blocks. The interface the other parts of
  the kernel rely on is the locale page_allocator, interpreted on buddy_alloc.
\<close>

section \<open>The trees in memory\<close>

definition tree_at :: "nat \<Rightarrow> addr" where
  "tree_at i = buddy_array (of_nat i)"

lemma tree_byte: "i < 510 \<Longrightarrow> k < 512 \<Longrightarrow> unat (tree_at i + of_nat k) = 16777224 + 512 * i + k"
proof -
  assume b: "i < 510" "k < 512"
  have "tree_at i + of_nat k = of_nat (16777224 + 512 * i + k)"
    by (simp add: tree_at_def buddy_array_def)
  moreover have "16777224 + 512 * i + k < 2 ^ 32" using b by simp
  ultimately show ?thesis by (simp only: unat_of_nat) simp
qed

lemma tree_range_unat:
  "i < 510 \<Longrightarrow> a \<in> tree_range (tree_at i) \<Longrightarrow>
    16777224 + 512 * i \<le> unat a \<and> unat a < 16777224 + 512 * i + 512"
  unfolding tree_range_def using tree_byte by fastforce

lemma tree_ranges_disjoint:
  "i < 510 \<Longrightarrow> j < 510 \<Longrightarrow> i \<noteq> j \<Longrightarrow> a \<in> tree_range (tree_at i) \<Longrightarrow> a \<notin> tree_range (tree_at j)"
  using tree_range_unat [of i a] tree_range_unat [of j a] by fastforce

lemma header_not_in_tree: "i < 510 \<Longrightarrow> unat a < 16777224 \<Longrightarrow> a \<notin> tree_range (tree_at i)"
  using tree_range_unat [of i a] by fastforce

lemma buddy_count_cong:
  "(\<And>a. unat a < 16777224 \<Longrightarrow> m' a = m a) \<Longrightarrow> buddy_count m' = buddy_count m"
  unfolding buddy_count_def by (rule ld32_cong) (auto simp: unat_word_ariths)

definition buddy_ok :: "mem \<Rightarrow> bool" where
  "buddy_ok m \<longleftrightarrow> unat (buddy_count m) < 510 \<and>
     (\<forall>i < unat (buddy_count m). wf_bits (bits m (tree_at i)))"

definition used_pages :: "mem \<Rightarrow> nat set" where
  "used_pages m = {2048 * i + j | i j h.
     i < unat (buddy_count m) \<and> live (bits m (tree_at i)) h \<and> j \<in> pages h}"

lemma page_split: "j < 2048 \<Longrightarrow> j' < 2048 \<Longrightarrow> 2048 * i + j = 2048 * i' + j' \<longleftrightarrow> i = i' \<and> (j::nat) = j'"
  by (auto dest: arg_cong [of _ _ "\<lambda>x. x mod 2048"])

lemma used_page_iff:
  "j < 2048 \<Longrightarrow> 2048 * i + j \<in> used_pages m \<longleftrightarrow>
    i < unat (buddy_count m) \<and> (\<exists>h. live (bits m (tree_at i)) h \<and> j \<in> pages h)"
  unfolding used_pages_def using page_split by (fastforce simp: pages_def)

text \<open>One block added to tree i adds its pages and nothing else.\<close>

lemma alloc_ok_count:
  assumes "alloc_ok m (tree_at i) d m' h" and "i < 510"
  shows "buddy_count m' = buddy_count m"
  by (rule buddy_count_cong) (use assms header_not_in_tree in \<open>auto simp: alloc_ok_def\<close>)

lemma alloc_ok_other_tree:
  assumes "alloc_ok m (tree_at i) d m' h" and "i < 510" "k < 510" "k \<noteq> i" and "x < 4096"
  shows "bits m' (tree_at k) x = bits m (tree_at k) x"
  by (rule bits_cong [OF assms(5)]) (use assms tree_ranges_disjoint in \<open>auto simp: alloc_ok_def\<close>)

lemma live_cong: "(\<And>x. x < 4096 \<Longrightarrow> A x = B x) \<Longrightarrow> live A h = live B h"
  unfolding live_def by auto

lemma wf_bits_cong: "(\<And>x. x < 4096 \<Longrightarrow> A x = B x) \<Longrightarrow> wf_bits A = wf_bits B"
  unfolding wf_bits_def by auto

lemma alloc_ok_system:
  assumes ok: "buddy_ok m" and a: "alloc_ok m (tree_at i) d m' h" and i: "i < unat (buddy_count m)"
  shows "buddy_ok m'" "used_pages m' = used_pages m \<union> (+) (2048 * i) ` pages h"
    "used_pages m \<inter> (+) (2048 * i) ` pages h = {}"
proof -
  have i510: "i < 510" using ok i by (simp add: buddy_ok_def)
  note count = alloc_ok_count [OF a i510]
  have other: "k < unat (buddy_count m) \<Longrightarrow> k \<noteq> i \<Longrightarrow> x < 4096 \<Longrightarrow>
      bits m' (tree_at k) x = bits m (tree_at k) x" for k x
    using alloc_ok_other_tree [OF a i510] ok by (simp add: buddy_ok_def)
  have this_tree: "wf_bits (bits m' (tree_at i))"
      "\<And>b. live (bits m' (tree_at i)) b \<longleftrightarrow> live (bits m (tree_at i)) b \<or> b = h"
      "\<And>b. live (bits m (tree_at i)) b \<Longrightarrow> pages b \<inter> pages h = {}"
    using a by (auto simp: alloc_ok_def)
  have "wf_bits (bits m' (tree_at k))" if "k < unat (buddy_count m)" for k
    using this_tree(1) wf_bits_cong [OF other [OF that]] ok that
    by (cases "k = i") (auto simp: buddy_ok_def)
  then show "buddy_ok m'" using ok count by (simp add: buddy_ok_def)
  have iff: "p \<in> used_pages m' \<longleftrightarrow> p \<in> used_pages m \<or> p \<in> (+) (2048 * i) ` pages h" for p
  proof -
    define k j where "k = p div 2048" and "j = p mod 2048"
    have p: "p = 2048 * k + j" "j < 2048" by (simp_all add: k_def j_def)
    have img: "p \<in> (+) (2048 * i) ` pages h \<longleftrightarrow> k = i \<and> j \<in> pages h"
      using p page_split by (fastforce simp: pages_def)
    show ?thesis
    proof (cases "k = i")
      case True
      then show ?thesis using img i count this_tree(2) unfolding p(1) used_page_iff [OF p(2)] by auto
    next
      case False
      then show ?thesis
        using img count live_cong [OF other [of k]] unfolding p(1) used_page_iff [OF p(2)] by auto
    qed
  qed
  then show "used_pages m' = used_pages m \<union> (+) (2048 * i) ` pages h" by blast
  show "used_pages m \<inter> (+) (2048 * i) ` pages h = {}"
  proof (rule ccontr)
    assume "\<not> ?thesis"
    then obtain j where j: "j \<in> pages h" "2048 * i + j \<in> used_pages m" by auto
    then obtain b where "live (bits m (tree_at i)) b" "j \<in> pages b"
      using used_page_iff [of j i m] by (auto simp: pages_def)
    then show False using this_tree(3) j(1) by blast
  qed
qed

section \<open>Searching the trees\<close>

lemma alloc_depth_loop_search:
  assumes "buddy_ok m" and d: "1 \<le> d" "d \<le> 12" and "i \<le> unat (buddy_count m)"
  shows "(alloc_depth_loop (of_nat d) (of_nat i) m = Trap Assert_fail \<and>
      (\<forall>k. i \<le> k \<and> k < unat (buddy_count m) \<longrightarrow> search (bits m (tree_at k)) (d - 1) 1 = None)) \<or>
    (\<exists>k p. i \<le> k \<and> k < unat (buddy_count m) \<and> search (bits m (tree_at k)) (d - 1) 1 = Some p \<and>
      (\<forall>k'. i \<le> k' \<and> k' < k \<longrightarrow> search (bits m (tree_at k')) (d - 1) 1 = None) \<and>
      alloc_ok m (tree_at k) d (mark (tree_at k) p m) (last p) \<and>
      alloc_depth_loop (of_nat d) (of_nat i) m = Ret (mark (tree_at k) p m,
        TREE_BASE_ADDR (of_nat k) + get_tree_node_addr (node_of (last p)) (of_nat d)))"
  using assms(4)
proof (induction "unat (buddy_count m) - i" arbitrary: i)
  case 0
  then have "\<not> (of_nat i < buddy_count m)" by (simp add: word_less_nat_alt)
  then show ?case using 0 by (subst alloc_depth_loop.simps) auto
next
  case (Suc n)
  have i: "i < unat (buddy_count m)" "i < 510" using Suc.hyps(2) assms(1) by (auto simp: buddy_ok_def)
  then have lt: "(of_nat i :: u32) < buddy_count m" by (simp add: word_less_nat_alt unat_of_nat)
  have tree: "buddy_array (of_nat i) = tree_at i" by (simp add: tree_at_def)
  have wf: "wf_bits (bits m (tree_at i))" using assms(1) i by (simp add: buddy_ok_def)
  note one = tree_alloc_cases [OF wf d]
  show ?case
  proof (cases "search (bits m (tree_at i)) (d - 1) 1")
    case None
    have step: "alloc_depth_loop (of_nat d) (of_nat i) m = alloc_depth_loop (of_nat d) (of_nat (Suc i)) m"
      using one None lt by (subst alloc_depth_loop.simps) (simp add: tree add.commute)
    have rest: "(i \<le> k \<and> P) = (k = i \<and> P \<or> Suc i \<le> k \<and> P)" for k P by auto
    have "n = unat (buddy_count m) - Suc i" "Suc i \<le> unat (buddy_count m)"
      using Suc.hyps(2) i by auto
    from Suc.hyps(1) [OF this] show ?thesis
    proof (elim disjE exE conjE, goal_cases)
      case 1
      then show ?thesis using None step by (intro disjI1) (auto simp: rest simp del: of_nat_Suc)
    next
      case (2 k p)
      then show ?thesis
        using None step
        by (intro disjI2 exI [of _ k] exI [of _ p]) (auto simp: rest less_Suc_eq_le simp del: of_nat_Suc)
    qed
  next
    case (Some p)
    then show ?thesis
      using one lt i by (intro disjI2 exI [of _ i] exI [of _ p], subst alloc_depth_loop.simps)
        (auto simp: tree)
  qed
qed

section \<open>The requested size\<close>

text \<open>
  The instruction the source names lzcnt. A processor without LZCNT executes the same encoding
  as BSR, which returns the index of the highest bit set; the source's arithmetic
  (logsize = lzcnt(size - 1) + 1) fits this reading.
\<close>

definition is_bsr :: "(u32 \<Rightarrow> u32) \<Rightarrow> bool" where
  "is_bsr lz \<longleftrightarrow> (\<forall>x. x \<noteq> 0 \<longrightarrow> 2 ^ unat (lz x) \<le> unat x \<and> unat x < 2 * 2 ^ unat (lz x))"

fun high_bit :: "nat \<Rightarrow> nat" where
  "high_bit n = (if n < 2 then 0 else Suc (high_bit (n div 2)))"

declare high_bit.simps [simp del]

definition bsr :: "u32 \<Rightarrow> u32" where
  "bsr x = of_nat (high_bit (unat x))"

lemma high_bit_bounds: "0 < n \<Longrightarrow> 2 ^ high_bit n \<le> n \<and> n < 2 * 2 ^ high_bit n"
proof (induction n rule: high_bit.induct)
  case (1 n)
  show ?case
  proof (cases "n < 2")
    case True
    then show ?thesis using 1 by (simp add: high_bit.simps [of n])
  next
    case False
    then show ?thesis using 1 by (simp add: high_bit.simps [of n]) linarith
  qed
qed

lemma is_bsr_bsr: "is_bsr bsr"
  unfolding is_bsr_def
proof (intro allI impI)
  fix x :: u32 assume "x \<noteq> 0"
  then have "0 < unat x" by (simp add: unat_gt_0)
  note b = high_bit_bounds [OF this]
  have "high_bit (unat x) < 2 ^ high_bit (unat x)" by (rule less_exp)
  then have "high_bit (unat x) < 2 ^ 32" using b unat_u32_less [of x] by linarith
  then have "unat (bsr x) = high_bit (unat x)" by (simp add: bsr_def unat_of_nat)
  then show "2 ^ unat (bsr x) \<le> unat x \<and> unat x < 2 * 2 ^ unat (bsr x)" using b by simp
qed

text \<open>The number of pages in the block a request gets: a power of two, as few as hold it.\<close>

definition block_pages :: "nat \<Rightarrow> nat" where
  "block_pages sz = 2 ^ (high_bit (sz - 1) - 11)"

lemma high_bit_unique:
  "2 ^ k \<le> n \<Longrightarrow> n < 2 * 2 ^ k \<Longrightarrow> high_bit n = k"
  using high_bit_bounds [of n] level_unique [of k n "high_bit n"] by (metis gr0I le_zero_eq power_not_zero zero_neq_numeral)

lemma bsr_high_bit: "is_bsr lz \<Longrightarrow> x \<noteq> 0 \<Longrightarrow> unat (lz x) = high_bit (unat x)"
  unfolding is_bsr_def using high_bit_unique by metis

lemma high_bit_range: "2048 \<le> n \<Longrightarrow> n < 8388608 \<Longrightarrow> 11 \<le> high_bit n \<and> high_bit n \<le> 22"
proof -
  assume n: "2048 \<le> n" "n < 8388608"
  then have b: "2 ^ high_bit n \<le> n" "n < 2 ^ Suc (high_bit n)" using high_bit_bounds [of n] by auto
  have "(2::nat) ^ 11 < 2 ^ Suc (high_bit n)" "(2::nat) ^ high_bit n < 2 ^ 23" using n b by auto
  then have "11 < Suc (high_bit n)" "high_bit n < 23" by (simp_all only: power_strict_increasing_iff)
  then show ?thesis by simp
qed

lemma block_pages_fits: "2048 < sz \<Longrightarrow> sz \<le> 8388608 \<Longrightarrow> sz \<le> 4096 * block_pages sz"
proof -
  assume sz: "2048 < sz" "sz \<le> 8388608"
  let ?k = "high_bit (sz - 1)"
  have k: "11 \<le> ?k" "sz - 1 < 2 * 2 ^ ?k" using high_bit_range [of "sz - 1"] high_bit_bounds [of "sz - 1"] sz by auto
  have "4096 * block_pages sz = 2 ^ 12 * 2 ^ (?k - 11)" by (simp add: block_pages_def)
  also have "\<dots> = 2 ^ (12 + (?k - 11))" by (simp only: power_add)
  also have "12 + (?k - 11) = Suc ?k" using k(1) by simp
  finally show ?thesis using k(2) sz by simp
qed

lemma buddy_alloc_depth_of:
  assumes lz: "is_bsr lz" and sz: "2048 < unat sz" "unat sz \<le> 8388608"
  defines "d \<equiv> 23 - high_bit (unat sz - 1)"
  shows "buddy_alloc lz m sz = run_bind (buddy_alloc_depth m (of_nat d))
      (\<lambda>(m', a). Ret (m', DYNAMIC_MEMORY_BASE + a))"
    and "1 \<le> d" "d \<le> 12" "2 ^ (12 - d) = block_pages (unat sz)"
proof -
  have nz: "sz \<noteq> 0" "sz - 1 \<noteq> 0" using sz by auto
  have un: "unat (sz - 1) = unat sz - 1" using nz(1) by (rule unat_pred)
  let ?k = "high_bit (unat sz - 1)"
  have k: "11 \<le> ?k" "?k \<le> 22" using high_bit_range [of "unat sz - 1"] sz by auto
  have "unat (lz (sz - 1)) = ?k" using bsr_high_bit [OF lz nz(2)] un by simp
  then have lzk: "lz (sz - 1) = of_nat ?k" by (rule unat_eqD)
  show d: "1 \<le> d" "d \<le> 12" using k by (auto simp: d_def)
  show "2 ^ (12 - d) = block_pages (unat sz)" using k by (simp add: d_def block_pages_def)
  have depth: "(12 - ((of_nat ?k :: u32) + 1 - 12)) = of_nat d"
    using k by (simp add: d_def of_nat_diff)
  have "sint (of_nat d :: u32) = int d"
    using d by (simp add: signed_of_nat signed_take_bit_int_eq_self)
  then have "0 < sint (of_nat d :: u32)" using d by simp
  then show "buddy_alloc lz m sz = run_bind (buddy_alloc_depth m (of_nat d))
      (\<lambda>(m', a). Ret (m', DYNAMIC_MEMORY_BASE + a))"
    unfolding buddy_alloc_def Let_def lzk depth by simp
qed

section \<open>The page allocator interface\<close>

text \<open>The bytes of n pages from page p on.\<close>

definition page_addr :: "nat \<Rightarrow> nat" where
  "page_addr p = 16777216 + 4096 * p"

text \<open>The bytes that are not part of a bit tree; no allocation writes to them.\<close>

definition outside_trees :: "mem \<Rightarrow> addr \<Rightarrow> bool" where
  "outside_trees m a \<longleftrightarrow> unat a < 16777224 \<or> 16777224 + 512 * unat (buddy_count m) \<le> unat a"

lemma alloc_ok_outside:
  assumes "alloc_ok m (tree_at i) d m' h" and "i < unat (buddy_count m)" and "i < 510" and "outside_trees m a"
  shows "m' a = m a"
proof -
  have "a \<notin> tree_range (tree_at i)"
    using tree_range_unat [OF assms(3), of a] assms(2,4) unfolding outside_trees_def by linarith
  then show ?thesis using assms(1) by (simp add: alloc_ok_def)
qed

definition allocated :: "mem \<Rightarrow> mem \<Rightarrow> addr \<Rightarrow> nat \<Rightarrow> bool" where
  "allocated m m' a n \<longleftrightarrow> buddy_ok m' \<and> buddy_count m' = buddy_count m \<and>
     (\<exists>p. unat a = page_addr p \<and> p + n \<le> 2048 * unat (buddy_count m) \<and>
        {p..<p + n} \<inter> used_pages m = {} \<and> used_pages m' = used_pages m \<union> {p..<p + n}) \<and>
     (\<forall>x. outside_trees m x \<longrightarrow> m' x = m x)"

lemma shift_interval: "(+) (k::nat) ` {a..<a + n} = {k + a..<k + a + n}"
  by (simp add: add.assoc add.commute add.left_commute)

lemma block_address:
  assumes "i < 510" and d: "1 \<le> d" "d \<le> 12" and h: "2 ^ (d - 1) \<le> h" "h < 2 * 2 ^ (d - 1)"
  shows "unat (DYNAMIC_MEMORY_BASE + (TREE_BASE_ADDR (of_nat i) + get_tree_node_addr (node_of h) (of_nat d)))
    = page_addr (2048 * i + 2 ^ (12 - d) * (h - 2 ^ (d - 1)))"
proof -
  define q where "q = 2 ^ (12 - d) * (h - 2 ^ (d - 1))"
  have "q + 2 ^ (12 - d) \<le> 2048" unfolding q_def by (rule node_address(2) [OF d h])
  moreover have "(0::nat) < 2 ^ (12 - d)" by simp
  ultimately have "q < 2048" by linarith
  then have sm: "16777216 + (8388608 * i + 4096 * q) < 2 ^ 32" using assms(1) by simp
  have "get_tree_node_addr (node_of h) (of_nat d) = of_nat (4096 * q)"
    using node_address(1) [OF d h, folded q_def] by (rule unat_eqD)
  then have "DYNAMIC_MEMORY_BASE + (TREE_BASE_ADDR (of_nat i) + get_tree_node_addr (node_of h) (of_nat d))
      = of_nat (16777216 + (8388608 * i + 4096 * q))"
    by (simp add: TREE_BASE_ADDR_def)
  then show ?thesis using sm unfolding page_addr_def q_def [symmetric] by (simp only: unat_of_nat) simp
qed

lemma full_tree:
  assumes ok: "buddy_ok m" and d: "1 \<le> d" "d \<le> 12"
    and full: "\<forall>k < unat (buddy_count m). search (bits m (tree_at k)) (d - 1) 1 = None"
    and n_def: "2 ^ (12 - d) = n" and p: "n dvd p" "p + n \<le> 2048 * unat (buddy_count m)"
  shows "{p..<p + n} \<inter> used_pages m \<noteq> {}"
proof -
  define i r where "i = p div 2048" and "r = p mod 2048"
  have p': "p = 2048 * i + r" and r: "r < 2048" by (simp_all add: i_def r_def)
  have n0: "0 < n" and lev: "n * 2 ^ (d - 1) = 2048"
    using level_bound [OF d] by (simp_all add: n_def [symmetric])
  have i: "i < unat (buddy_count m)" using p n0 unfolding p' by linarith
  have "n dvd r" using p(1) lev unfolding r_def
    by (metis dvd_mod dvd_triv_left)
  then obtain q where q: "r = n * q" by (elim dvdE)
  have "n * q < n * 2 ^ (d - 1)" using r q lev by simp
  then have q2: "q < 2 ^ (d - 1)" by simp
  let ?h = "2 ^ (d - 1) + q"
  have h: "2 ^ (d - 1) \<le> ?h" "?h < 2 * 2 ^ (d - 1)" using q2 by simp_all
  have pg: "pages ?h = {r..<r + n}" using pages_level [OF d h] q by (simp add: n_def [symmetric])
  have wf: "wf_bits (bits m (tree_at i))" using ok i by (simp add: buddy_ok_def)
  have "search (bits m (tree_at i)) (d - 1) 1 = None" using full i by blast
  from try_alloc_failure [OF wf d this h] obtain b j where
    "live (bits m (tree_at i)) b" "j \<in> pages b" "j \<in> {r..<r + n}" unfolding pg by blast
  moreover from this have "2048 * i + j \<in> used_pages m"
    using used_page_iff [of j i m] i by (auto simp: pages_def)
  moreover from calculation have "2048 * i + j \<in> {p..<p + n}" unfolding p' by simp
  ultimately show ?thesis by blast
qed

lemma alloc_depth_sound:
  assumes ok: "buddy_ok m" and d: "1 \<le> d" "d \<le> 12" and n: "2 ^ (12 - d) = n"
    and eq: "kballoc lz m sz = run_bind (buddy_alloc_depth m (of_nat d)) (\<lambda>(m', a). Ret (m', DYNAMIC_MEMORY_BASE + a))"
  shows "kballoc lz m sz = Trap Assert_fail \<and>
       (\<forall>p. n dvd p \<and> p + n \<le> 2048 * unat (buddy_count m) \<longrightarrow> {p..<p + n} \<inter> used_pages m \<noteq> {}) \<or>
     (\<exists>m' a. kballoc lz m sz = Ret (m', a) \<and> allocated m m' a n)"
proof -
  from alloc_depth_loop_search [OF ok d, of 0]
  consider (fail) "alloc_depth_loop (of_nat d) (of_nat 0) m = Trap Assert_fail"
      "\<forall>k < unat (buddy_count m). search (bits m (tree_at k)) (d - 1) 1 = None"
    | (found) k p where "k < unat (buddy_count m)" "alloc_ok m (tree_at k) d (mark (tree_at k) p m) (last p)"
      "alloc_depth_loop (of_nat d) (of_nat 0) m = Ret (mark (tree_at k) p m,
        TREE_BASE_ADDR (of_nat k) + get_tree_node_addr (node_of (last p)) (of_nat d))"
    by auto
  then show ?thesis
  proof cases
    case fail
    have "{p..<p + n} \<inter> used_pages m \<noteq> {}"
      if p: "n dvd p" "p + n \<le> 2048 * unat (buddy_count m)" for p
      by (rule full_tree [OF ok d fail(2) n p])
    then show ?thesis
      using fail(1) by (auto simp: eq buddy_alloc_depth_def)
  next
    case found
    let ?m = "mark (tree_at k) p m" and ?h = "last p"
    have lev: "2 ^ (d - 1) \<le> ?h" "?h < 2 * 2 ^ (d - 1)" using found(2) by (auto simp: alloc_ok_def)
    let ?o = "2 ^ (12 - d) * (?h - 2 ^ (d - 1))"
    have k: "k < 510" using found(1) ok by (simp add: buddy_ok_def)
    have pg: "pages ?h = {?o..<?o + n}" using pages_level [OF d lev] n by simp
    note sys = alloc_ok_system [OF ok found(2,1), unfolded pg shift_interval]
    have "?o + n \<le> 2048" using node_address(2) [OF d lev] n by simp
    then have "2048 * k + ?o + n \<le> 2048 * unat (buddy_count m)" using found(1) by linarith
    then have "allocated m ?m (DYNAMIC_MEMORY_BASE + (TREE_BASE_ADDR (of_nat k) +
        get_tree_node_addr (node_of ?h) (of_nat d))) n"
      unfolding allocated_def
      using sys alloc_ok_count [OF found(2) k] block_address [OF k d lev] alloc_ok_outside [OF found(2,1) k]
      by (auto intro!: exI [of _ "2048 * k + ?o"])
    then show ?thesis
      using found(3) by (auto simp: eq buddy_alloc_depth_def)
  qed
qed

lemma kballoc_sound:
  assumes lz: "is_bsr lz" and ok: "buddy_ok m" and sz: "2048 < unat sz" "unat sz \<le> 8388608"
  defines "n \<equiv> block_pages (unat sz)"
  shows "kballoc lz m sz = Trap Assert_fail \<and>
       (\<forall>p. n dvd p \<and> p + n \<le> 2048 * unat (buddy_count m) \<longrightarrow> {p..<p + n} \<inter> used_pages m \<noteq> {}) \<or>
     (\<exists>m' a. kballoc lz m sz = Ret (m', a) \<and> allocated m m' a n)"
  using buddy_alloc_depth_of [OF lz sz]
  by (intro alloc_depth_sound [OF ok, where d = "23 - high_bit (unat sz - 1)"]) (simp_all add: kballoc_def n_def)

text \<open>
  C1: kballoc for a request of more than 2048 bytes and at most 8 MB, with the bit scan read as
  BSR: it either fails its assertion, which it does only if every block of the needed size
  meets a live block, or returns the address of a block of block_pages pages, enough to hold
  the request, whose pages were unused and are now used; the pages in use before stay in use
  and the allocator stays well formed.
\<close>
theorem kballoc_correct:
  assumes lz: "is_bsr lz" and ok: "buddy_ok m" and sz: "2048 < unat sz" "unat sz \<le> 8388608"
  defines "n \<equiv> block_pages (unat sz)"
  shows "unat sz \<le> 4096 * n \<and>
    (kballoc lz m sz = Trap Assert_fail \<and>
       (\<forall>p. n dvd p \<and> p + n \<le> 2048 * unat (buddy_count m) \<longrightarrow> {p..<p + n} \<inter> used_pages m \<noteq> {}) \<or>
     (\<exists>m' a. kballoc lz m sz = Ret (m', a) \<and> allocated m m' a n))"
  unfolding n_def using kballoc_sound [OF lz ok sz] block_pages_fits [OF sz] by blast

text \<open>
  The interface: alloc sz s is an allocation request, used the pages handed out so far. The
  first lemma is what a client with one request relies on; the others are about any sequence
  of requests.
\<close>

primrec alloc_seq :: "(u32 \<Rightarrow> 's \<Rightarrow> ('s \<times> addr) run) \<Rightarrow> u32 list \<Rightarrow> 's \<Rightarrow> ('s \<times> addr list) run" where
  "alloc_seq alloc [] s = Ret (s, [])"
| "alloc_seq alloc (sz # szs) s =
     run_bind (alloc sz s) (\<lambda>(s', a).
       run_bind (alloc_seq alloc szs s') (\<lambda>(s'', as). Ret (s'', a # as)))"

definition block_bytes :: "addr \<Rightarrow> u32 \<Rightarrow> nat set" where
  "block_bytes a sz = {unat a..<unat a + unat sz}"

definition page_bytes :: "nat set \<Rightarrow> nat set" where
  "page_bytes P = {page_addr p + x | p x. p \<in> P \<and> x < 4096}"

lemma page_bytes_Un: "page_bytes (P \<union> Q) = page_bytes P \<union> page_bytes Q"
  by (auto simp: page_bytes_def)

lemma page_bytes_mono: "P \<subseteq> Q \<Longrightarrow> page_bytes P \<subseteq> page_bytes Q"
  by (auto simp: page_bytes_def)

lemma page_bytes_disjoint: "P \<inter> Q = {} \<Longrightarrow> page_bytes P \<inter> page_bytes Q = {}"
proof -
  assume d: "P \<inter> Q = {}"
  have eq: "p = q" if "page_addr p + x = page_addr q + y" "x < 4096" "y < 4096" for p q x y
    using that by (simp add: page_addr_def)
  show ?thesis using d eq by (fastforce simp: page_bytes_def)
qed

lemma block_in_pages:
  assumes "unat a = page_addr p" and "unat sz \<le> 4096 * n"
  shows "block_bytes a sz \<subseteq> page_bytes {p..<p + n}"
proof
  fix b assume b: "b \<in> block_bytes a sz"
  define q where "q = p + (b - unat a) div 4096"
  have "b = page_addr q + (b - unat a) mod 4096" "(b - unat a) mod 4096 < 4096"
    using b assms(1) by (simp_all add: block_bytes_def q_def page_addr_def algebra_simps)
  moreover have "(b - unat a) div 4096 < n"
    using b assms(2) by (auto simp: block_bytes_def less_mult_imp_div_less)
  then have "q \<in> {p..<p + n}" by (simp add: q_def)
  ultimately show "b \<in> page_bytes {p..<p + n}" unfolding page_bytes_def by blast
qed

locale page_allocator =
  fixes alloc :: "u32 \<Rightarrow> 's \<Rightarrow> ('s \<times> addr) run" and good :: "'s \<Rightarrow> bool"
    and used :: "'s \<Rightarrow> nat set" and request :: "u32 \<Rightarrow> bool" and npages :: "u32 \<Rightarrow> nat"
  assumes fits: "request sz \<Longrightarrow> unat sz \<le> 4096 * npages sz"
    and sound: "good s \<Longrightarrow> request sz \<Longrightarrow> alloc sz s = Ret (s', a) \<Longrightarrow>
      good s' \<and> (\<exists>p. unat a = page_addr p \<and> {p..<p + npages sz} \<inter> used s = {} \<and>
        used s' = used s \<union> {p..<p + npages sz})"
    and total: "good s \<Longrightarrow> request sz \<Longrightarrow> alloc sz s \<noteq> None"
begin

lemma fresh:
  assumes "good s" "request sz" "alloc sz s = Ret (s', a)"
  shows "block_bytes a sz \<inter> page_bytes (used s) = {}" "block_bytes a sz \<subseteq> page_bytes (used s')"
    "used s \<subseteq> used s'" "good s'" "4096 dvd unat a"
proof -
  obtain p where p: "unat a = page_addr p" "{p..<p + npages sz} \<inter> used s = {}"
      "used s' = used s \<union> {p..<p + npages sz}" "good s'"
    using sound [OF assms] by blast
  note sub = block_in_pages [OF p(1) fits [OF assms(2)]]
  show "block_bytes a sz \<inter> page_bytes (used s) = {}"
    using sub page_bytes_disjoint [OF p(2)] by blast
  show "block_bytes a sz \<subseteq> page_bytes (used s')" using sub unfolding p(3) page_bytes_Un by blast
  show "used s \<subseteq> used s'" "good s'" using p by auto
  show "4096 dvd unat a" unfolding p(1) page_addr_def by (simp add: dvd_add)
qed

lemma seq_fresh:
  "good s \<Longrightarrow> \<forall>sz \<in> set szs. request sz \<Longrightarrow> alloc_seq alloc szs s = Ret (s', as) \<Longrightarrow>
    length as = length szs \<and> good s' \<and> used s \<subseteq> used s' \<and>
    (\<forall>i < length as. block_bytes (as ! i) (szs ! i) \<inter> page_bytes (used s) = {} \<and>
       block_bytes (as ! i) (szs ! i) \<subseteq> page_bytes (used s') \<and>
       (\<forall>j < i. block_bytes (as ! j) (szs ! j) \<inter> block_bytes (as ! i) (szs ! i) = {}))"
proof (induction szs arbitrary: s as)
  case (Cons sz szs)
  from Cons.prems(3) obtain s1 a bs where
    a: "alloc sz s = Ret (s1, a)" and bs: "alloc_seq alloc szs s1 = Ret (s', bs)" and as: "as = a # bs"
    by (auto simp: run_bind_eq_Ret)
  note f = fresh [OF Cons.prems(1) _ a]
  have rq: "request sz" using Cons.prems(2) by simp
  note IH = Cons.IH [OF f(4) [OF rq] _ bs]
  have mono: "page_bytes (used s) \<subseteq> page_bytes (used s1)" "page_bytes (used s1) \<subseteq> page_bytes (used s')"
    using f(3) [OF rq] IH Cons.prems(2) by (intro page_bytes_mono; simp)+
  show ?case
    unfolding as using IH Cons.prems(2) f [OF rq] mono
    by (auto simp: nth_Cons less_Suc_eq_0_disj split: nat.splits) blast+
qed simp

end

text \<open>buddy_alloc is such an allocator for requests of more than 2048 bytes.\<close>

definition buddy_request :: "u32 \<Rightarrow> bool" where
  "buddy_request sz \<longleftrightarrow> 2048 < unat sz \<and> unat sz \<le> 8388608"

interpretation ka: page_allocator "\<lambda>sz m. kballoc lz m sz" "\<lambda>m. is_bsr lz \<and> buddy_ok m" used_pages
    buddy_request "\<lambda>sz. block_pages (unat sz)" for lz
proof unfold_locales
  show "unat sz \<le> 4096 * block_pages (unat sz)" if "buddy_request sz" for sz
    using that block_pages_fits by (simp add: buddy_request_def)
  show "(is_bsr lz \<and> buddy_ok s') \<and> (\<exists>p. unat a = page_addr p \<and>
      {p..<p + block_pages (unat sz)} \<inter> used_pages s = {} \<and>
      used_pages s' = used_pages s \<union> {p..<p + block_pages (unat sz)})"
    if "is_bsr lz \<and> buddy_ok s" "buddy_request sz" "kballoc lz s sz = Ret (s', a)" for s sz s' a
  proof -
    have "allocated s s' a (block_pages (unat sz))"
      using kballoc_sound [of lz s sz] that by (auto simp: buddy_request_def)
    then show ?thesis using that(1) unfolding allocated_def by blast
  qed
  show "kballoc lz s sz \<noteq> None" if "is_bsr lz \<and> buddy_ok s" "buddy_request sz" for s sz
    using kballoc_sound [of lz s sz] that by (auto simp: buddy_request_def)
qed

text \<open>
  C2: however many blocks the kernel takes from kballoc in a row (each more than 2048 bytes and
  at most 8 MB), the byte ranges it gets are pairwise disjoint, and disjoint from everything
  handed out before.
\<close>
theorem kballoc_blocks_disjoint:
  assumes "is_bsr lz" and "buddy_ok m" and "\<forall>sz \<in> set szs. buddy_request sz"
    and "alloc_seq (\<lambda>sz m. kballoc lz m sz) szs m = Ret (m', as)" and "j < i" "i < length as"
  shows "block_bytes (as ! j) (szs ! j) \<inter> block_bytes (as ! i) (szs ! i) = {} \<and>
    block_bytes (as ! i) (szs ! i) \<inter> page_bytes (used_pages m) = {}"
  using ka.seq_fresh [of lz m szs m' as] assms by simp

section \<open>Initialisation\<close>

lemma search_empty:
  "(\<And>x. above h x \<Longrightarrow> x < 4096 \<Longrightarrow> \<not> A x) \<Longrightarrow> below_limit h k \<Longrightarrow>
    \<exists>p. search A k h = Some p \<and> p \<noteq> [] \<and> last p = h * 2 ^ k"
proof (induction k arbitrary: h)
  case 0
  then show ?case using below_limit_less [OF 0(2)] by (auto simp: below_limit_def)
next
  case (Suc k)
  note lim = below_limit_children [OF Suc.prems(2)]
  have h: "0 < h" "\<not> A h" using Suc.prems lim by (auto simp: below_limit_def)
  have "\<not> A x" if "above (2 * h) x" "x < 4096" for x
    using Suc.prems(1) that above_trans above_children(1) h(1) by blast
  from Suc.IH [OF this lim(1)] show ?case using h by auto
qed

lemma fresh_system:
  assumes "unat (buddy_count m) < 510"
    and "\<And>a. 16777224 \<le> unat a \<Longrightarrow> unat a < 16777224 + 512 * unat (buddy_count m) \<Longrightarrow> m a = 0"
  shows "buddy_ok m" "used_pages m = {}"
    "i < unat (buddy_count m) \<Longrightarrow> h < 4096 \<Longrightarrow> \<not> bits m (tree_at i) h"
proof -
  have zero: "\<not> bits m (tree_at i) h" if i: "i < unat (buddy_count m)" and h: "h < 4096" for i h
  proof -
    have "bits m (tree_at i) h = bits (\<lambda>_. 0) (tree_at i) h"
    proof (rule bits_cong [OF h])
      fix a assume "a \<in> tree_range (tree_at i)"
      then have "16777224 + 512 * i \<le> unat a \<and> unat a < 16777224 + 512 * i + 512"
        using i assms(1) by (intro tree_range_unat) auto
      then show "m a = 0" using i by (intro assms(2)) auto
    qed
    then show ?thesis by (simp add: bits_zero)
  qed
  then show "i < unat (buddy_count m) \<Longrightarrow> h < 4096 \<Longrightarrow> \<not> bits m (tree_at i) h" by blast
  show "buddy_ok m" using zero assms(1) by (auto simp: buddy_ok_def intro!: wf_bits_empty)
  show "used_pages m = {}" using zero by (auto simp: used_pages_def live_def)
qed

text \<open>The first request on a fresh system gets the first pages.\<close>

lemma first_block:
  assumes lz: "is_bsr lz" and c: "0 < unat (buddy_count m)" "unat (buddy_count m) < 510"
    and z: "\<And>a. 16777224 \<le> unat a \<Longrightarrow> unat a < 16777224 + 512 * unat (buddy_count m) \<Longrightarrow> m a = 0"
    and sz: "2048 < unat sz" "unat sz \<le> 8388608"
  shows "\<exists>m'. buddy_alloc lz m sz = Ret (m', DYNAMIC_MEMORY_BASE) \<and> buddy_ok m' \<and>
    buddy_count m' = buddy_count m \<and> used_pages m' = {0..<block_pages (unat sz)} \<and>
    (\<forall>x. outside_trees m x \<longrightarrow> m' x = m x)"
proof -
  define d where "d = 23 - high_bit (unat sz - 1)"
  note ba = buddy_alloc_depth_of [OF lz sz, folded d_def]
  note fs = fresh_system [OF c(2) z]
  have lim: "below_limit 1 (d - 1)" using level_limit [OF ba(3)] by (simp add: below_limit_def)
  obtain p where p: "search (bits m (tree_at 0)) (d - 1) 1 = Some p" "last p = 2 ^ (d - 1)"
    using search_empty [OF _ lim, of "bits m (tree_at 0)"] fs(3) c(1) by auto
  have some: "search (bits m (tree_at 0)) (d - 1) 1 \<noteq> None" using p by simp
  from alloc_depth_loop_search [OF fs(1) ba(2,3), of 0] some c(1) p
  have a: "alloc_ok m (tree_at 0) d (mark (tree_at 0) p m) (2 ^ (d - 1))"
    and eq: "alloc_depth_loop (of_nat d) (of_nat 0) m = Ret (mark (tree_at 0) p m,
        TREE_BASE_ADDR (of_nat 0) + get_tree_node_addr (node_of (2 ^ (d - 1))) (of_nat d))"
    by (auto dest: spec [of _ 0] simp: gr0_conv_Suc)
  have lev: "2 ^ (d - 1) \<le> (2::nat) ^ (d - 1)" "(2::nat) ^ (d - 1) < 2 * 2 ^ (d - 1)" by simp_all
  have pg: "pages (2 ^ (d - 1)) = {0..<block_pages (unat sz)}"
    using pages_level [OF ba(2,3) lev] ba(4) by simp
  have addr: "get_tree_node_addr (node_of (2 ^ (d - 1))) (of_nat d) = 0"
    using node_address(1) [OF ba(2,3) lev] by (simp add: unat_eq_0 [symmetric])
  note sys = alloc_ok_system [OF fs(1) a c(1), unfolded pg fs(2)]
  have base: "TREE_BASE_ADDR (of_nat 0) = 0" by (simp add: TREE_BASE_ADDR_def)
  show ?thesis
    using sys(1,2) fs(2) alloc_ok_count [OF a] eq alloc_ok_outside [OF a c(1)]
    unfolding ba(1) buddy_alloc_depth_def addr base by simp
qed

lemma init_frame:
  assumes far: "unat x < 16777216 \<or> 16777216 + unat r \<le> unat x" and r: "c * 512 + 8 \<le> unat r" "unat r \<le> 8388608"
  shows "st32 (st32 (memset m DYNAMIC_MEMORY_BASE 0 r) DYNAMIC_MEMORY_BASE a) (DYNAMIC_MEMORY_BASE + 4) b x = m x"
proof -
  have base: "unat (0x1000000 :: u32) = 16777216" "unat (0x1000004 :: u32) = 16777220" by simp_all
  have "unat r \<le> unat (x - 0x1000000) \<and> 8 \<le> unat (x - 0x1000000) \<and> 4 \<le> unat (x - 0x1000004)"
    using far
  proof
    assume lt: "unat x < 16777216"
    have "unat (x - 0x1000000) = 4294967296 - (16777216 - unat x)" "unat (x - 0x1000004) = 4294967296 - (16777220 - unat x)"
      using lt by (simp_all add: unat_sub_if' base)
    then show ?thesis using r lt by linarith
  next
    assume ge: "16777216 + unat r \<le> unat x"
    then have "unat (x - 0x1000000) = unat x - 16777216" "unat (x - 0x1000004) = unat x - 16777220"
      using r by (simp_all add: unat_sub word_le_nat_alt base)
    then show ?thesis using ge r by linarith
  qed
  then show ?thesis by (simp add: st32_other memset_apply word_le_nat_alt word_less_nat_alt)
qed

lemma init_system_sound:
  assumes lz: "is_bsr lz" and sz: "0 < unat mem_size" "unat mem_size \<le> 4269801472"
  defines "c \<equiv> (unat mem_size + 8388607) div 8388608"
  defines "n \<equiv> block_pages ((c * 512 + 8 + 4095) div 4096 * 4096)"
  shows "\<exists>m'. init_buddy_system lz m mem_size = Ret m' \<and> buddy_ok m' \<and>
    unat (buddy_count m') = c \<and> used_pages m' = {0..<n} \<and>
    {16777216..<16777216 + 8 + 512 * c} \<subseteq> page_bytes (used_pages m') \<and>
    (\<forall>x. unat x \<notin> page_bytes (used_pages m') \<longrightarrow> m' x = m x)"
proof -
  have c: "0 < c" "c < 510" using sz by (auto simp: c_def)
  let ?cw = "get_buddy_count mem_size"
  have "unat (mem_size + of_nat 8388607) = unat mem_size + 8388607"
    using sz by (intro unat_add_of_nat) simp
  moreover have "unat (8388608 :: u32) = 8388608" by simp
  moreover have "?cw = (mem_size + of_nat 8388607) div 8388608" by (simp add: get_buddy_count_def add.commute)
  ultimately have cw: "unat ?cw = c" by (simp only: unat_mod_div c_def)
  then have cwn: "?cw = of_nat c" by (rule unat_eqD)
  let ?r = "ALIGN (?cw * 512 + 8) (kb 4)"
  have "?cw * 512 + 8 = of_nat (c * 512 + 8)" by (simp add: cwn)
  then have "unat (?cw * 512 + 8) = c * 512 + 8"
    using c by (simp only: unat_of_nat) simp
  then have r: "unat ?r = (c * 512 + 8 + 4095) div 4096 * 4096"
    using c by (subst unat_ALIGN_4k) auto
  have rb: "c * 512 + 8 \<le> unat ?r" "unat ?r \<le> 8388608" "2048 < unat ?r"
  proof -
    have "1 \<le> (c * 512 + 8 + 4095) div 4096"
      using div_le_mono [of 4096 "c * 512 + 8 + 4095" 4096] by simp
    then show "c * 512 + 8 \<le> unat ?r" "unat ?r \<le> 8388608" "2048 < unat ?r"
      unfolding r using c by linarith+
  qed
  let ?m1 = "memset m DYNAMIC_MEMORY_BASE 0 ?r"
  let ?m3 = "st32 (st32 ?m1 DYNAMIC_MEMORY_BASE ?cw) (DYNAMIC_MEMORY_BASE + 4) mem_size"
  have count: "buddy_count ?m3 = ?cw"
    unfolding buddy_count_def by (subst ld32_st32_other) simp_all
  have zero: "?m3 a = 0" if a: "16777224 \<le> unat a" "unat a < 16777224 + 512 * unat (buddy_count ?m3)" for a
  proof -
    have ua: "unat (a - 0x1000000) = unat a - 16777216" "unat (a - 0x1000004) = unat a - 16777220"
      using a by (simp_all add: unat_sub word_le_nat_alt)
    have "4 \<le> a - 0x1000000" "4 \<le> a - 0x1000004" using ua a by (simp_all add: word_le_nat_alt)
    moreover have "a - 0x1000000 < ?r" using ua a rb(1) unfolding count cw by (simp add: word_less_nat_alt)
    ultimately show ?thesis by (simp add: st32_other memset_apply)
  qed
  have cm: "0 < unat (buddy_count ?m3)" "unat (buddy_count ?m3) < 510" using c unfolding count cw by auto
  from first_block [OF lz cm zero rb(3,2)] obtain m' where m':
    "buddy_alloc lz ?m3 ?r = Ret (m', DYNAMIC_MEMORY_BASE)" "buddy_ok m'"
    "buddy_count m' = buddy_count ?m3" "used_pages m' = {0..<block_pages (unat ?r)}"
    "\<forall>x. outside_trees ?m3 x \<longrightarrow> m' x = ?m3 x" by blast
  have "{16777216..<16777216 + 8 + 512 * c} \<subseteq> block_bytes 0x1000000 ?r"
    using rb(1) by (auto simp: block_bytes_def)
  also have "\<dots> \<subseteq> page_bytes {0..<0 + block_pages (unat ?r)}"
    using block_pages_fits [OF rb(3,2)] by (intro block_in_pages) (simp_all add: page_addr_def)
  finally have meta: "{16777216..<16777216 + 8 + 512 * c} \<subseteq> page_bytes {0..<block_pages (unat ?r)}"
    by simp
  have cover: "{16777216..<16777216 + unat ?r} \<subseteq> page_bytes {0..<0 + block_pages (unat ?r)}"
    using block_pages_fits [OF rb(3,2)] block_in_pages [of "0x1000000" 0 ?r "block_pages (unat ?r)"]
    by (simp add: page_addr_def block_bytes_def)
  have frame: "m' x = m x" if x: "unat x \<notin> page_bytes {0..<block_pages (unat ?r)}" for x
  proof -
    have far: "unat x < 16777216 \<or> 16777216 + unat ?r \<le> unat x"
    proof (rule ccontr)
      assume "\<not> ?thesis"
      then have "unat x \<in> {16777216..<16777216 + unat ?r}" by (auto simp only: de_Morgan_disj not_less not_le atLeastLessThan_iff)
      then show False using x subsetD [OF cover [unfolded add_0]] by blast
    qed
    then have "outside_trees ?m3 x" using rb(1) unfolding outside_trees_def count cw by linarith
    moreover have "?m3 x = m x" by (rule init_frame [OF far rb(1,2)])
    ultimately show ?thesis using m'(5) by metis
  qed
  have "init_buddy_system lz m mem_size = run_bind (buddy_alloc lz ?m3 ?r) (\<lambda>(m4, _). Ret m4)"
    by (simp only: init_buddy_system_def Let_def)
  then have "init_buddy_system lz m mem_size = Ret m'" unfolding m'(1) by simp
  moreover have "unat (buddy_count m') = c" by (simp only: m'(3) count cw)
  ultimately show ?thesis using m'(2,4) meta frame unfolding n_def r [symmetric] by metis
qed

lemma block_pages_12k: "block_pages 12288 = 4"
proof -
  have "high_bit 12287 = 13" by (rule high_bit_unique) simp_all
  then show ?thesis by (simp add: block_pages_def)
qed

text \<open>
  C3: init_buddy_system, for a memory of at most 509 trees, builds a well-formed allocator over
  as many trees as the memory needs, in which exactly the first pages are in use, as many as a block
  for the allocator's own header and bit trees takes; they hold these, so no later block overlaps them,
  and the memory outside these pages is as it was.
\<close>
theorem init_buddy_system_correct:
  assumes lz: "is_bsr lz" and sz: "0 < unat mem_size" "unat mem_size \<le> 4269801472"
  defines "c \<equiv> (unat mem_size + 8388607) div 8388608"
  shows "\<exists>m'. init_buddy_system lz m mem_size = Ret m' \<and> buddy_ok m' \<and> unat (buddy_count m') = c \<and>
    used_pages m' = {0..<block_pages ((c * 512 + 8 + 4095) div 4096 * 4096)} \<and>
    {16777216..<16777216 + 8 + 512 * c} \<subseteq> page_bytes (used_pages m') \<and>
    (\<forall>x. unat x \<notin> page_bytes (used_pages m') \<longrightarrow> m' x = m x)"
  unfolding c_def by (rule init_system_sound [OF lz sz])

theorem init_buddy_system_correct_witness:
  "\<exists>m. init_buddy_system bsr (\<lambda>_. 0) 0x8000000 = Ret m \<and> buddy_ok m \<and>
     unat (buddy_count m) = 16 \<and> used_pages m = {0..<4}"
  using init_buddy_system_correct [OF is_bsr_bsr, of "0x8000000" "\<lambda>_. 0"] block_pages_12k by auto

section \<open>Witnesses\<close>

text \<open>A system of 16 empty trees.\<close>

definition empty_system :: mem where
  "empty_system = st32 (\<lambda>_. 0) 0x1000000 16"

lemma empty_system:
  "buddy_count empty_system = 16" "buddy_ok empty_system" "used_pages empty_system = {}"
  "h < 4096 \<Longrightarrow> \<not> bits empty_system (tree_at 0) h" "16777224 \<le> unat a \<Longrightarrow> empty_system a = 0"
proof -
  show count: "buddy_count empty_system = 16" by (simp add: buddy_count_def empty_system_def)
  show zero: "empty_system a = 0" if "16777224 \<le> unat a" for a
  proof -
    have "unat (a - 0x1000000) = unat a - 16777216" using that by (simp add: unat_sub word_le_nat_alt)
    then have "4 \<le> a - 0x1000000" using that by (simp add: word_le_nat_alt)
    then show ?thesis by (simp add: empty_system_def st32_other)
  qed
  show "buddy_ok empty_system" "used_pages empty_system = {}"
      "h < 4096 \<Longrightarrow> \<not> bits empty_system (tree_at 0) h"
    using fresh_system [of empty_system] zero by (simp_all add: count)
qed

lemma block_pages_page: "block_pages 4096 = 1"
proof -
  have "high_bit 4095 = 11" by (rule high_bit_unique) simp_all
  then show ?thesis by (simp add: block_pages_def)
qed

theorem kballoc_correct_witness:
  "\<exists>m a. kballoc bsr empty_system 4096 = Ret (m, a) \<and> allocated empty_system m a 1"
  using kballoc_correct [OF is_bsr_bsr empty_system(2), of 4096] empty_system block_pages_page
  by auto

lemma kalloc_kballoc: "kalloc lz m 1 = kballoc lz m 4096"
  by (simp add: kalloc_def kballoc_def kb_def)

lemma kalloc_one:
  assumes "is_bsr lz" and "buddy_ok m" and "\<exists>p < 2048 * unat (buddy_count m). p \<notin> used_pages m"
  shows "\<exists>m' a. kalloc lz m 1 = Ret (m', a) \<and> allocated m m' a 1"
  unfolding kalloc_kballoc using kballoc_sound [OF assms(1,2), of 4096] assms(3) block_pages_page
  by (fastforce simp: Suc_le_eq)

lemma kballoc_page:
  assumes "buddy_ok m" and "\<exists>p < 2048 * unat (buddy_count m). p \<notin> used_pages m"
  shows "\<exists>m' a. kballoc bsr m 4096 = Ret (m', a) \<and> allocated m m' a 1"
  using kalloc_one [OF is_bsr_bsr assms] by (simp add: kalloc_kballoc)

lemma unat_numeral_pos: "0 < unat (16 :: u32)"
  by simp

lemma two_pages:
  "\<exists>m m' a b. kballoc bsr empty_system 4096 = Ret (m, a) \<and> kballoc bsr m 4096 = Ret (m', b)"
proof -
  obtain m a where m: "kballoc bsr empty_system 4096 = Ret (m, a)" "allocated empty_system m a 1"
    using kballoc_page [OF empty_system(2)] empty_system zero_less_numeral [where 'a = nat]
    by (metis empty_iff mult_pos_pos unat_numeral_pos)
  then obtain p where p: "used_pages m = {p}" "buddy_ok m" "buddy_count m = 16"
    by (auto simp: allocated_def empty_system)
  have "(if p = 0 then 1 else 0) \<notin> used_pages m" "(if p = 0 then 1 else 0) < 2048 * unat (16 :: u32)"
    using p by auto
  then obtain m' b where "kballoc bsr m 4096 = Ret (m', b)"
    using kballoc_page [OF p(2)] p(3) by metis
  then show ?thesis using m by blast
qed

theorem kballoc_blocks_disjoint_witness:
  "\<exists>m a b. alloc_seq (\<lambda>sz m. kballoc bsr m sz) [4096, 4096] empty_system = Ret (m, [a, b]) \<and>
    block_bytes a 4096 \<inter> block_bytes b 4096 = {}"
proof -
  obtain m m' a b where "kballoc bsr empty_system 4096 = Ret (m, a)" "kballoc bsr m 4096 = Ret (m', b)"
    using two_pages by blast
  then have s: "alloc_seq (\<lambda>sz m. kballoc bsr m sz) [4096, 4096] empty_system = Ret (m', [a, b])"
    by simp
  have "\<forall>sz \<in> set [4096, 4096]. buddy_request sz" by (simp add: buddy_request_def)
  from kballoc_blocks_disjoint [OF is_bsr_bsr empty_system(2) this s, of 0 1] s show ?thesis by auto
qed

section \<open>kfree\<close>

text \<open>
  buddy_tree_free_addr subtracts the offset of the tree from the address but not
  DYNAMIC_MEMORY_BASE, so its walk to the root starts at node 4096 + j for page j of the tree,
  outside the 4095 nodes; the leaf of page j is node 2047 + j.
\<close>

lemma sdiv32_small:
  assumes "a < 2 ^ 31" and "b < 2 ^ 31"
  shows "sdiv32 (of_nat a) (of_nat b) = of_nat (a div b)"
proof -
  have s: "sint (of_nat n :: u32) = int n" if "n < 2 ^ 31" for n
    using that by (simp add: signed_of_nat signed_take_bit_int_eq_self)
  have "sgn (int a) * sgn (int b) * (\<bar>int a\<bar> div \<bar>int b\<bar>) = int (a div b)"
    by (cases "a = 0"; cases "b = 0") (auto simp: zdiv_int sgn_if)
  then show ?thesis
    unfolding sdiv32_def s [OF assms(1)] s [OF assms(2)] by simp
qed

lemma free_start_node_value:
  assumes "i < 256" and "j < 2048"
  shows "TREE_ID_FROM_ADDR (of_nat (page_addr (2048 * i + j))) = of_nat i"
    and "free_start_node (of_nat (page_addr (2048 * i + j))) = of_nat (4096 + j)"
proof -
  let ?a = "of_nat (page_addr (2048 * i + j)) :: addr"
  have rel: "?a - DYNAMIC_MEMORY_BASE = of_nat (8388608 * i + 4096 * j)"
    by (simp add: page_addr_def)
  have "sdiv32 (of_nat (8388608 * i + 4096 * j)) (of_nat 8388608) =
      of_nat ((8388608 * i + 4096 * j) div 8388608)"
    using assms by (intro sdiv32_small) simp_all
  also have "(8388608 * i + 4096 * j) div 8388608 = i" using assms by simp
  finally show id: "TREE_ID_FROM_ADDR ?a = of_nat i"
    unfolding TREE_ID_FROM_ADDR_def rel by simp
  have rel2: "?a - TREE_BASE_ADDR (of_nat i) = of_nat (16777216 + 4096 * j)"
    by (simp add: page_addr_def TREE_BASE_ADDR_def)
  have "sdiv32 (of_nat (16777216 + 4096 * j)) (of_nat 4096) = of_nat ((16777216 + 4096 * j) div 4096)"
    using assms by (intro sdiv32_small) simp_all
  also have "(16777216 + 4096 * j) div 4096 = 4096 + j" by simp
  finally show "free_start_node ?a = of_nat (4096 + j)"
    unfolding free_start_node_def id Let_def rel2 GET_NODE_FROM_ADDR_def by simp
qed

lemma release_system:
  assumes ok: "buddy_ok m" and i: "i < unat (buddy_count m)" and g: "live (bits m (tree_at i)) g"
  defines "m' \<equiv> buddy_tree_unset_merge_nodes m (tree_at i) (node_of g)"
  shows "buddy_ok m'" "used_pages m' = used_pages m - (+) (2048 * i) ` pages g"
proof -
  have i510: "i < 510" and wf: "wf_bits (bits m (tree_at i))" using ok i by (simp_all add: buddy_ok_def)
  note rel = buddy_release_sound [OF wf g, folded m'_def]
  have count: "buddy_count m' = buddy_count m"
    by (rule buddy_count_cong) (use rel(3) header_not_in_tree [OF i510] in auto)
  have other: "bits m' (tree_at k) x = bits m (tree_at k) x"
    if "k < unat (buddy_count m)" "k \<noteq> i" "x < 4096" for k x
    using that rel(3) tree_ranges_disjoint [of k i] i510 ok
    by (intro bits_cong) (auto simp: buddy_ok_def)
  have "wf_bits (bits m' (tree_at k))" if "k < unat (buddy_count m)" for k
    using rel(1) wf_bits_cong [OF other [OF that]] ok that by (cases "k = i") (auto simp: buddy_ok_def)
  then show "buddy_ok m'" using ok count by (simp add: buddy_ok_def)
  have "p \<in> used_pages m' \<longleftrightarrow> p \<in> used_pages m \<and> p \<notin> (+) (2048 * i) ` pages g" for p
  proof -
    define k j where "k = p div 2048" and "j = p mod 2048"
    have p: "p = 2048 * k + j" "j < 2048" by (simp_all add: k_def j_def)
    have img: "p \<in> (+) (2048 * i) ` pages g \<longleftrightarrow> k = i \<and> j \<in> pages g"
      using p page_split by (fastforce simp: pages_def)
    show ?thesis
    proof (cases "k = i")
      case True
      have dis: "j \<notin> pages g" if "live (bits m (tree_at i)) h" "h \<noteq> g" "j \<in> pages h" for h
        using live_disjoint [OF wf that(1) g that(2)] that(3) by blast
      have "(\<exists>h. live (bits m' (tree_at i)) h \<and> j \<in> pages h) \<longleftrightarrow>
          (\<exists>h. live (bits m (tree_at i)) h \<and> j \<in> pages h) \<and> j \<notin> pages g"
        unfolding rel(2) using dis by auto
      then show ?thesis
        using img i count True unfolding p(1) used_page_iff [OF p(2)] by simp
    next
      case False
      then show ?thesis
        using img count live_cong [OF other [of k]] unfolding p(1) used_page_iff [OF p(2)] by auto
    qed
  qed
  then show "used_pages m' = used_pages m - (+) (2048 * i) ` pages g" by blast
qed

lemma unat_numeral_2: "unat (2 :: u32) = 2"
  by simp

lemma leaf_pages: "k < 2048 \<Longrightarrow> pages (2048 + k) = {k}"
  using pages_level [of 12 "2048 + k"] by auto

text \<open>
  C14: kfree of the only page of a block (page j of tree i, j at least 1) does not release this
  page but page (j + 1) div 2 of the tree: if that one is in use as a block of its own and the
  bit read outside the tree is clear, it alone leaves the used pages. For j at least 2 it is
  another page, which its owner still holds, and after this call page j is in use as it was before.
\<close>
theorem kfree_releases_page:
  assumes ok: "buddy_ok m" and i: "i < unat (buddy_count m)" "i < 256" and j: "0 < j" "j < 2048"
    and leaf: "live (bits m (tree_at i)) (2048 + (j + 1) div 2)"
    and beyond: "\<not> IS_SET m (tree_at i) (of_nat (4096 + j))"
  shows "\<exists>m'. kfree m (of_nat (page_addr (2048 * i + j))) = Ret m' \<and> buddy_ok m' \<and>
    used_pages m' = used_pages m - {2048 * i + (j + 1) div 2}"
proof -
  let ?a = "of_nat (page_addr (2048 * i + j)) :: addr"
  let ?t = "tree_at i" and ?g = "2048 + (j + 1) div 2"
  let ?m = "buddy_tree_unset_merge_nodes m ?t (node_of ?g)"
  have b: "page_addr (2048 * i + j) < 2 ^ 32" using i(2) j by (simp add: page_addr_def)
  then have ua: "unat ?a = page_addr (2048 * i + j)" by (simp only: unat_of_nat) simp
  have nz: "?a \<noteq> 0" using ua by (auto simp: page_addr_def)
  have al: "ALIGNED ?a (kb 4)"
    unfolding ALIGNED_4k ua by (simp add: page_addr_def dvd_add)
  have g: "2 \<le> ?g" "?g < 4096" using leaf by (auto simp: live_def)
  have u: "unat (of_nat (4096 + j) :: u32) = 4096 + j" using j by (simp only: unat_of_nat) simp
  have "unat (PARENT (of_nat (4096 + j))) = (4096 + j - 1) div 2"
    using unat_pred [of "of_nat (4096 + j) :: u32"] u
    unfolding PARENT_def unat_mod_div by (metis add_is_0 unat_0 unat_numeral_2 zero_neq_numeral)
  also have "\<dots> = unat (node_of ?g)" using g unat_node_of [of ?g] j by simp
  finally have "unat (PARENT (of_nat (4096 + j))) = unat (node_of ?g)" .
  then have par: "PARENT (of_nat (4096 + j)) = node_of ?g" by (simp add: word_unat_eq_iff)
  have set: "IS_SET m ?t (node_of ?g)" using IS_SET_bits [of ?g m ?t] g leaf by (simp add: live_def)
  have nz2: "(of_nat (4096 + j) :: u32) \<noteq> 0" "node_of ?g \<noteq> 0"
    using u node_of_zero [of ?g] g by auto
  have "free_addr_loop m ?t (of_nat (4096 + j)) = free_addr_loop m ?t (node_of ?g)"
    using nz2(1) beyond by (subst free_addr_loop.simps) (simp only: par if_False)
  also have "\<dots> = ?m"
    using nz2(2) set by (subst free_addr_loop.simps) simp
  finally have "free_addr_loop m ?t (of_nat (4096 + j)) = ?m" .
  then have free: "buddy_free m ?a = ?m"
    unfolding buddy_free_def buddy_tree_free_addr_def free_start_node_value [OF i(2) j(2)]
    by (simp only: tree_at_def)
  have "(+) (2048 * i) ` pages ?g = {2048 * i + (j + 1) div 2}"
    using leaf_pages [of "(j + 1) div 2"] g by simp
  with release_system [OF ok i(1) leaf] show ?thesis
    using nz al by (simp add: kfree_def free)
qed

text \<open>A tree in which pages 1 and 2 are blocks of their own.\<close>

definition two_leaves :: mem where
  "two_leaves = mark (tree_at 0) [1, 2, 4, 8, 16, 32, 64, 128, 256, 512, 1024, 1025, 2049, 2050] empty_system"

lemma two_leaves_bits:
  assumes "0 < h" and "h < 4096"
  shows "bits two_leaves (tree_at 0) h \<longleftrightarrow>
    h \<in> {1, 2, 4, 8, 16, 32, 64, 128, 256, 512, 1024, 1025, 2049, 2050}"
  unfolding two_leaves_def using assms empty_system(4) [OF assms(2)]
  by (subst bits_mark) auto

lemma two_leaves_frame: "a \<notin> tree_range (tree_at 0) \<Longrightarrow> two_leaves a = empty_system a"
  unfolding two_leaves_def by (rule mark_frame) auto

lemma two_leaves:
  "buddy_ok two_leaves" "buddy_count two_leaves = 16"
  "live (bits two_leaves (tree_at 0)) 2049" "live (bits two_leaves (tree_at 0)) 2050"
  "\<not> IS_SET two_leaves (tree_at 0) (of_nat (4096 + 2))"
proof -
  show c: "buddy_count two_leaves = 16"
    using buddy_count_cong [of two_leaves empty_system] two_leaves_frame header_not_in_tree [of 0]
      empty_system(1) by simp
  have "wf_bits (bits two_leaves (tree_at 0))"
    unfolding wf_bits_def by (auto simp: two_leaves_bits)
  moreover have "wf_bits (bits two_leaves (tree_at i))" if i: "i < 16" "i \<noteq> 0" for i
  proof -
    have "bits two_leaves (tree_at i) h = bits empty_system (tree_at i) h" if "h < 4096" for h
      using that tree_ranges_disjoint [of i 0] two_leaves_frame i by (intro bits_cong) auto
    moreover have "wf_bits (bits empty_system (tree_at i))"
      using empty_system(1,2) i by (simp add: buddy_ok_def)
    ultimately show ?thesis using wf_bits_cong by blast
  qed
  ultimately show "buddy_ok two_leaves" unfolding buddy_ok_def c by fastforce
  show "live (bits two_leaves (tree_at 0)) 2049" "live (bits two_leaves (tree_at 0)) 2050"
    by (simp_all add: live_def two_leaves_bits)
  have u: "unat (tree_at 0 + 512) = 16777736" by (simp add: tree_at_def buddy_array_def)
  have "two_leaves (tree_at 0 + 512) = 0"
    using two_leaves_frame [of "tree_at 0 + 512"] tree_range_unat [of 0 "tree_at 0 + 512"] u
      empty_system(5) [of "tree_at 0 + 512"] by force
  then show "\<not> IS_SET two_leaves (tree_at 0) (of_nat (4096 + 2))"
    by (simp add: IS_SET_def get_tree_node_def)
qed

text \<open>kfree of page 2 (0x1002000) releases page 1, and page 2 is still marked in use.\<close>

theorem kfree_releases_page_witness:
  "\<exists>m'. kfree two_leaves 0x1002000 = Ret m' \<and> 1 \<in> used_pages two_leaves \<and> 1 \<notin> used_pages m' \<and>
     2 \<in> used_pages m'"
proof -
  have used: "1 \<in> used_pages two_leaves" "2 \<in> used_pages two_leaves"
  proof -
    have "j < 2048 \<Longrightarrow> live (bits two_leaves (tree_at 0)) (2048 + j) \<Longrightarrow> j \<in> used_pages two_leaves" for j
      using used_page_iff [of j 0 two_leaves] leaf_pages [of j] two_leaves(2) by auto
    from this [of 1] this [of 2] show "1 \<in> used_pages two_leaves" "2 \<in> used_pages two_leaves"
      using two_leaves(3,4) by simp_all
  qed
  have "live (bits two_leaves (tree_at 0)) (2048 + (2 + 1) div 2)" using two_leaves(3) by simp
  from kfree_releases_page [OF two_leaves(1) _ _ _ _ this two_leaves(5)] used two_leaves(2)
  show ?thesis by (auto simp: page_addr_def)
qed

section \<open>On a CPU with lzcnt\<close>

text \<open>
  The instruction lzcnt counts leading zeros where the CPU has it; a CPU without it runs the same bytes
  as bsr, the position of the highest bit, which is what buddy_alloc is written for.
\<close>

definition is_lzcnt :: "(u32 \<Rightarrow> u32) \<Rightarrow> bool" where
  "is_lzcnt lz \<longleftrightarrow> (\<forall>x. x \<noteq> 0 \<longrightarrow> unat (lz x) \<le> 31 \<and> 2 ^ (31 - unat (lz x)) \<le> unat x \<and> unat x < 2 * 2 ^ (31 - unat (lz x)))"

lemma lzcnt_high_bit:
  assumes "is_lzcnt lz" and "x \<noteq> 0"
  shows "lz x = of_nat (31 - high_bit (unat x))"
proof -
  have b: "unat (lz x) \<le> 31" "2 ^ (31 - unat (lz x)) \<le> unat x" "unat x < 2 * 2 ^ (31 - unat (lz x))"
    using assms by (auto simp: is_lzcnt_def)
  have "high_bit (unat x) = 31 - unat (lz x)" by (rule high_bit_unique [OF b(2,3)])
  then have "unat (lz x) = 31 - high_bit (unat x)" using b(1) by simp
  then show ?thesis by (rule unat_eqD)
qed

text \<open>
  C4: on a CPU that has lzcnt the allocator hands out blocks that are too small. For a request of more than
  64 KB and at most 2 MB kballoc either finds every block of the size it looks for in use or returns a
  block of only 2 ^ (20 - h) pages, h being the highest bit of the request less one, which is less than
  what was asked for; what lies behind the block stays free and goes to other requests.
\<close>
theorem lzcnt_blocks_too_small:
  assumes lz: "is_lzcnt lz" and ok: "buddy_ok m" and sz: "65536 < unat sz" "unat sz \<le> 2097152"
  defines "n \<equiv> 2 ^ (20 - high_bit (unat sz - 1))"
  shows "4096 * n < unat sz \<and>
    (kballoc lz m sz = Trap Assert_fail \<and>
       (\<forall>p. n dvd p \<and> p + n \<le> 2048 * unat (buddy_count m) \<longrightarrow> {p..<p + n} \<inter> used_pages m \<noteq> {}) \<or>
     (\<exists>m' a. kballoc lz m sz = Ret (m', a) \<and> allocated m m' a n))"
proof -
  let ?h = "high_bit (unat sz - 1)"
  have nz: "sz \<noteq> 0" "sz - 1 \<noteq> 0" using sz by auto
  have un: "unat (sz - 1) = unat sz - 1" using nz(1) by (rule unat_pred)
  have b: "2 ^ ?h \<le> unat sz - 1" "unat sz - 1 < 2 * 2 ^ ?h" using high_bit_bounds [of "unat sz - 1"] sz(1) by auto
  have h: "16 \<le> ?h" "?h \<le> 20"
  proof -
    have "(2::nat) ^ 16 < 2 ^ Suc ?h" using b(2) sz(1) by simp
    then show "16 \<le> ?h" by (subst (asm) power_strict_increasing_iff) simp_all
    have "(2::nat) ^ ?h < 2 ^ 21" using b(1) sz(2) by simp
    then show "?h \<le> 20" by (subst (asm) power_strict_increasing_iff) simp_all
  qed
  define d where "d = ?h - 8"
  have d: "1 \<le> d" "d \<le> 12" using h by (auto simp: d_def)
  have lzk: "lz (sz - 1) = of_nat (31 - ?h)" using lzcnt_high_bit [OF lz nz(2)] un by simp
  have depth: "12 - ((of_nat (31 - ?h) :: u32) + 1 - 12) = of_nat d"
    using h by (simp add: d_def of_nat_diff)
  have "sint (of_nat d :: u32) = int d"
    using d by (simp add: signed_of_nat signed_take_bit_int_eq_self)
  then have pos: "0 < sint (of_nat d :: u32)" using d by simp
  have eq: "kballoc lz m sz = run_bind (buddy_alloc_depth m (of_nat d)) (\<lambda>(m', a). Ret (m', DYNAMIC_MEMORY_BASE + a))"
    unfolding kballoc_def buddy_alloc_def Let_def lzk depth using pos by simp
  have n: "2 ^ (12 - d) = n" using h by (simp add: d_def n_def)
  have "n \<le> 2 ^ 4" unfolding n_def using h(1) by (intro power_increasing) auto
  then have "4096 * n < unat sz" using sz(1) by simp
  then show ?thesis
    using alloc_depth_sound [OF ok d n eq] by blast
qed

theorem lzcnt_blocks_too_small_witness:
  "\<exists>m' a. kballoc (\<lambda>x. 31 - bsr x) empty_system 0x20000 = Ret (m', a) \<and> allocated empty_system m' a 16"
proof -
  have "unat (bsr x) \<le> 31 \<and> unat (31 - bsr x) = 31 - unat (bsr x)" if "x \<noteq> 0" for x
  proof -
    have "2 ^ unat (bsr x) \<le> unat x" using is_bsr_bsr that by (auto simp: is_bsr_def)
    also have "\<dots> < 2 ^ 32" using unsigned_less [of x] by simp
    finally have "unat (bsr x) < 32" by (subst (asm) power_strict_increasing_iff) simp_all
    then show ?thesis by (simp add: unat_sub word_le_nat_alt)
  qed
  then have lz: "is_lzcnt (\<lambda>x. 31 - bsr x)" using is_bsr_bsr by (simp add: is_lzcnt_def is_bsr_def)
  have hb: "high_bit 131071 = 16" by (rule high_bit_unique) simp_all
  have "unat (0x20000 :: u32) = 131072" by simp
  from lzcnt_blocks_too_small [OF lz empty_system(2), of "0x20000", unfolded this] show ?thesis
    using empty_system by (force simp: hb)
qed

end
