(* ===== verification/Hardware.thy ===== *)
theory Hardware
  imports Libc_Mem
begin

text \<open>
  The machine as the drivers see it. What a read of a port or of a device register yields is up
  to the device; it is the parameter hw of the drivers' models, a function of everything the
  kernel has done to the machine so far. What the kernel does is the trace: the port and register
  accesses of io.asm and of the volatile pointers, the instructions cli, sti, hlt, lidt, lgdt, mov cr3,
  and the messages it prints (format and integer arguments of a printk call; what printk does with
  them is the subject of the theory Terminal).
\<close>

datatype io_event =
    Inb u16 u8
  | Ins u16 u16
  | Inl u16 u32
  | Outb u16 u8
  | Outs u16 u16
  | Outl u16 u32
  | Mmio_read addr u32
  | Mmio_write addr u32
  | Mmio_write8 addr u8
  | Cli
  | Sti
  | Hlt
  | Lidt u32
  | Lgdt u32
  | Load_cr3 u32
  | Printk string "u32 list"

type_synonym trace = "io_event list"

record hw =
  port_in :: "trace \<Rightarrow> u16 \<Rightarrow> u32"
  mmio_in :: "trace \<Rightarrow> addr \<Rightarrow> u32"

definition inb :: "hw \<Rightarrow> u16 \<Rightarrow> trace \<Rightarrow> u8 \<times> trace" where
  "inb hw port t = (let v = ucast (port_in hw t port) in (v, t @ [Inb port v]))"

definition ins :: "hw \<Rightarrow> u16 \<Rightarrow> trace \<Rightarrow> u16 \<times> trace" where
  "ins hw port t = (let v = ucast (port_in hw t port) in (v, t @ [Ins port v]))"

definition inl :: "hw \<Rightarrow> u16 \<Rightarrow> trace \<Rightarrow> u32 \<times> trace" where
  "inl hw port t = (let v = port_in hw t port in (v, t @ [Inl port v]))"

definition mmio_read :: "hw \<Rightarrow> addr \<Rightarrow> trace \<Rightarrow> u32 \<times> trace" where
  "mmio_read hw a t = (let v = mmio_in hw t a in (v, t @ [Mmio_read a v]))"

text \<open>The part of a trace that reaches the devices: the messages are dropped.\<close>

definition device_trace :: "trace \<Rightarrow> trace" where
  "device_trace t = filter (\<lambda>e. case e of Printk _ _ \<Rightarrow> False | _ \<Rightarrow> True) t"

lemma device_trace_simps [simp]:
  "device_trace [] = []"
  "device_trace (Printk f as # t) = device_trace t"
  "device_trace (t @ u) = device_trace t @ device_trace u"
  by (simp_all add: device_trace_def)

text \<open>A quiet machine, whose ports and registers all read 0, for the examples.\<close>

definition quiet :: hw where
  "quiet = \<lparr>port_in = (\<lambda>_ _. 0), mmio_in = (\<lambda>_ _. 0)\<rparr>"

end
