(* ===== verification/Cpu.thy ===== *)
theory Cpu
  imports Hardware
begin

text \<open>
  The serial line of kernel/arch/x86/COM1.c and the wrappers of the instructions cpuid, rdmsr and
  wrmsr (cpuid.c, msr.c). The serial port is read back as a UART 16550 reads what is written to its
  ports, so that the theorems say which line the kernel sets up and what it sends.
\<close>

section \<open>The serial line\<close>

definition COM1 :: u16 where "COM1 = 0x3F8"

definition init_serial :: "trace \<Rightarrow> trace" where
  "init_serial t = t @ [Outb (COM1 + 1) 0x00, Outb (COM1 + 3) 0x80, Outb (COM1 + 0) 0x03, Outb (COM1 + 1) 0x00,
     Outb (COM1 + 3) 0x03, Outb (COM1 + 2) 0xC7, Outb (COM1 + 4) 0x0B]"

definition is_transmit_empty :: "hw \<Rightarrow> trace \<Rightarrow> i32 \<times> trace" where
  "is_transmit_empty hw t = (let (v, t1) = inb hw (COM1 + 5) t in (ucast v AND 0x20, t1))"

partial_function (option) write_serial :: "hw \<Rightarrow> u8 \<Rightarrow> trace \<Rightarrow> trace option" where
  "write_serial hw a t =
     (let (e, t1) = is_transmit_empty hw t
      in if e = 0 then write_serial hw a t1 else Some (t1 @ [Outb COM1 a]))"

primrec write_serials :: "hw \<Rightarrow> u8 list \<Rightarrow> trace \<Rightarrow> trace option" where
  "write_serials hw [] t = Some t"
| "write_serials hw (a # as) t = Option.bind (write_serial hw a t) (write_serials hw as)"

text \<open>
  The UART: while the divisor latch is open (bit 7 of the line control register), the first two ports
  are the two bytes of the divisor; otherwise they take a byte to send and the interrupt mask.
\<close>

record uart =
  u_dlab :: bool
  u_divisor :: u16
  u_line :: u8
  u_irqs :: u8
  u_fifo :: u8
  u_modem :: u8
  u_sent :: "u8 list"

definition uart_out :: "u16 \<Rightarrow> u8 \<Rightarrow> uart \<Rightarrow> uart" where
  "uart_out port v u =
     (if port = COM1 then
        if u_dlab u then u\<lparr>u_divisor := (u_divisor u AND 0xFF00) OR ucast v\<rparr> else u\<lparr>u_sent := u_sent u @ [v]\<rparr>
      else if port = COM1 + 1 then
        if u_dlab u then u\<lparr>u_divisor := (u_divisor u AND 0x00FF) OR push_bit 8 (ucast v)\<rparr> else u\<lparr>u_irqs := v\<rparr>
      else if port = COM1 + 2 then u\<lparr>u_fifo := v\<rparr>
      else if port = COM1 + 3 then u\<lparr>u_dlab := IS_BIT_SET v 0x80, u_line := v AND 0x7F\<rparr>
      else if port = COM1 + 4 then u\<lparr>u_modem := v\<rparr>
      else u)"

definition uart_step :: "io_event \<Rightarrow> uart \<Rightarrow> uart" where
  "uart_step e u = (case e of Outb port v \<Rightarrow> uart_out port v u | _ \<Rightarrow> u)"

definition uart_after :: "trace \<Rightarrow> uart \<Rightarrow> uart" where
  "uart_after t u = fold uart_step t u"

lemma uart_after_simps [simp]:
  "uart_after (t @ t') u = uart_after t' (uart_after t u)"
  "uart_after [] u = u" "uart_after (e # t) u = uart_after t (uart_step e u)"
  by (simp_all add: uart_after_def)

text \<open>The trace after n reads of the line status, and the promise that the line drains.\<close>

primrec polls :: "hw \<Rightarrow> nat \<Rightarrow> trace \<Rightarrow> trace" where
  "polls hw 0 t = t"
| "polls hw (Suc n) t = polls hw n (snd (inb hw (COM1 + 5) t))"

definition drains :: "hw \<Rightarrow> bool" where
  "drains hw \<longleftrightarrow> (\<forall>t. \<exists>n. fst (is_transmit_empty hw (polls hw n t)) \<noteq> 0)"

lemma transmit_poll: "snd (is_transmit_empty hw t) = snd (inb hw (COM1 + 5) t)"
  by (simp add: is_transmit_empty_def split: prod.splits)

lemma uart_poll [simp]: "uart_after (snd (inb hw p t)) u = uart_after t u"
  by (simp add: inb_def Let_def uart_step_def)

lemma write_serial_after_polls:
  "fst (is_transmit_empty hw (polls hw n t)) \<noteq> 0 \<Longrightarrow>
   \<exists>t'. write_serial hw a t = Some (t' @ [Outb COM1 a]) \<and> uart_after t' u = uart_after t u"
proof (induction n arbitrary: t)
  case 0
  have "uart_after (snd (is_transmit_empty hw t)) u = uart_after t u" unfolding transmit_poll by simp
  then show ?case using 0
    by (subst write_serial.simps) (auto simp: Let_def split: prod.splits)
next
  case (Suc n)
  let ?t1 = "snd (inb hw (COM1 + 5) t)"
  obtain t' where t': "write_serial hw a ?t1 = Some (t' @ [Outb COM1 a])" "uart_after t' u = uart_after ?t1 u"
    using Suc.IH [of ?t1] Suc.prems by auto
  show ?case
  proof (cases "fst (is_transmit_empty hw t) = 0")
    case True
    then show ?thesis using t' transmit_poll [of hw t]
      by (subst write_serial.simps) (auto simp: Let_def split: prod.splits)
  next
    case False
    have "uart_after (snd (is_transmit_empty hw t)) u = uart_after t u" unfolding transmit_poll by simp
    then show ?thesis using False
      by (subst write_serial.simps) (auto simp: Let_def split: prod.splits)
  qed
qed

definition serial_ready :: "uart \<Rightarrow> bool" where
  "serial_ready u \<longleftrightarrow> \<not> u_dlab u \<and> u_divisor u = 3 \<and> u_line u = 0x03 \<and> u_irqs u = 0 \<and> u_fifo u = 0xC7 \<and> u_modem u = 0x0B"

lemma low_byte: "(((w :: u16) AND 0xFF00) OR 3) AND 0x00FF = 3"
proof -
  have "(w AND 0xFF00) AND 0x00FF = 0" by (simp add: and.assoc)
  then show ?thesis by (simp add: and.commute bit.conj_disj_distrib)
qed

lemma init_serial_ready:
  assumes "\<not> u_dlab (uart_after t u)"
  shows "serial_ready (uart_after (init_serial t) u)" "u_sent (uart_after (init_serial t) u) = u_sent (uart_after t u)"
  using assms low_byte
  by (simp_all add: init_serial_def uart_step_def uart_out_def serial_ready_def COM1_def IS_BIT_SET_def Let_def)

lemma write_serials_sent:
  assumes "drains hw" and "serial_ready (uart_after t u)"
  shows "\<exists>t'. write_serials hw as t = Some t' \<and> serial_ready (uart_after t' u) \<and>
    u_sent (uart_after t' u) = u_sent (uart_after t u) @ as"
  using assms(2)
proof (induction as arbitrary: t)
  case (Cons a as)
  obtain n where "fst (is_transmit_empty hw (polls hw n t)) \<noteq> 0" using assms(1) by (auto simp: drains_def)
  from write_serial_after_polls [OF this, of a u] obtain t1 where t1:
    "write_serial hw a t = Some (t1 @ [Outb COM1 a])" "uart_after t1 u = uart_after t u" by blast
  have "serial_ready (uart_after (t1 @ [Outb COM1 a]) u)"
    "u_sent (uart_after (t1 @ [Outb COM1 a]) u) = u_sent (uart_after t u) @ [a]"
    using t1(2) Cons.prems by (auto simp: uart_step_def uart_out_def serial_ready_def)
  then show ?case using t1(1) Cons.IH [of "t1 @ [Outb COM1 a]"] by auto
qed simp

text \<open>
  C38: the kernel's serial line. Starting from a UART whose divisor latch is closed, init_serial sets
  up a line of 38400 baud (divisor 3) with 8 data bits, no parity and one stop bit and with the
  UART's interrupts masked; and as long as the line drains, write_serial returns for every byte
  and the UART sends the bytes of a text in order, each of them once and nothing else.
\<close>
theorem serial_line_sends:
  assumes "drains hw" and "\<not> u_dlab (uart_after t u)"
  shows "\<exists>t'. write_serials hw as (init_serial t) = Some t' \<and> serial_ready (uart_after t' u) \<and>
    u_sent (uart_after t' u) = u_sent (uart_after t u) @ as"
  using write_serials_sent [OF assms(1)] init_serial_ready [OF assms(2)] by metis

definition drained_hw :: hw where
  "drained_hw = quiet\<lparr>port_in := (\<lambda>_ _. 0x60)\<rparr>"

definition reset_uart :: uart where
  "reset_uart = \<lparr>u_dlab = False, u_divisor = 12, u_line = 0, u_irqs = 0, u_fifo = 0, u_modem = 0, u_sent = []\<rparr>"

lemma drained_hw_drains: "drains drained_hw"
  unfolding drains_def by (intro allI exI [of _ 0]) (simp add: is_transmit_empty_def inb_def drained_hw_def)

theorem serial_line_sends_witness:
  "\<exists>t'. write_serials drained_hw [71, 105] (init_serial []) = Some t' \<and> u_sent (uart_after t' reset_uart) = [71, 105] \<and>
     u_divisor (uart_after t' reset_uart) = 3"
  using serial_line_sends [OF drained_hw_drains, of "[]" reset_uart "[71, 105]"]
  by (auto simp: reset_uart_def serial_ready_def)

section \<open>cpuid\<close>

text \<open>
  What the CPU answers: eax, ebx, ecx and edx for a leaf of cpuid, and the contents of the model
  specific registers.
\<close>

record cpu =
  cpu_leaf :: "i32 \<Rightarrow> u32 \<times> u32 \<times> u32 \<times> u32"
  cpu_msr :: "u32 \<Rightarrow> u64"

definition CPUID_GET_VENDOR :: i32 where "CPUID_GET_VENDOR = 0"
definition CPUID_GET_FEATURES :: i32 where "CPUID_GET_FEATURES = 1"
definition CPUID_FEAT_EDX_MSR :: u32 where "CPUID_FEAT_EDX_MSR = push_bit 5 1"
definition CPUID_FEAT_EDX_CX8 :: u32 where "CPUID_FEAT_EDX_CX8 = push_bit 8 1"
definition CPUID_FEAT_EDX_APIC :: u32 where "CPUID_FEAT_EDX_APIC = push_bit 8 1"

definition cpuid :: "cpu \<Rightarrow> i32 \<Rightarrow> u32 \<times> u32 \<times> u32 \<times> u32" where
  "cpuid c code = cpu_leaf c code"

definition cpuid_string :: "cpu \<Rightarrow> i32 \<Rightarrow> addr \<Rightarrow> mem \<Rightarrow> mem" where
  "cpuid_string c code buffer m =
     (let (eax, ebx, ecx, edx) = cpu_leaf c code
      in st32 (st32 (st32 (st32 m buffer eax) (buffer + 4) ebx) (buffer + 12) ecx) (buffer + 8) edx)"

definition le_bytes :: "u32 \<Rightarrow> u8 list" where
  "le_bytes v = [ucast v, ucast (drop_bit 8 v), ucast (drop_bit 16 v), ucast (drop_bit 24 v)]"

text \<open>
  C0: the vendor string. When the last byte of kmain's buffer of 17 bytes has been cleared, cpuid_string
  leaves behind buffer + 4 the twelve bytes of ebx, edx and ecx in this order, which is the order the
  CPU spells its vendor in, followed by the terminator, and it changes nothing outside the first 16 bytes.
\<close>
theorem cpuid_string_vendor:
  assumes "cpuid c code = (eax, ebx, ecx, edx)"
  shows "map (\<lambda>i. cpuid_string c code buffer (m(buffer + 16 := 0)) (buffer + of_nat i)) [4..<17] =
      le_bytes ebx @ le_bytes edx @ le_bytes ecx @ [0] \<and>
    (\<forall>a. 16 < a - buffer \<longrightarrow> cpuid_string c code buffer (m(buffer + 16 := 0)) a = m a)"
proof -
  have up: "[4..<17] = [4, 5, 6, 7, 8, 9, 10, 11, 12, 13, 14, 15, 16]" by (simp add: upt_rec)
  have far: "a \<noteq> buffer + 16 \<and> (\<forall>k \<in> {0, 4, 8, 12}. 4 \<le> a - (buffer + k))" if "16 < a - buffer" for a
  proof -
    have "4 \<le> (a - buffer) - k" if "k \<le> 12" for k :: u32
      using that \<open>16 < a - buffer\<close> by unat_arith
    from this [of 0] this [of 4] this [of 8] this [of 12] show ?thesis using that by (auto simp: diff_diff_eq)
  qed
  have "cpuid_string c code buffer (m(buffer + 16 := 0)) a = m a" if "16 < a - buffer" for a
    using far [OF that] assms by (simp add: cpuid_string_def cpuid_def st32_other)
  then show ?thesis
    using assms by (auto simp: up cpuid_string_def cpuid_def le_bytes_def st32_apply)
qed

definition intel :: cpu where
  "intel = \<lparr>cpu_leaf = (\<lambda>_. (1, 0x756E6547, 0x6C65746E, 0x49656E69)), cpu_msr = (\<lambda>_. 0)\<rparr>"

theorem cpuid_string_vendor_witness:
  "map (\<lambda>i. cpuid_string intel CPUID_GET_VENDOR 0x1000 ((\<lambda>_. 7)(0x1000 + 16 := 0)) (0x1000 + of_nat i)) [4..<17] =
     map (of_nat \<circ> of_char) ''GenuineIntel'' @ [0]"
proof -
  have "cpuid intel CPUID_GET_VENDOR = (1, 0x756E6547, 0x6C65746E, 0x49656E69)" by (simp add: cpuid_def intel_def)
  from cpuid_string_vendor [OF this, where m = "\<lambda>_. 7" and buffer = "0x1000"] show ?thesis
    by (simp add: le_bytes_def)
qed

section \<open>Model specific registers\<close>

definition cpu_has_msr :: "cpu \<Rightarrow> i32" where
  "cpu_has_msr c = (let (a, b, c', d) = cpuid c CPUID_GET_FEATURES in d AND CPUID_FEAT_EDX_MSR)"

text \<open>rdmsr reads edx:eax; lo is eax, hi is edx.\<close>

definition cpu_get_msr :: "cpu \<Rightarrow> u32 \<Rightarrow> u32 \<times> u32" where
  "cpu_get_msr c msr = (ucast (cpu_msr c msr), ucast (drop_bit 32 (cpu_msr c msr)))"

text \<open>The words of res in memory: lo goes to the second, hi to the first one.\<close>

definition cpu_get_msr_u64 :: "cpu \<Rightarrow> u32 \<Rightarrow> u64" where
  "cpu_get_msr_u64 c msr = (let (lo, hi) = cpu_get_msr c msr in push_bit 32 (ucast lo) OR ucast hi)"

text \<open>
  wrmsr writes edx:eax. The code puts hi into ebx; edx is what the compiler has left there, a
  parameter.
\<close>

definition cpu_set_msr :: "u32 \<Rightarrow> u32 \<Rightarrow> u32 \<Rightarrow> u32 \<Rightarrow> cpu \<Rightarrow> cpu" where
  "cpu_set_msr edx msr lo hi c = c\<lparr>cpu_msr := (cpu_msr c)(msr := push_bit 32 (ucast edx) OR ucast lo)\<rparr>"

definition dword_pair :: "u32 \<Rightarrow> u32 \<Rightarrow> u64" where
  "dword_pair h l = push_bit 32 (ucast h) OR ucast l"

lemma dword_pair_halves [simp]:
  "ucast (dword_pair h l) = l" "ucast (drop_bit 32 (dword_pair h l)) = h"
  by (rule bit_word_eqI; auto simp: dword_pair_def bit_simps dest: bit_imp_le_length)+

lemma dword_pair_split: "dword_pair (ucast (drop_bit 32 v)) (ucast v) = v"
  by (rule bit_word_eqI) (auto simp: dword_pair_def bit_simps dest: bit_imp_le_length)

lemma dword_pair_inject: "dword_pair h l = dword_pair h' l' \<longleftrightarrow> h = h' \<and> l = l'"
  by (metis dword_pair_halves)

text \<open>
  C0: the msr wrappers do not fit together. After cpu_set_msr (lo, hi) the register holds lo and, in its
  upper half, whatever was in edx, so hi is lost; cpu_get_msr reads the two halves back in their order,
  and cpu_get_msr_u64 swaps them, so that it reads back a value only if its halves are equal.
\<close>
theorem msr_roundtrip_fails:
  "cpu_get_msr (cpu_set_msr edx msr lo hi c) msr = (lo, edx) \<and>
   cpu_get_msr_u64 (cpu_set_msr edx msr lo hi c) msr = dword_pair lo edx \<and>
   (cpu_get_msr_u64 c msr = cpu_msr c msr \<longleftrightarrow> fst (cpu_get_msr c msr) = snd (cpu_get_msr c msr))"
proof -
  define v where "v = cpu_msr c msr"
  have "(dword_pair (ucast v) (ucast (drop_bit 32 v)) = v) \<longleftrightarrow> ucast v = (ucast (drop_bit 32 v) :: u32)"
    by (metis dword_pair_split dword_pair_inject)
  then show ?thesis
    by (simp add: cpu_get_msr_def cpu_get_msr_u64_def cpu_set_msr_def v_def flip: dword_pair_def)
qed

end
