(* ===== verification/Terminal.thy ===== *)
theory Terminal
  imports Libc_String Libc_List Buddy_System Cpu
begin

text \<open>
  The text terminal of kernel/arch/x86/framebuffer.c: the cursor, the 80 by 25 screen, the
  history of screens scrolled away and printk.

  The kernel has one terminal, which terminal_init makes the current one; is_current says
  whether that has happened. A screen cell is an i16; the screen is indexed by the u32 the code
  indexes it with, so an index outside the 2000 cells is a cell of its own. A history node is
  named by the address of its list node; its left and buffer fields are maps of that address
  (a page from kalloc holds one node).

  The terminal drives two devices, the CRT controller and the serial line: what it does to their
  ports is the trace ctrace. What the serial line answers is a function hw of that trace, as for the
  other drivers; a character is written when the line is ready for it, and while it is not,
  terminal_put_char waits.
\<close>

section \<open>State\<close>

datatype screen = Vga | History addr

record terminal_state =
  terminal_row :: i32
  terminal_column :: i32
  terminal_color :: u8
  terminal_flags :: u8
  terminal_buffer :: screen
  terminal_current_length :: u8
  cur :: addr
  head :: addr
  output_to_serial :: i32

record console =
  state :: terminal_state
  is_current :: bool
  vga_buffer :: "u32 \<Rightarrow> i16"
  cursor_char :: i32
  left :: "addr \<Rightarrow> i16"
  buffer :: "addr \<Rightarrow> u32 \<Rightarrow> i16"
  links :: dnodes
  ram :: mem
  ctrace :: trace

abbreviation VGA_WIDTH :: "'a::len word" where
  "VGA_WIDTH \<equiv> 80"

abbreviation VGA_HEIGHT :: "'a::len word" where
  "VGA_HEIGHT \<equiv> 25"

abbreviation VGA_LENGTH :: "'a::len word" where
  "VGA_LENGTH \<equiv> 2000"

abbreviation SEG_LIMIT_ENABLED :: u8 where
  "SEG_LIMIT_ENABLED \<equiv> 2"

abbreviation SEG_GET_LIMIT :: u8 where
  "SEG_GET_LIMIT \<equiv> 0xFC"

abbreviation TERM_DIRECTION_UP :: i32 where
  "TERM_DIRECTION_UP \<equiv> 0"

abbreviation TERM_DIRECTION_DOWN :: i32 where
  "TERM_DIRECTION_DOWN \<equiv> 1"

abbreviation TERM_DIRECTION_LEFT :: i32 where
  "TERM_DIRECTION_LEFT \<equiv> 2"

abbreviation TERM_DIRECTION_RIGHT :: i32 where
  "TERM_DIRECTION_RIGHT \<equiv> 3"

text \<open>A char argument of VGA_CHAR_COLOR is sign extended, an int one is truncated.\<close>

definition VGA_CHAR_COLOR :: "i16 \<Rightarrow> u8 \<Rightarrow> i16" where
  "VGA_CHAR_COLOR uc col = uc OR push_bit 8 (ucast col)"

definition VGA_COLOR :: "u8 \<Rightarrow> u8 \<Rightarrow> u8" where
  "VGA_COLOR bg fg = push_bit 4 bg OR fg"

definition CURSOR_CHAR :: "terminal_state \<Rightarrow> i16" where
  "CURSOR_CHAR s = VGA_CHAR_COLOR 219 (terminal_color s)"

section \<open>Cells\<close>

definition outb_fb :: "u16 \<Rightarrow> u8 \<Rightarrow> console \<Rightarrow> console" where
  "outb_fb port dat c = c\<lparr>ctrace := ctrace c @ [Outb port dat]\<rparr>"

definition vga_move_cursor :: "u32 \<Rightarrow> console \<Rightarrow> console" where
  "vga_move_cursor index c =
     outb_fb 0x3D5 (ucast (index AND 0x00FF)) (outb_fb 0x3D4 15
       (outb_fb 0x3D5 (ucast (drop_bit 8 index AND 0x00FF)) (outb_fb 0x3D4 14 c)))"

definition vga_set_char :: "u32 \<Rightarrow> i16 \<Rightarrow> console \<Rightarrow> console" where
  "vga_set_char index val c = c\<lparr>vga_buffer := (vga_buffer c)(index := val)\<rparr>"

definition vga_get_char :: "u32 \<Rightarrow> console \<Rightarrow> i16" where
  "vga_get_char index c = vga_buffer c index"

definition terminal_set_char :: "u32 \<Rightarrow> i16 \<Rightarrow> console \<Rightarrow> console" where
  "terminal_set_char index val c =
     (case terminal_buffer (state c) of
        Vga \<Rightarrow> vga_set_char index val c
      | History tbl \<Rightarrow> c\<lparr>buffer := (buffer c)(tbl := (buffer c tbl)(index := val))\<rparr>)"

definition terminal_clear_row :: "console \<Rightarrow> console" where
  "terminal_clear_row c =
     (let offset = terminal_row (state c) * VGA_WIDTH;
          val = VGA_CHAR_COLOR 0 (terminal_color (state c))
      in fold (\<lambda>i. terminal_set_char (offset + of_nat i) val) [0..<80] c)"

definition terminal_copy_buffer :: "i16 \<Rightarrow> addr \<Rightarrow> i16 \<Rightarrow> i16 \<Rightarrow> console \<Rightarrow> console" where
  "terminal_copy_buffer index tbl dst sz c =
     (let src = (case terminal_buffer (state c) of Vga \<Rightarrow> vga_buffer c | History t \<Rightarrow> buffer c t)
      in c\<lparr>buffer := (buffer c)(tbl := fold
            (\<lambda>k b. b(scast dst + of_nat k := src (scast index + of_nat k)))
            (rev [0..<nat (sint sz)]) (buffer c tbl))\<rparr>)"

definition upd_state :: "(terminal_state \<Rightarrow> terminal_state) \<Rightarrow> console \<Rightarrow> console" where
  "upd_state f c = c\<lparr>state := f (state c)\<rparr>"

section \<open>The cursor\<close>

text \<open>The switch of terminal_move_: the new row and column, and how many edges were crossed.\<close>

definition move_position :: "i32 \<Rightarrow> i32 \<Rightarrow> i32 \<Rightarrow> i32 \<times> i32 \<times> i32" where
  "move_position direction row col =
     (if direction = TERM_DIRECTION_UP then
        (let row = row - 1 in if sint row < 0 then (VGA_HEIGHT - 1, col, 1) else (row, col, 0))
      else if direction = TERM_DIRECTION_DOWN then
        (let row = row + 1 in if 25 \<le> sint row then (0, col, 1) else (row, col, 0))
      else if direction = TERM_DIRECTION_LEFT then
        (let col = col - 1 in
         if sint col < 0 then
           (let row = row - 1 in
            if sint row < 0 then (VGA_HEIGHT - 1, VGA_WIDTH - 1, 2) else (row, VGA_WIDTH - 1, 1))
         else (row, col, 0))
      else if direction = TERM_DIRECTION_RIGHT then
        (let col = col + 1 in
         if 80 \<le> sint col then
           (let row = row + 1 in if 25 \<le> sint row then (0, 0, 2) else (row, 0, 1))
         else (row, col, 0))
      else (row, col, 0))"

definition terminal_move_i :: "i32 \<Rightarrow> console \<Rightarrow> console \<times> i32" where
  "terminal_move_i direction c =
     (let last_row = (if is_current c then terminal_row (state c) else 0);
          last_column = (if is_current c then terminal_column (state c) else 0);
          (row, col, res) = move_position direction (terminal_row (state c)) (terminal_column (state c));
          c1 = upd_state (\<lambda>s. s\<lparr>terminal_row := row, terminal_column := col\<rparr>) c
      in (if is_current c \<and> terminal_buffer (state c1) = Vga
          then (let c2 = vga_set_char (last_row * VGA_WIDTH + last_column) (ucast (cursor_char c1)) c1;
                    index = row * VGA_WIDTH + col;
                    c3 = c2\<lparr>cursor_char := scast (vga_get_char index c2)\<rparr>
                in vga_set_char index (CURSOR_CHAR (state c3)) c3)
          else c1, res))"

definition terminal_move :: "i32 \<Rightarrow> console \<Rightarrow> console" where
  "terminal_move direction c = fst (terminal_move_i direction c)"

section \<open>History\<close>

text \<open>The node the current screen is saved to: reused, recycled at the limit, or fresh.\<close>

definition history_node :: "(u32 \<Rightarrow> u32) \<Rightarrow> console \<Rightarrow> (console \<times> addr) run" where
  "history_node lz c =
     (let s = state c; h = head s in
      if h \<noteq> NULL \<and> 0 < sint (left c h) then Ret (c, h)
      else if terminal_flags s AND SEG_LIMIT_ENABLED \<noteq> 0 \<and>
              terminal_flags s AND SEG_GET_LIMIT = terminal_current_length s then
        run_bind (dlist_get_tail (links c) h) (\<lambda>new_head.
          let l1 = (if nxt (links c) new_head \<noteq> NULL
                    then (links c)\<lparr>prv := (prv (links c))(nxt (links c) new_head := NULL)\<rparr>
                    else links c);
              (root, l2) = dlist_insert_head h l1 new_head
          in Ret (upd_state (\<lambda>s. s\<lparr>head := root\<rparr>)
                    (c\<lparr>links := l2, left := (left c)(new_head := VGA_LENGTH)\<rparr>), new_head))
      else
        run_bind (kalloc lz (ram c) 1) (\<lambda>(ram', page).
          let new_head = page + 4004; (root, l2) = dlist_insert_head h (links c) new_head
          in Ret (upd_state (\<lambda>s. s\<lparr>head := root\<rparr>)
                    (c\<lparr>ram := ram', links := l2, left := (left c)(new_head := VGA_LENGTH)\<rparr>), new_head)))"

definition terminal_save_state :: "(u32 \<Rightarrow> u32) \<Rightarrow> console \<Rightarrow> console run" where
  "terminal_save_state lz c =
     (let default_empty_char = VGA_CHAR_COLOR 0 (terminal_color (state c)) in
      run_bind (history_node lz c) (\<lambda>(c1, new_head).
        let c2 = (if terminal_buffer (state c1) = Vga then
              (let buffer_offset = 2000 - (scast (left c1 new_head) :: i32);
                   right_edge = terminal_row (state c1) * VGA_WIDTH + terminal_column (state c1);
                   left_edge = 2000 - (scast (left c1 new_head) :: i32);
                   len = right_edge - left_edge
               in if 0 < sint len
                  then (let c' = terminal_copy_buffer (ucast buffer_offset) new_head (ucast buffer_offset) (ucast len) c1
                        in c'\<lparr>left := (left c')(new_head := left c' new_head - ucast len)\<rparr>)
                  else c1)
            else upd_state (\<lambda>s. s\<lparr>terminal_buffer := History new_head\<rparr>) c1);
            c3 = fold (\<lambda>i. terminal_set_char (of_nat i) default_empty_char) [0..<2000] c2
        in Ret (upd_state (\<lambda>s. s\<lparr>head := new_head\<rparr>) c3)))"

text \<open>Copy the used cells of a history node to the screen; blank the rest where the code does.\<close>

definition show_node :: "addr \<Rightarrow> console \<Rightarrow> console" where
  "show_node tbl c =
     (let used = 2000 - left c tbl
      in fold (\<lambda>i. vga_set_char (of_nat i) (buffer c tbl (of_nat i))) [0..<nat (sint used)] c)"

definition blank_rest :: "addr \<Rightarrow> i16 \<Rightarrow> console \<Rightarrow> console" where
  "blank_rest tbl default_empty_char c =
     (let used = 2000 - left c tbl
      in fold (\<lambda>i. vga_set_char (of_int i) default_empty_char) [sint used..1999] c)"

definition terminal_load_head :: "console \<Rightarrow> console" where
  "terminal_load_head c =
     (if terminal_buffer (state c) \<noteq> Vga then
        (let h = head (state c); empty = VGA_CHAR_COLOR 0 (terminal_color (state c));
             c1 = blank_rest h empty (show_node h c)
         in upd_state (\<lambda>s. s\<lparr>cur := h, terminal_buffer := Vga\<rparr>) c1)
      else c)"

definition terminal_load_prev :: "(u32 \<Rightarrow> u32) \<Rightarrow> console \<Rightarrow> console run" where
  "terminal_load_prev lz c =
     (let cu = cur (state c); h = head (state c); prev = (if cu \<noteq> NULL then nxt (links c) cu else h) in
      if prev \<noteq> NULL then
        run_bind (if prev = h \<or> cu = h \<and> terminal_buffer (state c) = Vga
                  then run_bind (terminal_save_state lz c) (\<lambda>c.
                         Ret (upd_state (\<lambda>s. s\<lparr>terminal_buffer := History h\<rparr>) c))
                  else Ret c)
          (\<lambda>c. Ret (upd_state (\<lambda>s. s\<lparr>cur := prev\<rparr>) (show_node prev c)))
      else Ret c)"

definition terminal_load_next :: "console \<Rightarrow> console" where
  "terminal_load_next c =
     (let cu = cur (state c); next = (if cu \<noteq> NULL then prv (links c) cu else NULL) in
      if next \<noteq> NULL then
        (let empty = VGA_CHAR_COLOR 0 (terminal_color (state c));
             c1 = upd_state (\<lambda>s. s\<lparr>cur := next\<rparr>) (blank_rest next empty (show_node next c))
         in if next = head (state c1) then upd_state (\<lambda>s. s\<lparr>terminal_buffer := Vga\<rparr>) c1 else c1)
      else c)"

section \<open>Characters\<close>

definition hist_left :: "(i16 \<Rightarrow> i16) \<Rightarrow> console \<Rightarrow> console" where
  "hist_left f c =
     (if terminal_buffer (state c) \<noteq> Vga
      then c\<lparr>left := (left c)(head (state c) := f (left c (head (state c))))\<rparr> else c)"

definition terminal_advance_one :: "(u32 \<Rightarrow> u32) \<Rightarrow> console \<Rightarrow> (console \<times> u32) run" where
  "terminal_advance_one lz c =
     (let result = terminal_column (state c) + terminal_row (state c) * VGA_WIDTH;
          (c1, op) = terminal_move_i TERM_DIRECTION_RIGHT (hist_left (\<lambda>l. l - 1) c)
      in if op = 2 then
           run_bind (terminal_save_state lz c1) (\<lambda>c2. Ret (terminal_clear_row c2, result))
         else if op = 1 then Ret (terminal_clear_row c1, result)
         else Ret (c1, result))"

definition terminal_delete_one :: "console \<Rightarrow> console \<times> u32" where
  "terminal_delete_one c =
     (let default_empty_char = VGA_CHAR_COLOR 0 (terminal_color (state c));
          c1 = hist_left (\<lambda>l. l + 1) c;
          result = terminal_column (state c1) + terminal_row (state c1) * VGA_WIDTH - 1;
          c2 = terminal_set_char result default_empty_char c1
      in (fst (terminal_move_i TERM_DIRECTION_LEFT c2), result))"

text \<open>
  A new line prints the prompt with terminal_put_string, so terminal_put_char calls itself; the
  prompt has no new line, so two levels are enough (put_char_fuel).
\<close>

definition terminal_next_line :: "(u8 \<Rightarrow> console \<Rightarrow> console run) \<Rightarrow> (u32 \<Rightarrow> u32) \<Rightarrow> console \<Rightarrow> console run" where
  "terminal_next_line put lz c =
     (let c1 = (if terminal_buffer (state c) \<noteq> Vga
                then hist_left (\<lambda>l. l - (VGA_WIDTH - ucast (terminal_column (state c)))) c
                else vga_set_char (terminal_row (state c) * VGA_WIDTH + terminal_column (state c))
                       (ucast (cursor_char c)) c);
          c2 = upd_state (\<lambda>s. s\<lparr>terminal_column := 0, terminal_row := terminal_row s + 1\<rparr>) c1
      in run_bind (if 25 \<le> sint (terminal_row (state c2))
                   then run_bind (terminal_save_state lz c2) (\<lambda>c3.
                          Ret (upd_state (\<lambda>s. s\<lparr>terminal_row := 0\<rparr>) c3))
                   else Ret c2)
           (\<lambda>c4. run_bind (put 62 (terminal_clear_row c4)) (\<lambda>c5.
              run_bind (put 62 c5) (\<lambda>c6.
                let index = terminal_row (state c6) * VGA_WIDTH + terminal_column (state c6);
                    c7 = c6\<lparr>cursor_char := push_bit 8 (ucast (terminal_color (state c6)))\<rparr>
                in Ret (vga_set_char index
                     (VGA_CHAR_COLOR (CURSOR_CHAR (state c7)) (terminal_color (state c7))) c7)))))"

text \<open>The character on the serial line, when it is switched on: write_serial waits for the line.\<close>

definition serial_echo :: "hw \<Rightarrow> u8 \<Rightarrow> console \<Rightarrow> console run" where
  "serial_echo hw ch c =
     (if output_to_serial (state c) \<noteq> 0
      then run_bind (lift_run (write_serial hw ch (ctrace c))) (\<lambda>t. Ret (c\<lparr>ctrace := t\<rparr>)) else Ret c)"

primrec put_char_n :: "nat \<Rightarrow> hw \<Rightarrow> (u32 \<Rightarrow> u32) \<Rightarrow> u8 \<Rightarrow> console \<Rightarrow> console run" where
  "put_char_n 0 hw lz ch c = None"
| "put_char_n (Suc n) hw lz ch c =
     (let c1 = (if is_current c \<and> terminal_buffer (state c) \<noteq> Vga then terminal_load_head c else c)
      in run_bind (serial_echo hw ch c1) (\<lambda>c2.
           if ch = 8 then Ret (fst (terminal_delete_one c2))
           else if ch = 10 then terminal_next_line (put_char_n n hw lz) lz c2
           else run_bind (terminal_advance_one lz c2) (\<lambda>(c3, idx).
                  Ret (terminal_set_char idx (VGA_CHAR_COLOR (scast ch) (terminal_color (state c3))) c3))))"

definition terminal_put_char :: "hw \<Rightarrow> (u32 \<Rightarrow> u32) \<Rightarrow> u8 \<Rightarrow> console \<Rightarrow> console run" where
  "terminal_put_char hw lz ch c = put_char_n 2 hw lz ch c"

partial_function (option) terminal_put_string ::
    "hw \<Rightarrow> (u32 \<Rightarrow> u32) \<Rightarrow> mem \<Rightarrow> addr \<Rightarrow> console \<Rightarrow> console run" where
  "terminal_put_string hw lz m it c =
     (if m it \<noteq> 0
      then run_bind (terminal_put_char hw lz (m it) c) (\<lambda>c'. terminal_put_string hw lz m (it + 1) c')
      else Ret c)"

definition terminal_init :: "console \<Rightarrow> console" where
  "terminal_init c =
     (let default_empty_char = VGA_CHAR_COLOR 0 (terminal_color (state c));
          c1 = upd_state (\<lambda>s. s\<lparr>terminal_row := 0, terminal_column := 0, terminal_buffer := Vga,
                 terminal_color := VGA_COLOR 0 2, output_to_serial := 0, head := NULL, cur := NULL\<rparr>) c;
          c2 = vga_move_cursor (- 1) (c1\<lparr>is_current := True\<rparr>)
      in fold (\<lambda>i. terminal_set_char (of_nat i) default_empty_char) [0..<2000] c2)"

section \<open>printk\<close>

partial_function (option) get_width_loop :: "mem \<Rightarrow> addr \<Rightarrow> i32 \<Rightarrow> i32 option" where
  "get_width_loop m c res =
     (if 48 \<le> sint (m c) \<and> sint (m c) \<le> 57
      then get_width_loop m (c + 1) (res * 10 + (scast (m c) - 48)) else Some res)"

definition get_width :: "mem \<Rightarrow> addr \<Rightarrow> i32 option" where
  "get_width m str = get_width_loop m str 0"

partial_function (option) skip_width :: "mem \<Rightarrow> addr \<Rightarrow> u32 \<Rightarrow> (addr \<times> u32) option" where
  "skip_width m fmt run =
     (if 48 \<le> sint (m fmt) \<and> sint (m fmt) \<le> 57 then skip_width m (fmt + 1) (run + 1)
      else Some (fmt, run))"

partial_function (option) pad_loop :: "hw \<Rightarrow> (u32 \<Rightarrow> u32) \<Rightarrow> u8 \<Rightarrow> i32 \<Rightarrow> i32 \<Rightarrow> console \<Rightarrow> console run" where
  "pad_loop hw lz wchar width len c =
     (if sint len < sint width
      then run_bind (terminal_put_char hw lz wchar c) (\<lambda>c'. pad_loop hw lz wchar width (len + 1) c')
      else Ret c)"

text \<open>
  One numeric directive: conv is the conversion written to the local buffer at sp, up says that
  to_upper follows the padding, pre is what is printed before it.
\<close>

definition print_number ::
    "hw \<Rightarrow> (u32 \<Rightarrow> u32) \<Rightarrow> addr \<Rightarrow> (mem \<Rightarrow> (mem \<times> addr) run) \<Rightarrow> bool \<Rightarrow> u8 list \<Rightarrow> u8 \<Rightarrow> i32 \<Rightarrow> u32
       \<Rightarrow> mem \<Rightarrow> console \<Rightarrow> (mem \<times> console) run" where
  "print_number hw lz sp conv up pre wchar width run m c =
     run_bind (conv m) (\<lambda>(m1, _).
       run_bind (fold (\<lambda>ch r. run_bind r (terminal_put_char hw lz ch)) pre (Ret c)) (\<lambda>c1.
         run_bind (if run \<noteq> 0
                   then run_bind (lift_run (strlen m1 sp)) (\<lambda>len. pad_loop hw lz wchar width len c1)
                   else Ret c1) (\<lambda>c2.
           run_bind (if up then run_bind (lift_run (to_upper m1 sp)) (\<lambda>(m2, _). Ret m2) else Ret m1)
             (\<lambda>m2. run_bind (terminal_put_string hw lz m2 sp c2) (\<lambda>c3. Ret (m2, c3))))))"

text \<open>The arguments are the stack slots va_arg reads; reading past them is out of bounds.\<close>

definition va_arg :: "u32 list \<Rightarrow> (u32 \<times> u32 list) run" where
  "va_arg args = (case args of [] \<Rightarrow> Trap Out_of_bounds | a # rest \<Rightarrow> Ret (a, rest))"

definition printk_directive ::
    "hw \<Rightarrow> (u32 \<Rightarrow> u32) \<Rightarrow> addr \<Rightarrow> u8 \<Rightarrow> u8 \<Rightarrow> i32 \<Rightarrow> u32 \<Rightarrow> u32 list \<Rightarrow> mem \<Rightarrow> console
       \<Rightarrow> (u32 list \<times> mem \<times> console) run" where
  "printk_directive hw lz sp ch wchar width run args m c =
     (let num = (\<lambda>conv up pre. run_bind (va_arg args) (\<lambda>(val, args').
            run_bind (print_number hw lz sp (\<lambda>m. conv m val) up pre wchar width run m c)
              (\<lambda>(m', c'). Ret (args', m', c'))))
      in if ch = 100 \<or> ch = 105 then num (\<lambda>m v. itoa m v sp 10) False []
         else if ch = 117 then num (\<lambda>m v. uitoa m v sp 10) False []
         else if ch = 120 then num (\<lambda>m v. itoa m v sp 16) False []
         else if ch = 88 then num (\<lambda>m v. itoa m v sp 16) True []
         else if ch = 80 then num (\<lambda>m v. itoa m v sp 16) True [48, 88]
         else if ch = 112 then num (\<lambda>m v. itoa m v sp 16) False [48, 88]
         else if ch = 98 then num (\<lambda>m v. itoa m v sp 2) False []
         else if ch = 99 then
           run_bind (va_arg args) (\<lambda>(val, args').
             run_bind (terminal_put_char hw lz (ucast val) c) (\<lambda>c'. Ret (args', m, c')))
         else if ch = 115 then
           run_bind (va_arg args) (\<lambda>(str, args').
             run_bind (terminal_put_string hw lz m str c) (\<lambda>c'. Ret (args', m, c')))
         else if ch = 37 then
           run_bind (terminal_put_char hw lz 37 c) (\<lambda>c'. Ret (args, m, c'))
         else Ret (args, m, c))"

partial_function (option) printk_loop ::
    "hw \<Rightarrow> (u32 \<Rightarrow> u32) \<Rightarrow> addr \<Rightarrow> u8 \<Rightarrow> u32 list \<Rightarrow> addr \<Rightarrow> mem \<Rightarrow> console \<Rightarrow> (mem \<times> console) run" where
  "printk_loop hw lz sp wchar args fmt m c =
     (if m fmt = 0 then Ret (m, c)
      else if m fmt = 37 then
        run_bind (lift_run (skip_width m (fmt + 1) 0)) (\<lambda>(f, run).
          run_bind (lift_run (get_width m (fmt + 1))) (\<lambda>width.
            let w = (if 0 < sint width then (if m (fmt + 1) = 48 then 48 else 32) else wchar) in
            run_bind (printk_directive hw lz sp (m f) w width run args m c)
              (\<lambda>(args', m', c'). printk_loop hw lz sp w args' (f + 1) m' c')))
      else run_bind (terminal_put_char hw lz (m fmt) c)
             (\<lambda>c'. printk_loop hw lz sp wchar args (fmt + 1) m c'))"

definition printk ::
    "hw \<Rightarrow> (u32 \<Rightarrow> u32) \<Rightarrow> addr \<Rightarrow> mem \<Rightarrow> addr \<Rightarrow> u32 list \<Rightarrow> console \<Rightarrow> (mem \<times> console) run" where
  "printk hw lz sp m format args c = printk_loop hw lz sp 0 args format m c"

section \<open>The cursor stays on the screen\<close>

text \<open>The cursor as a pair of numbers.\<close>

definition cursor_at :: "console \<Rightarrow> nat \<Rightarrow> nat \<Rightarrow> bool" where
  "cursor_at c r k \<longleftrightarrow> r < 25 \<and> k < 80 \<and>
     terminal_row (state c) = of_nat r \<and> terminal_column (state c) = of_nat k"

definition on_screen :: "console \<Rightarrow> bool" where
  "on_screen c \<longleftrightarrow> unat (terminal_row (state c)) < 25 \<and> unat (terminal_column (state c)) < 80"

lemma on_screenI: "cursor_at c r k \<Longrightarrow> on_screen c"
  by (auto simp: cursor_at_def on_screen_def unat_of_nat)

lemma on_screenD: "on_screen c \<Longrightarrow> cursor_at c (unat (terminal_row (state c))) (unat (terminal_column (state c)))"
  by (simp add: cursor_at_def on_screen_def)

lemma sint_minus_one: "sint (- 1 :: u32) = - 1"
  by simp

lemma pos_pred: "0 < n \<Longrightarrow> (of_nat n :: u32) - 1 = of_nat (n - 1)"
  by (simp add: of_nat_diff)

lemma sint_succ: "n + 1 < 2 ^ 31 \<Longrightarrow> sint (of_nat n + 1 :: u32) = int n + 1"
  using sint_small [of "Suc n"] by (simp add: add.commute)

text \<open>The moves as arithmetic on positions.\<close>

lemma move_right:
  "r < 25 \<Longrightarrow> k < 80 \<Longrightarrow> move_position TERM_DIRECTION_RIGHT (of_nat r) (of_nat k) =
    (if k < 79 then (of_nat r, of_nat (k + 1), 0)
     else if r < 24 then (of_nat (r + 1), 0, 1) else (0, 0, 2))"
  unfolding move_position_def Let_def by (simp add: sint_succ)

lemma move_left:
  "r < 25 \<Longrightarrow> k < 80 \<Longrightarrow> move_position TERM_DIRECTION_LEFT (of_nat r) (of_nat k) =
    (if 0 < k then (of_nat r, of_nat (k - 1), 0)
     else if 0 < r then (of_nat (r - 1), of_nat 79, 1) else (of_nat 24, of_nat 79, 2))"
  unfolding move_position_def Let_def
  by (cases "0 < k"; cases "0 < r") (simp_all add: sint_small pos_pred sint_minus_one del: of_nat_diff)

lemma move_up:
  "r < 25 \<Longrightarrow> k < 80 \<Longrightarrow> move_position TERM_DIRECTION_UP (of_nat r) (of_nat k) =
    (if 0 < r then (of_nat (r - 1), of_nat k, 0) else (of_nat 24, of_nat k, 1))"
  unfolding move_position_def Let_def
  by (cases "0 < r") (simp_all add: sint_small pos_pred sint_minus_one del: of_nat_diff)

lemma move_down:
  "r < 25 \<Longrightarrow> k < 80 \<Longrightarrow> move_position TERM_DIRECTION_DOWN (of_nat r) (of_nat k) =
    (if r < 24 then (of_nat (r + 1), of_nat k, 0) else (0, of_nat k, 1))"
  unfolding move_position_def Let_def by (simp add: sint_succ)

definition position :: "nat \<Rightarrow> nat \<Rightarrow> nat" where
  "position r k = 80 * r + k"

definition moved :: "i32 \<Rightarrow> nat \<Rightarrow> nat \<Rightarrow> nat \<times> nat" where
  "moved d r k =
     (if d = TERM_DIRECTION_UP then ((r + 24) mod 25, k)
      else if d = TERM_DIRECTION_DOWN then ((r + 1) mod 25, k)
      else if d = TERM_DIRECTION_LEFT then
        (if 0 < k then (r, k - 1) else ((r + 24) mod 25, 79))
      else if d = TERM_DIRECTION_RIGHT then
        (if k < 79 then (r, k + 1) else ((r + 1) mod 25, 0))
      else (r, k))"

lemma moved_bounds: "r < 25 \<Longrightarrow> k < 80 \<Longrightarrow> fst (moved d r k) < 25 \<and> snd (moved d r k) < 80"
  by (auto simp: moved_def)

lemma move_position_moved:
  assumes "r < 25" and "k < 80"
  shows "\<exists>res. move_position d (of_nat r) (of_nat k) =
    (of_nat (fst (moved d r k)), of_nat (snd (moved d r k)), res)"
proof -
  have wrap: "(r + 24) mod 25 = (if 0 < r then r - 1 else 24)" "(r + 1) mod 25 = (if r < 24 then r + 1 else 0)"
    using assms(1) by (auto simp: mod_if)
  consider "d = 0" | "d = 1" | "d = 2" | "d = 3" | "d \<notin> {0, 1, 2, 3}" by auto
  then show ?thesis
  proof cases
    case 1
    then show ?thesis using move_up [OF assms] wrap by (auto simp: moved_def)
  next
    case 2
    then show ?thesis using move_down [OF assms] wrap by (auto simp: moved_def)
  next
    case 3
    then show ?thesis using move_left [OF assms] wrap by (auto simp: moved_def)
  next
    case 4
    then show ?thesis using move_right [OF assms] wrap by (auto simp: moved_def)
  next
    case 5
    then show ?thesis by (auto simp: moved_def move_position_def)
  qed
qed

lemma moved_left_right:
  "r < 25 \<Longrightarrow> k < 80 \<Longrightarrow>
    (let (r', k') = moved TERM_DIRECTION_RIGHT r k in moved TERM_DIRECTION_LEFT r' k') = (r, k)"
  by (auto simp: moved_def mod_if split: if_splits)

text \<open>What does not touch the terminal state: every write of a cell.\<close>

named_theorems keeps \<open>what a terminal operation leaves alone\<close>

lemma state_upd_state [simp, keeps]: "state (upd_state f c) = f (state c)"
  by (simp add: upd_state_def)

lemma upd_state_fields [simp, keeps]:
  "vga_buffer (upd_state f c) = vga_buffer c" "cursor_char (upd_state f c) = cursor_char c"
  "is_current (upd_state f c) = is_current c" "left (upd_state f c) = left c"
  "buffer (upd_state f c) = buffer c" "links (upd_state f c) = links c"
  by (simp_all add: upd_state_def)

lemma vga_set_char_fields [simp, keeps]:
  "state (vga_set_char i v c) = state c" "is_current (vga_set_char i v c) = is_current c"
  "vga_buffer (vga_set_char i v c) = (vga_buffer c)(i := v)"
  "cursor_char (vga_set_char i v c) = cursor_char c" "left (vga_set_char i v c) = left c"
  "buffer (vga_set_char i v c) = buffer c"
  by (simp_all add: vga_set_char_def)

lemma terminal_set_char_state [simp, keeps]:
  "state (terminal_set_char i v c) = state c" "is_current (terminal_set_char i v c) = is_current c"
  "cursor_char (terminal_set_char i v c) = cursor_char c"
  "left (terminal_set_char i v c) = left c"
  by (auto simp: terminal_set_char_def split: screen.splits)

lemma terminal_set_char_vga:
  "terminal_buffer (state c) = Vga \<Longrightarrow> terminal_set_char i v c = vga_set_char i v c"
  by (simp add: terminal_set_char_def)

lemma fold_state:
  "(\<And>x c. state (f x c) = state c) \<Longrightarrow> state (fold f xs c) = state c"
  by (induction xs arbitrary: c) auto

lemma fold_current:
  "(\<And>x c. is_current (f x c) = is_current c) \<Longrightarrow> is_current (fold f xs c) = is_current c"
  by (induction xs arbitrary: c) auto

lemma terminal_clear_row_state [simp, keeps]:
  "state (terminal_clear_row c) = state c" "is_current (terminal_clear_row c) = is_current c"
  by (simp_all add: terminal_clear_row_def Let_def fold_state fold_current)

lemma copy_buffer_state [simp, keeps]:
  "state (terminal_copy_buffer a t d n c) = state c"
  "is_current (terminal_copy_buffer a t d n c) = is_current c"
  by (simp_all add: terminal_copy_buffer_def Let_def)

lemma show_blank_state [simp, keeps]:
  "state (show_node t c) = state c" "is_current (show_node t c) = is_current c"
  "state (blank_rest t e c) = state c" "is_current (blank_rest t e c) = is_current c"
  by (simp_all add: show_node_def blank_rest_def Let_def fold_state fold_current)

lemma hist_left_state [simp, keeps]:
  "state (hist_left f c) = state c" "is_current (hist_left f c) = is_current c"
  "vga_buffer (hist_left f c) = vga_buffer c" "cursor_char (hist_left f c) = cursor_char c"
  by (simp_all add: hist_left_def)

lemma move_i_state:
  assumes "cursor_at c r k"
  shows "cursor_at (fst (terminal_move_i d c)) (fst (moved d r k)) (snd (moved d r k))"
    "terminal_buffer (state (fst (terminal_move_i d c))) = terminal_buffer (state c)"
    "is_current (fst (terminal_move_i d c)) = is_current c"
proof -
  have rk: "r < 25" "k < 80" using assms by (simp_all add: cursor_at_def)
  obtain res where "move_position d (of_nat r) (of_nat k) =
      (of_nat (fst (moved d r k)), of_nat (snd (moved d r k)), res)"
    using move_position_moved [OF rk] by blast
  then show "cursor_at (fst (terminal_move_i d c)) (fst (moved d r k)) (snd (moved d r k))"
    "terminal_buffer (state (fst (terminal_move_i d c))) = terminal_buffer (state c)"
    "is_current (fst (terminal_move_i d c)) = is_current c"
    using assms moved_bounds [OF rk, of d]
    by (simp_all add: terminal_move_i_def cursor_at_def Let_def)
qed

lemma cell_index: "r < 25 \<Longrightarrow> k < 80 \<Longrightarrow> (of_nat r :: u32) * 80 + of_nat k = of_nat (position r k)"
  by (simp add: position_def mult.commute)

lemma position_less: "r < 25 \<Longrightarrow> k < 80 \<Longrightarrow> position r k < 2000"
  by (simp add: position_def)

lemma cell_inject: "p < 2000 \<Longrightarrow> q < 2000 \<Longrightarrow> (of_nat p :: u32) = of_nat q \<longleftrightarrow> p = q"
  by (rule of_nat_u32_inject) auto

definition step_of :: "i32 \<Rightarrow> nat" where
  "step_of d = (if d = TERM_DIRECTION_UP then 1920 else if d = TERM_DIRECTION_DOWN then 80
     else if d = TERM_DIRECTION_LEFT then 1999 else 1)"

lemma moved_position:
  assumes "r < 25" and "k < 80" and "d \<in> {0, 1, 2, 3}"
  shows "position (fst (moved d r k)) (snd (moved d r k)) = (position r k + step_of d) mod 2000"
proof -
  have wrap: "(r + 24) mod 25 = (if 0 < r then r - 1 else 24)" "(r + 1) mod 25 = (if r < 24 then r + 1 else 0)"
    using assms(1) by (auto simp: mod_if)
  have m: "x mod 2000 = x - 2000" if "2000 \<le> x" "x < 4000" for x :: nat
    using that by (simp add: le_mod_geq)
  from assms(3) consider "d = 0" | "d = 1" | "d = 2" | "d = 3" by auto
  then show ?thesis
    using assms(1,2) wrap m
    by cases (auto simp: moved_def position_def step_of_def)
qed

lemma ucast_scast_16: "(ucast (scast (x :: i16) :: i32) :: i16) = x"
  by transfer (simp add: take_bit_signed_take_bit)

lemma move_i_cells:
  fixes d :: i32
  assumes "cursor_at c r k" and "is_current c" and "terminal_buffer (state c) = Vga"
  defines "p \<equiv> position r k" and "p' \<equiv> position (fst (moved d r k)) (snd (moved d r k))"
    and "c' \<equiv> fst (terminal_move_i d c)"
  shows "vga_buffer c' = ((vga_buffer c)(of_nat p := ucast (cursor_char c)))(of_nat p' := CURSOR_CHAR (state c))"
    and "ucast (cursor_char c') = ((vga_buffer c)(of_nat p := ucast (cursor_char c))) (of_nat p')"
    and "terminal_color (state c') = terminal_color (state c)" "left c' = left c"
    "head (state c') = head (state c)" "buffer c' = buffer c"
proof -
  have rk: "r < 25" "k < 80" using assms(1) by (simp_all add: cursor_at_def)
  obtain res where m: "move_position d (of_nat r) (of_nat k) =
      (of_nat (fst (moved d r k)), of_nat (snd (moved d r k)), res)"
    using move_position_moved [OF rk] by blast
  note b = moved_bounds [OF rk, of d]
  note idx = cell_index [OF rk, folded p_def] cell_index [of "fst (moved d r k)" "snd (moved d r k)", folded p'_def]
  have col: "CURSOR_CHAR (s\<lparr>terminal_row := x, terminal_column := y\<rparr>) = CURSOR_CHAR s" for s x y
    by (simp add: CURSOR_CHAR_def)
  show "vga_buffer c' = ((vga_buffer c)(of_nat p := ucast (cursor_char c)))(of_nat p' := CURSOR_CHAR (state c))"
    "ucast (cursor_char c') = ((vga_buffer c)(of_nat p := ucast (cursor_char c))) (of_nat p')"
    "terminal_color (state c') = terminal_color (state c)" "left c' = left c"
    "head (state c') = head (state c)" "buffer c' = buffer c"
    using assms(1-3) b m idx
    by (simp_all add: c'_def terminal_move_i_def cursor_at_def Let_def vga_get_char_def col ucast_scast_16)
qed

text \<open>
  terminal_move, on the current terminal showing the screen: the four directions move the
  cursor cyclically by one column or one row, as a step on the 2000 cells; the old cell gets
  back the character the cursor hid, the new cell shows the cursor, its character is remembered
  and no other cell changes.
\<close>
theorem terminal_move_correct:
  assumes "cursor_at c r k" and "is_current c" and "terminal_buffer (state c) = Vga"
    and "d \<in> {0, 1, 2, 3}"
  shows "let c' = terminal_move d c; p = position r k; p' = (p + step_of d) mod 2000 in
    (\<exists>r' k'. cursor_at c' r' k' \<and> position r' k' = p') \<and> p' \<noteq> p \<and>
    vga_buffer c' (of_nat p') = CURSOR_CHAR (state c) \<and>
    vga_buffer c' (of_nat p) = ucast (cursor_char c) \<and>
    ucast (cursor_char c') = vga_buffer c (of_nat p') \<and>
    (\<forall>i. i \<noteq> of_nat p \<and> i \<noteq> of_nat p' \<longrightarrow> vga_buffer c' i = vga_buffer c i)"
proof -
  have rk: "r < 25" "k < 80" using assms(1) by (simp_all add: cursor_at_def)
  note mp = moved_position [OF rk assms(4)]
  note cells = move_i_cells [OF assms(1-3), of d, unfolded mp]
  let ?p = "position r k" and ?p' = "(position r k + step_of d) mod 2000"
  have ne: "?p' \<noteq> ?p"
    using position_less [OF rk] assms(4) by (auto simp: step_of_def mod_if)
  then have "(of_nat ?p' :: u32) \<noteq> of_nat ?p"
    using cell_inject [of ?p' ?p] position_less [OF rk] by simp
  then show ?thesis
    using ne cells(1,2) move_i_state(1) [OF assms(1), of d] mp
    unfolding Let_def terminal_move_def by auto
qed

lemma terminal_init_facts:
  "cursor_at (terminal_init c) 0 0" "is_current (terminal_init c)"
  "terminal_buffer (state (terminal_init c)) = Vga" "head (state (terminal_init c)) = NULL"
  "terminal_flags (state (terminal_init c)) = terminal_flags (state c)"
  by (simp_all add: terminal_init_def Let_def fold_state fold_current vga_move_cursor_def
      outb_fb_def cursor_at_def)

text \<open>The terminal as the loader leaves it: the .bss section is zero.\<close>

definition bss_console :: "mem \<Rightarrow> console" where
  "bss_console m = \<lparr>state = \<lparr>terminal_row = 0, terminal_column = 0, terminal_color = 0,
       terminal_flags = 0, terminal_buffer = History 0, terminal_current_length = 0, cur = 0,
       head = 0, output_to_serial = 0\<rparr>, is_current = False, vga_buffer = (\<lambda>_. 0), cursor_char = 0,
     left = (\<lambda>_. 0), buffer = (\<lambda>_ _. 0), links = \<lparr>nxt = (\<lambda>_. 0), prv = (\<lambda>_. 0)\<rparr>, ram = m,
     ctrace = []\<rparr>"

theorem terminal_move_correct_witness:
  "\<exists>r' k'. cursor_at (terminal_move TERM_DIRECTION_LEFT (terminal_init (bss_console (\<lambda>_. 0)))) r' k' \<and>
     position r' k' = 1999"
  using terminal_move_correct [OF terminal_init_facts(1-3), of TERM_DIRECTION_LEFT]
  by (simp add: Let_def position_def step_of_def)

section \<open>Printing is safe\<close>

text \<open>
  What holds between two calls: the cursor is on the screen, the page allocator is well formed
  and the limit flag, which nothing in the kernel sets, is clear.
\<close>

definition console_ok :: "(u32 \<Rightarrow> u32) \<Rightarrow> console \<Rightarrow> bool" where
  "console_ok lz c \<longleftrightarrow> on_screen c \<and> is_bsr lz \<and> buddy_ok (ram c) \<and>
     terminal_flags (state c) AND SEG_LIMIT_ENABLED = 0"

text \<open>
  A call returns a well-formed console, or memory for the history has run out, or it waits for ever for
  a serial line that does not drain.
\<close>

definition safe :: "hw \<Rightarrow> (u32 \<Rightarrow> u32) \<Rightarrow> console run \<Rightarrow> bool" where
  "safe hw lz r \<longleftrightarrow> r = Trap Assert_fail \<or> (r = None \<and> \<not> drains hw) \<or> (\<exists>c. r = Ret c \<and> console_ok lz c)"

lemma safe_Ret [simp]: "safe hw lz (Ret c) \<longleftrightarrow> console_ok lz c"
  by (simp add: safe_def)

lemma safe_bind: "safe hw lz r \<Longrightarrow> (\<And>c. console_ok lz c \<Longrightarrow> safe hw lz (f c)) \<Longrightarrow> safe hw lz (run_bind r f)"
  unfolding safe_def by fastforce

text \<open>console_ok reads the state and the allocator only.\<close>

lemma console_ok_cong:
  "state c' = state c \<Longrightarrow> ram c' = ram c \<Longrightarrow> console_ok lz c' = console_ok lz c"
  by (simp add: console_ok_def on_screen_def)

lemma console_okI: "console_ok lz c \<Longrightarrow> state c' = state c \<Longrightarrow> ram c' = ram c \<Longrightarrow> console_ok lz c'"
  using console_ok_cong by blast

lemma ram_fields [simp]:
  "ram (upd_state f c) = ram c" "ram (vga_set_char i v c) = ram c"
  "ram (terminal_set_char i v c) = ram c" "ram (hist_left g c) = ram c"
  "ram (terminal_copy_buffer a t d n c) = ram c"
  by (auto simp: upd_state_def vga_set_char_def terminal_set_char_def hist_left_def
      terminal_copy_buffer_def Let_def split: screen.splits)

lemma fold_ram: "(\<And>x c. ram (f x c) = ram c) \<Longrightarrow> ram (fold f xs c) = ram c"
  by (induction xs arbitrary: c) auto

lemma ram_loops [simp]:
  "ram (terminal_clear_row c) = ram c" "ram (show_node t c) = ram c" "ram (blank_rest t e c) = ram c"
  by (simp_all add: terminal_clear_row_def show_node_def blank_rest_def Let_def fold_ram)

lemma ram_move [simp]: "ram (fst (terminal_move_i d c)) = ram c"
  by (simp add: terminal_move_i_def Let_def split: prod.splits)

lemma flags_move: "terminal_flags (state (fst (terminal_move_i d c))) = terminal_flags (state c)"
  by (simp add: terminal_move_i_def Let_def split: prod.splits)

lemma move_ok: "console_ok lz c \<Longrightarrow> console_ok lz (fst (terminal_move_i d c))"
  unfolding console_ok_def flags_move
  using on_screenI [OF move_i_state(1) [OF on_screenD]] by simp

lemma kalloc_page:
  assumes "is_bsr lz" and "buddy_ok m"
  shows "kalloc lz m 1 = Trap Assert_fail \<or> (\<exists>m' a. kalloc lz m 1 = Ret (m', a) \<and> buddy_ok m')"
  unfolding kalloc_kballoc using kballoc_sound [OF assms, of 4096] by (auto simp: allocated_def)

text \<open>terminal_next_line saves the screen while the row is still 25, one below the last.\<close>

definition row_at_most_25 :: "console \<Rightarrow> bool" where
  "row_at_most_25 c \<longleftrightarrow> (\<exists>r k. r \<le> 25 \<and> k < 80 \<and>
     terminal_row (state c) = of_nat r \<and> terminal_column (state c) = of_nat k)"

definition saving_ok :: "(u32 \<Rightarrow> u32) \<Rightarrow> console \<Rightarrow> bool" where
  "saving_ok lz c \<longleftrightarrow> is_bsr lz \<and> buddy_ok (ram c) \<and> terminal_flags (state c) AND SEG_LIMIT_ENABLED = 0"

definition same_cursor :: "console \<Rightarrow> console \<Rightarrow> bool" where
  "same_cursor c c' \<longleftrightarrow> terminal_row (state c') = terminal_row (state c) \<and>
     terminal_column (state c') = terminal_column (state c) \<and>
     terminal_color (state c') = terminal_color (state c)"

lemma history_node_ok:
  assumes "saving_ok lz c"
  shows "history_node lz c = Trap Assert_fail \<or>
    (\<exists>c' h. history_node lz c = Ret (c', h) \<and> saving_ok lz c' \<and> same_cursor c c')"
proof -
  have flag: "terminal_flags (state c) AND SEG_LIMIT_ENABLED = 0" using assms by (simp add: saving_ok_def)
  show ?thesis
    unfolding history_node_def Let_def using flag assms kalloc_page [of lz "ram c"]
    by (auto simp: saving_ok_def same_cursor_def split: prod.splits)
qed

lemma save_state_ok:
  assumes "saving_ok lz c"
  shows "terminal_save_state lz c = Trap Assert_fail \<or>
    (\<exists>c'. terminal_save_state lz c = Ret c' \<and> saving_ok lz c' \<and> same_cursor c c')"
  using history_node_ok [OF assms]
proof (elim disjE exE conjE)
  assume "history_node lz c = Trap Assert_fail"
  then show ?thesis by (simp add: terminal_save_state_def)
next
  fix c1 h assume "history_node lz c = Ret (c1, h)" "saving_ok lz c1" "same_cursor c c1"
  then show ?thesis
    unfolding terminal_save_state_def Let_def
    by (auto simp: saving_ok_def same_cursor_def fold_state fold_ram)
qed

lemma save_state_console:
  "console_ok lz c \<Longrightarrow> terminal_save_state lz c = Trap Assert_fail \<or>
    (\<exists>c'. terminal_save_state lz c = Ret c' \<and> console_ok lz c')"
  using save_state_ok [of lz c]
  by (auto simp: console_ok_def saving_ok_def same_cursor_def on_screen_def)

lemma save_state_safe: "console_ok lz c \<Longrightarrow> safe hw lz (terminal_save_state lz c)"
  using save_state_console [of lz c] by (auto simp: safe_def)

lemma advance_one_safe:
  assumes "console_ok lz c"
  shows "terminal_advance_one lz c = Trap Assert_fail \<or>
    (\<exists>c' i. terminal_advance_one lz c = Ret (c', i) \<and> console_ok lz c')"
proof -
  let ?m = "terminal_move_i TERM_DIRECTION_RIGHT (hist_left (\<lambda>l. l - 1) c)"
  have "console_ok lz (hist_left (\<lambda>l. l - 1) c)" by (rule console_okI [OF assms]) simp_all
  then have ok: "console_ok lz (fst ?m)" by (rule move_ok)
  have clear: "console_ok lz (terminal_clear_row c') = console_ok lz c'" for c'
    by (rule console_ok_cong) simp_all
  obtain c1 op where m: "?m = (c1, op)" by (cases ?m)
  then have "console_ok lz c1" using ok by simp
  with save_state_console [OF this] clear show ?thesis
    unfolding terminal_advance_one_def Let_def m by auto
qed

lemma delete_one_ok: "console_ok lz c \<Longrightarrow> console_ok lz (fst (terminal_delete_one c))"
  unfolding terminal_delete_one_def Let_def fst_conv
  by (intro move_ok) (auto intro: console_okI)

lemma load_head_ok: "console_ok lz c \<Longrightarrow> console_ok lz (terminal_load_head c)"
  by (auto simp: terminal_load_head_def Let_def console_ok_def on_screen_def)

lemma next_line_safe:
  assumes put: "\<And>c. console_ok lz c \<Longrightarrow> safe hw lz (put 62 c)" and ok: "console_ok lz c"
  shows "safe hw lz (terminal_next_line put lz c)"
proof -
  let ?c1 = "if terminal_buffer (state c) \<noteq> Vga
      then hist_left (\<lambda>l. l - (VGA_WIDTH - ucast (terminal_column (state c)))) c
      else vga_set_char (terminal_row (state c) * VGA_WIDTH + terminal_column (state c)) (ucast (cursor_char c)) c"
  let ?c2 = "upd_state (\<lambda>s. s\<lparr>terminal_column := 0, terminal_row := terminal_row s + 1\<rparr>) ?c1"
  define r where "r = unat (terminal_row (state c))"
  have r: "terminal_row (state c) = of_nat r" "r < 25" using ok by (simp_all add: r_def console_ok_def on_screen_def)
  have s: "state ?c1 = state c" "ram ?c1 = ram c" by simp_all
  have sv: "saving_ok lz ?c2" using ok s by (simp add: console_ok_def saving_ok_def)
  have row: "terminal_row (state ?c2) = of_nat r + 1" "r < 25" using r s by simp_all
  have "safe hw lz (if 25 \<le> sint (terminal_row (state ?c2))
      then run_bind (terminal_save_state lz ?c2) (\<lambda>c3. Ret (upd_state (\<lambda>s. s\<lparr>terminal_row := 0\<rparr>) c3))
      else Ret ?c2)"
  proof (cases "25 \<le> sint (terminal_row (state ?c2))")
    case True
    then show ?thesis
      using save_state_ok [OF sv]
      by (auto simp: safe_def console_ok_def saving_ok_def same_cursor_def on_screen_def)
  next
    case False
    then have "r + 1 < 25" unfolding row(1) using row(2) by (simp add: sint_succ)
    then have "cursor_at ?c2 (r + 1) 0" using row by (simp add: cursor_at_def)
    then show ?thesis using False sv on_screenI by (simp add: console_ok_def saving_ok_def)
  qed
  moreover have "safe hw lz (run_bind (put 62 (terminal_clear_row c4)) (\<lambda>c5. run_bind (put 62 c5) (\<lambda>c6.
      let index = terminal_row (state c6) * VGA_WIDTH + terminal_column (state c6);
          c7 = c6\<lparr>cursor_char := push_bit 8 (ucast (terminal_color (state c6)))\<rparr>
      in Ret (vga_set_char index (VGA_CHAR_COLOR (CURSOR_CHAR (state c7)) (terminal_color (state c7))) c7))))"
    if "console_ok lz c4" for c4
  proof (intro safe_bind put)
    show "console_ok lz (terminal_clear_row c4)" by (rule console_okI [OF that]) simp_all
    show "safe hw lz (let index = terminal_row (state c6) * VGA_WIDTH + terminal_column (state c6);
          c7 = c6\<lparr>cursor_char := push_bit 8 (ucast (terminal_color (state c6)))\<rparr>
        in Ret (vga_set_char index (VGA_CHAR_COLOR (CURSOR_CHAR (state c7)) (terminal_color (state c7))) c7))"
      if "console_ok lz c6" for c6
      unfolding Let_def safe_Ret by (rule console_okI [OF that]) simp_all
  qed
  ultimately show ?thesis
    unfolding terminal_next_line_def Let_def by (rule safe_bind)
qed

text \<open>The common part of terminal_put_char, before the switch on the character.\<close>

definition put_prologue :: "hw \<Rightarrow> u8 \<Rightarrow> console \<Rightarrow> console run" where
  "put_prologue hw ch c =
     serial_echo hw ch (if is_current c \<and> terminal_buffer (state c) \<noteq> Vga then terminal_load_head c else c)"

lemma put_char_n_Suc:
  "put_char_n (Suc n) hw lz ch c =
     run_bind (put_prologue hw ch c) (\<lambda>c2.
       if ch = 8 then Ret (fst (terminal_delete_one c2))
       else if ch = 10 then terminal_next_line (put_char_n n hw lz) lz c2
       else run_bind (terminal_advance_one lz c2) (\<lambda>(c3, idx).
              Ret (terminal_set_char idx (VGA_CHAR_COLOR (scast ch) (terminal_color (state c3))) c3)))"
  by (simp add: put_prologue_def Let_def)

declare put_char_n.simps [simp del]

text \<open>A character for the serial line is all that a wait can be for.\<close>

lemma serial_echo_cases:
  "(serial_echo hw ch c = None \<and> \<not> drains hw) \<or> (\<exists>t. serial_echo hw ch c = Ret (c\<lparr>ctrace := t\<rparr>))"
proof (cases "output_to_serial (state c) = 0")
  case True
  then have "serial_echo hw ch c = Ret (c\<lparr>ctrace := ctrace c\<rparr>)" by (simp add: serial_echo_def)
  then show ?thesis by blast
next
  case False
  have "write_serial hw ch t \<noteq> None" if "drains hw" for t
    using that write_serial_after_polls [of hw _ t ch] unfolding drains_def by blast
  from this [of "ctrace c"] show ?thesis using False
    by (cases "write_serial hw ch (ctrace c)") (auto simp: serial_echo_def)
qed

lemma prologue_safe: "console_ok lz c \<Longrightarrow> safe hw lz (put_prologue hw ch c)"
proof -
  assume c: "console_ok lz c"
  let ?c1 = "if is_current c \<and> terminal_buffer (state c) \<noteq> Vga then terminal_load_head c else c"
  have c1: "console_ok lz ?c1" using c load_head_ok by simp
  have "console_ok lz (?c1\<lparr>ctrace := t\<rparr>)" for t by (rule console_okI [OF c1]) simp_all
  then show ?thesis
    unfolding put_prologue_def safe_def using serial_echo_cases [of hw ch ?c1] by blast
qed

lemma put_other_safe:
  assumes "console_ok lz c" and "ch \<noteq> 10"
  shows "safe hw lz (put_char_n (Suc n) hw lz ch c)"
  unfolding put_char_n_Suc
proof (rule safe_bind [OF prologue_safe [OF assms(1)]])
  fix c2 assume ok: "console_ok lz c2"
  have set: "console_ok lz c' \<Longrightarrow> console_ok lz (terminal_set_char i v c')" for i v c'
    by (erule console_okI) simp_all
  show "safe hw lz (if ch = 8 then Ret (fst (terminal_delete_one c2))
       else if ch = 10 then terminal_next_line (put_char_n n hw lz) lz c2
       else run_bind (terminal_advance_one lz c2) (\<lambda>(c3, idx).
              Ret (terminal_set_char idx (VGA_CHAR_COLOR (scast ch) (terminal_color (state c3))) c3)))"
    using advance_one_safe [OF ok] delete_one_ok [OF ok] assms(2) set by (auto simp: safe_def)
qed

lemma put_char_safe:
  assumes "console_ok lz c"
  shows "safe hw lz (put_char_n (Suc (Suc n)) hw lz ch c)"
proof (cases "ch = 10")
  case True
  have "safe hw lz (terminal_next_line (put_char_n (Suc n) hw lz) lz c2)" if "console_ok lz c2" for c2
    by (rule next_line_safe [OF put_other_safe that]) simp_all
  from safe_bind [OF prologue_safe [OF assms] this] show ?thesis
    using True by (simp add: put_char_n_Suc [of "Suc n"])
next
  case False
  then show ?thesis using put_other_safe [OF assms] by simp
qed

text \<open>Two levels of terminal_put_char are enough: more change nothing.\<close>

lemma put_other_fuel: "ch \<noteq> 10 \<Longrightarrow> put_char_n (Suc n) hw lz ch c = put_char_n (Suc m) hw lz ch c"
  unfolding put_char_n_Suc by (rule run_bind_cong) simp_all

lemma put_char_fuel: "put_char_n (Suc (Suc n)) hw lz ch c = terminal_put_char hw lz ch c"
proof -
  have "terminal_next_line (put_char_n (Suc n) hw lz) lz c' = terminal_next_line (put_char_n (Suc 0) hw lz) lz c'" for c'
    by (simp add: terminal_next_line_def put_other_fuel [of 62 n _ _ _ 0])
  then show ?thesis
    unfolding terminal_put_char_def numeral_2_eq_2 put_char_n_Suc [of "Suc n"] put_char_n_Suc [of "Suc 0"]
    by (intro run_bind_cong) simp_all
qed

lemma terminal_put_char_safe: "console_ok lz c \<Longrightarrow> safe hw lz (terminal_put_char hw lz ch c)"
  unfolding terminal_put_char_def numeral_2_eq_2 by (rule put_char_safe)

text \<open>The effect of a string is that of its characters in order.\<close>

primrec put_chars :: "hw \<Rightarrow> (u32 \<Rightarrow> u32) \<Rightarrow> u8 list \<Rightarrow> console \<Rightarrow> console run" where
  "put_chars hw lz [] c = Ret c"
| "put_chars hw lz (x # xs) c = run_bind (terminal_put_char hw lz x c) (put_chars hw lz xs)"

lemma put_string_chars: "cstr m p xs \<Longrightarrow> terminal_put_string hw lz m p c = put_chars hw lz xs c"
proof (induction xs arbitrary: p c)
  case Nil
  then show ?case by (subst terminal_put_string.simps) simp
next
  case (Cons x xs)
  then show ?case by (subst terminal_put_string.simps) (auto intro!: run_bind_cong)
qed

lemma put_chars_safe: "console_ok lz c \<Longrightarrow> safe hw lz (put_chars hw lz xs c)"
  by (induction xs arbitrary: c) (auto intro: safe_bind terminal_put_char_safe)

lemma put_chars_append: "put_chars hw lz (xs @ ys) c = run_bind (put_chars hw lz xs c) (put_chars hw lz ys)"
  by (induction xs arbitrary: c)
    (auto simp: run_bind_def split: option.splits sum.splits)

text \<open>
  C10: as long as the serial line drains, printing a terminated string on a well-formed console always
  ends, whatever characters the string has (new lines, back spaces and the scrolling they cause
  included): it returns a console whose cursor is on the screen again, or stops in the allocator's
  assertion when no page is left for the history. (A line that does not drain makes write_serial wait
  for ever once output_to_serial is set; the lemma put_chars_safe has that outcome too.)
\<close>
theorem terminal_put_string_safe:
  assumes "drains hw" and "console_ok lz c" and "cstr m p xs"
  shows "terminal_put_string hw lz m p c = Trap Assert_fail \<or>
    (\<exists>c'. terminal_put_string hw lz m p c = Ret c' \<and> console_ok lz c')"
  using put_chars_safe [OF assms(2)] assms(1) unfolding put_string_chars [OF assms(3)] safe_def by blast

lemma boot_console_ok:
  "console_ok bsr (terminal_init (bss_console empty_system))"
proof -
  have "ram (terminal_init c) = ram c" for c
    by (simp add: terminal_init_def Let_def fold_ram vga_move_cursor_def outb_fb_def)
  moreover have "on_screen (terminal_init c)" for c
    using on_screenI [OF terminal_init_facts(1)] .
  ultimately show ?thesis
    using is_bsr_bsr empty_system(2)
    by (simp add: console_ok_def terminal_init_facts(5)) (simp add: bss_console_def)
qed

theorem terminal_put_string_safe_witness:
  "let m = (\<lambda>_. 0)(0x1000 := 72, 0x1001 := 10); c = terminal_init (bss_console empty_system) in
    terminal_put_string drained_hw bsr m 0x1000 c = Trap Assert_fail \<or>
    (\<exists>c'. terminal_put_string drained_hw bsr m 0x1000 c = Ret c' \<and> console_ok bsr c')"
proof -
  have "cstr ((\<lambda>_. 0)(0x1000 := 72, 0x1001 := 10)) 0x1000 [72, 10]" by simp
  from terminal_put_string_safe [OF drained_hw_drains boot_console_ok this] show ?thesis by (simp only: Let_def)
qed

section \<open>Typing and erasing a character\<close>

definition printable :: "u8 \<Rightarrow> bool" where
  "printable ch \<longleftrightarrow> ch \<noteq> 8 \<and> ch \<noteq> 10"

lemma prologue_vga:
  assumes "drains hw" and "terminal_buffer (state c) = Vga"
  obtains c0 where "put_prologue hw ch c = Ret c0" "state c0 = state c" "vga_buffer c0 = vga_buffer c"
    "cursor_char c0 = cursor_char c" "is_current c0 = is_current c" "left c0 = left c" "buffer c0 = buffer c"
proof -
  obtain t where "serial_echo hw ch c = Ret (c\<lparr>ctrace := t\<rparr>)" using serial_echo_cases [of hw ch c] assms(1) by blast
  then show ?thesis using assms(2) by (intro that [of "c\<lparr>ctrace := t\<rparr>"]) (simp_all add: put_prologue_def)
qed

lemma hist_left_vga: "terminal_buffer (state c) = Vga \<Longrightarrow> hist_left f c = c"
  by (simp add: hist_left_def)

lemma put_printable:
  assumes dr: "drains hw" and at: "cursor_at c r k" and k: "k < 79" and cu: "is_current c" and v: "terminal_buffer (state c) = Vga"
    and ch: "printable ch"
  defines "p \<equiv> position r k"
  shows "\<exists>c'. terminal_put_char hw lz ch c = Ret c' \<and> cursor_at c' r (k + 1) \<and> is_current c' \<and>
    terminal_buffer (state c') = Vga \<and> terminal_color (state c') = terminal_color (state c) \<and>
    vga_buffer c' = (vga_buffer c)(of_nat (p + 1) := CURSOR_CHAR (state c),
      of_nat p := VGA_CHAR_COLOR (scast ch) (terminal_color (state c))) \<and>
    ucast (cursor_char c') = vga_buffer c (of_nat (p + 1)) \<and>
    left c' = left c \<and> buffer c' = buffer c \<and> head (state c') = head (state c)"
proof -
  obtain c0 where pc: "put_prologue hw ch c = Ret c0" and pro: "state c0 = state c"
    "vga_buffer c0 = vga_buffer c" "cursor_char c0 = cursor_char c" "is_current c0 = is_current c"
    "left c0 = left c" "buffer c0 = buffer c"
    by (rule prologue_vga [OF dr v])
  let ?c = c0
  have at': "cursor_at ?c r k" "is_current ?c" "terminal_buffer (state ?c) = Vga"
    using at cu v pro by (simp_all add: cursor_at_def)
  have rk: "r < 25" "k < 80" using at by (simp_all add: cursor_at_def)
  have mv: "moved TERM_DIRECTION_RIGHT r k = (r, k + 1)" using k by (simp add: moved_def)
  let ?m = "terminal_move_i TERM_DIRECTION_RIGHT ?c"
  note st = move_i_state [OF at'(1), of TERM_DIRECTION_RIGHT, unfolded mv fst_conv snd_conv]
  note cells = move_i_cells [OF at', of TERM_DIRECTION_RIGHT, unfolded mv fst_conv snd_conv]
  have p1: "position r (k + 1) = p + 1" by (simp add: position_def p_def)
  have op: "snd ?m = 0"
    using at'(1) rk k move_right [OF rk]
    by (simp add: terminal_move_i_def cursor_at_def Let_def)
  have idx: "terminal_column (state ?c) + terminal_row (state ?c) * VGA_WIDTH = of_nat p"
    using at'(1) cell_index [OF rk] by (simp add: cursor_at_def p_def add.commute)
  have ne: "(of_nat (p + 1) :: u32) \<noteq> of_nat p" by simp
  have adv: "terminal_advance_one lz ?c = Ret (fst ?m, of_nat p)"
    unfolding terminal_advance_one_def Let_def hist_left_vga [OF at'(3)] idx
    using op by (cases ?m) simp
  let ?v = "VGA_CHAR_COLOR (scast ch) (terminal_color (state c))"
  have "terminal_put_char hw lz ch c = Ret (vga_set_char (of_nat p) ?v (fst ?m))"
    unfolding put_char_fuel [of 0, symmetric] put_char_n_Suc pc run_bind_simps adv
    using ch at'(3) pro st(2) cells(3)
    by (simp add: printable_def terminal_set_char_vga)
  then show ?thesis
    using st cells at' pro ne unfolding p1 p_def [symmetric]
    by (auto simp: cursor_at_def fun_upd_twist)
qed

text \<open>
  When the serial line drains, typing a printable character anywhere but in the last column puts it, in the terminal's
  colour, into the cell the cursor was on and moves the cursor one cell to the right; no other
  cell changes, and the character the cursor now hides is remembered.
\<close>
theorem put_char_prints:
  assumes "drains hw" and "cursor_at c r k" and "k < 79" and "is_current c" and "terminal_buffer (state c) = Vga"
    and "printable ch"
  shows "\<exists>c'. terminal_put_char hw lz ch c = Ret c' \<and> cursor_at c' r (k + 1) \<and>
    vga_buffer c' (of_nat (position r k)) = VGA_CHAR_COLOR (scast ch) (terminal_color (state c)) \<and>
    vga_buffer c' (of_nat (position r k + 1)) = CURSOR_CHAR (state c) \<and>
    ucast (cursor_char c') = vga_buffer c (of_nat (position r k + 1)) \<and>
    (\<forall>i. i \<noteq> of_nat (position r k) \<and> i \<noteq> of_nat (position r k + 1) \<longrightarrow>
       vga_buffer c' i = vga_buffer c i)"
proof -
  have "(of_nat (position r k + 1) :: u32) \<noteq> of_nat (position r k)" by simp
  then show ?thesis using put_printable [OF assms, of lz] by auto
qed

theorem put_char_prints_witness:
  "\<exists>c'. terminal_put_char drained_hw bsr 65 (terminal_init (bss_console (\<lambda>_. 0))) = Ret c' \<and> cursor_at c' 0 1"
  using put_char_prints [OF drained_hw_drains terminal_init_facts(1) _ terminal_init_facts(2,3), of 65 bsr "bss_console (\<lambda>_. 0)"]
  by (auto simp: printable_def)

text \<open>
  C12: on the current terminal, showing the screen, with the cursor in any column but the last one
  (column < 79) and with a serial line that drains, a back space after a printable character undoes it:
  the cursor is where it was, the cell it had advanced to has its old content again, the erased cell is
  blank under the cursor and every other cell is as before. In the last column the character wraps to
  the next row, which terminal_advance_one clears, so that the theorem leaves that column out.
\<close>
theorem backspace_undoes_char:
  assumes dr: "drains hw" and at: "cursor_at c r k" and k: "k < 79" and cu: "is_current c" and v: "terminal_buffer (state c) = Vga"
    and ch: "printable ch"
  shows "\<exists>c'. put_chars hw lz [ch, 8] c = Ret c' \<and> cursor_at c' r k \<and>
    ucast (cursor_char c') = VGA_CHAR_COLOR 0 (terminal_color (state c)) \<and>
    vga_buffer c' = (vga_buffer c)(of_nat (position r k) := CURSOR_CHAR (state c))"
proof -
  let ?p = "position r k"
  obtain c1 where c1: "terminal_put_char hw lz ch c = Ret c1" "cursor_at c1 r (k + 1)" "is_current c1"
    "terminal_buffer (state c1) = Vga" "terminal_color (state c1) = terminal_color (state c)"
    "vga_buffer c1 = (vga_buffer c)(of_nat (?p + 1) := CURSOR_CHAR (state c),
      of_nat ?p := VGA_CHAR_COLOR (scast ch) (terminal_color (state c)))"
    "ucast (cursor_char c1) = vga_buffer c (of_nat (?p + 1))"
    using put_printable [OF assms, of lz] by blast
  obtain c0 where pc: "put_prologue hw 8 c1 = Ret c0" and pro: "state c0 = state c1"
    "vga_buffer c0 = vga_buffer c1" "cursor_char c0 = cursor_char c1" "is_current c0 = is_current c1"
    "left c0 = left c1" "buffer c0 = buffer c1"
    by (rule prologue_vga [OF dr c1(4)])
  let ?c = c0
  let ?e = "VGA_CHAR_COLOR 0 (terminal_color (state c))"
  let ?s = "terminal_set_char (of_nat ?p) ?e ?c"
  have rk: "r < 25" "k < 80" "k + 1 < 80" using at k by (simp_all add: cursor_at_def)
  have at': "cursor_at ?s r (k + 1)" "is_current ?s" "terminal_buffer (state ?s) = Vga"
    using c1 pro by (simp_all add: cursor_at_def)
  have p1: "position r (k + 1) = ?p + 1" by (simp add: position_def)
  have idx: "terminal_column (state ?c) + terminal_row (state ?c) * VGA_WIDTH - 1 = of_nat ?p"
    using c1(2) pro cell_index [OF rk(1,3)] unfolding p1
    by (simp add: cursor_at_def add.commute algebra_simps)
  have mv: "moved TERM_DIRECTION_LEFT r (k + 1) = (r, k)" by (simp add: moved_def)
  let ?m = "fst (terminal_move_i TERM_DIRECTION_LEFT ?s)"
  note st = move_i_state [OF at'(1), of TERM_DIRECTION_LEFT, unfolded mv fst_conv snd_conv]
  note cells = move_i_cells [OF at', of TERM_DIRECTION_LEFT, unfolded mv fst_conv snd_conv]
  have del: "terminal_put_char hw lz 8 c1 = Ret ?m"
    unfolding put_char_fuel [of 0, symmetric] put_char_n_Suc pc run_bind_simps terminal_delete_one_def Let_def
      hist_left_vga [OF c1(4) [folded pro(1)]] idx
    using c1(5) pro by simp
  have ne: "(of_nat (?p + 1) :: u32) \<noteq> of_nat ?p" by simp
  have vs: "vga_buffer ?s = (vga_buffer c1)(of_nat ?p := ?e)" "state ?s = state c1"
    "cursor_char ?s = cursor_char c1"
    using c1(4) pro by (simp_all add: terminal_set_char_vga)
  have cc: "CURSOR_CHAR (state c1) = CURSOR_CHAR (state c)" using c1(5) by (simp add: CURSOR_CHAR_def)
  have "vga_buffer ?m = (vga_buffer c)(of_nat ?p := CURSOR_CHAR (state c))"
    unfolding cells(1) vs p1 c1(6,7) cc using ne by (auto simp: fun_eq_iff)
  moreover have "ucast (cursor_char ?m) = ?e"
    unfolding cells(2) vs p1 using ne by simp
  ultimately show ?thesis using c1(1) del st(1) by auto
qed

theorem backspace_undoes_char_witness:
  "\<exists>c'. put_chars drained_hw bsr [65, 8] (terminal_init (bss_console (\<lambda>_. 0))) = Ret c' \<and> cursor_at c' 0 0"
  using backspace_undoes_char [OF drained_hw_drains terminal_init_facts(1) _ terminal_init_facts(2,3), of 65 bsr "bss_console (\<lambda>_. 0)"]
  by (auto simp: printable_def)

section \<open>The history keeps the screen\<close>

lemma fold_upd_apply:
  "fold (\<lambda>k b. b(f k := g (f k))) ks b i = (if i \<in> f ` set ks then g i else b i)"
  by (induction ks arbitrary: b) auto

lemma fold_set_chars:
  "terminal_buffer (state c) = Vga \<Longrightarrow>
    vga_buffer (fold (\<lambda>i. terminal_set_char (f i) v) ks c) j = (if j \<in> f ` set ks then v else vga_buffer c j) \<and>
    left (fold (\<lambda>i. terminal_set_char (f i) v) ks c) = left c \<and>
    buffer (fold (\<lambda>i. terminal_set_char (f i) v) ks c) = buffer c \<and>
    cursor_char (fold (\<lambda>i. terminal_set_char (f i) v) ks c) = cursor_char c"
  by (induction ks arbitrary: c) (auto simp: terminal_set_char_vga)


lemma clear_row_cells:
  assumes "terminal_buffer (state c) = Vga"
  shows "left (terminal_clear_row c) = left c" "buffer (terminal_clear_row c) = buffer c"
    "vga_buffer (terminal_clear_row c) j = VGA_CHAR_COLOR 0 (terminal_color (state c)) \<or>
     vga_buffer (terminal_clear_row c) j = vga_buffer c j"
proof -
  define f where "f = (\<lambda>i. terminal_row (state c) * VGA_WIDTH + of_nat i)"
  define e where "e = VGA_CHAR_COLOR 0 (terminal_color (state c))"
  have eq: "terminal_clear_row c = fold (\<lambda>i. terminal_set_char (f i) e) [0..<80] c"
    by (simp add: terminal_clear_row_def Let_def f_def e_def)
  show "left (terminal_clear_row c) = left c" "buffer (terminal_clear_row c) = buffer c"
    "vga_buffer (terminal_clear_row c) j = VGA_CHAR_COLOR 0 (terminal_color (state c)) \<or>
     vga_buffer (terminal_clear_row c) j = vga_buffer c j"
    unfolding eq e_def [symmetric] using fold_set_chars [OF assms, of f e "[0..<80]"] by auto
qed

lemma sint_small_16: "n < 2 ^ 15 \<Longrightarrow> sint (of_nat n :: i16) = int n"
  by (simp add: signed_of_nat signed_take_bit_int_eq_self)

lemma scast_small_16: "n < 2 ^ 15 \<Longrightarrow> (scast (of_nat n :: i16) :: i32) = of_nat n"
  by (simp add: scast_eq sint_small_16)

lemma ucast_of_nat_16: "(ucast (of_nat n :: i32) :: i16) = of_nat n"
  by transfer simp

lemma sint_diff_small: "a < 2 ^ 30 \<Longrightarrow> b < 2 ^ 30 \<Longrightarrow> sint (of_nat a - of_nat b :: i32) = int a - int b"
proof -
  assume "a < 2 ^ 30" "b < 2 ^ 30"
  moreover have "(of_nat a - of_nat b :: i32) = of_int (int a - int b)" by simp
  ultimately show ?thesis
    by (simp only: signed_of_int) (simp add: signed_take_bit_int_eq_self)
qed

text \<open>
  What is saved when a history node with room for L cells is at hand and the cursor stands
  after p cells: the cells from 2000 - L up to p.
\<close>

lemma save_state_copies:
  assumes h: "head (state c) \<noteq> NULL" and L: "left c (head (state c)) = of_nat L" "0 < L" "L \<le> 2000"
    and v: "terminal_buffer (state c) = Vga"
    and cu: "terminal_row (state c) * VGA_WIDTH + terminal_column (state c) = of_nat p" "p \<le> 2000"
  shows "\<exists>c'. terminal_save_state lz c = Ret c' \<and> state c' = state c \<and> is_current c' = is_current c \<and>
    (\<forall>i < 2000. buffer c' (head (state c)) (of_nat i) =
       (if 2000 - L \<le> i \<and> i < p then vga_buffer c (of_nat i) else buffer c (head (state c)) (of_nat i))) \<and>
    left c' (head (state c)) = of_nat (L - (p - (2000 - L))) \<and>
    (\<forall>i < 2000. vga_buffer c' (of_nat i) = VGA_CHAR_COLOR 0 (terminal_color (state c)))"
proof -
  let ?h = "head (state c)" and ?o = "2000 - L" and ?e = "VGA_CHAR_COLOR 0 (terminal_color (state c))"
  have node: "history_node lz c = Ret (c, ?h)"
    using h L by (simp add: history_node_def sint_small_16)
  have off: "2000 - (scast (left c ?h) :: i32) = of_nat ?o"
    using L by (simp add: scast_small_16 of_nat_diff)
  have diff: "sint (of_nat p - of_nat ?o :: i32) = int p - int ?o"
    using L cu(2) by (intro sint_diff_small) auto
  define c2 where "c2 = (if 0 < int p - int ?o then
      (let c' = terminal_copy_buffer (of_nat ?o) ?h (of_nat ?o) (of_nat (p - ?o)) c
       in c'\<lparr>left := (left c')(?h := left c' ?h - of_nat (p - ?o))\<rparr>) else c)"
  have len: "0 < int p - int ?o \<Longrightarrow> (ucast (of_nat p - of_nat ?o :: i32) :: i16) = of_nat (p - ?o)"
    by (simp add: of_nat_diff [symmetric] ucast_of_nat_16 del: of_nat_diff)
  have st2: "state c2 = state c" "is_current c2 = is_current c" "vga_buffer c2 = vga_buffer c"
    by (simp_all add: c2_def Let_def terminal_copy_buffer_def)
  have save: "terminal_save_state lz c = Ret (upd_state (\<lambda>s. s\<lparr>head := ?h\<rparr>)
      (fold (\<lambda>i. terminal_set_char (of_nat i) ?e) [0..<2000] c2))"
    unfolding terminal_save_state_def Let_def node run_bind_simps prod.case v cu off diff c2_def
    using len by (simp add: ucast_of_nat_16 Let_def)
  have left2: "left c2 ?h = of_nat (L - (p - ?o))"
  proof (cases "0 < int p - int ?o")
    case True
    then have "p - ?o \<le> L" using cu(2) by simp
    then show ?thesis using True L by (simp add: c2_def Let_def terminal_copy_buffer_def of_nat_diff)
  next
    case False
    then show ?thesis using L by (simp add: c2_def)
  qed
  have buf2: "buffer c2 ?h (of_nat i) =
      (if ?o \<le> i \<and> i < p then vga_buffer c (of_nat i) else buffer c ?h (of_nat i))" if i: "i < 2000" for i
  proof (cases "0 < int p - int ?o")
    case True
    let ?n = "p - ?o"
    have n: "nat (sint (of_nat ?n :: i16)) = ?n" "(scast (of_nat ?o :: i16) :: u32) = of_nat ?o"
      using cu(2) by (simp_all add: sint_small_16 scast_small_16 del: of_nat_diff)
    have "(of_nat i :: u32) \<in> (\<lambda>k. of_nat ?o + of_nat k) ` set (rev [0..<?n]) \<longleftrightarrow> ?o \<le> i \<and> i < p"
    proof
      assume "of_nat i \<in> (\<lambda>k. of_nat ?o + of_nat k :: u32) ` set (rev [0..<?n])"
      then obtain k where k: "k < ?n" "(of_nat i :: u32) = of_nat (?o + k)" by (auto simp del: of_nat_diff)
      then have "i = ?o + k" using i cu(2) of_nat_u32_inject [of i "?o + k"] by simp
      then show "?o \<le> i \<and> i < p" using k by simp
    next
      assume r: "?o \<le> i \<and> i < p"
      then have "(of_nat i :: u32) = of_nat ?o + of_nat (i - ?o)" by (simp flip: of_nat_add)
      then show "of_nat i \<in> (\<lambda>k. of_nat ?o + of_nat k :: u32) ` set (rev [0..<?n])"
        using r by (intro image_eqI [of _ _ "i - ?o"]) auto
    qed
    then show ?thesis
      using True v fold_upd_apply [of "\<lambda>k. of_nat ?o + of_nat k :: u32" "vga_buffer c" "rev [0..<?n]"]
      by (simp add: c2_def Let_def terminal_copy_buffer_def n del: of_nat_diff)
  next
    case False
    then show ?thesis by (auto simp: c2_def)
  qed
  have v2: "terminal_buffer (state c2) = Vga" using st2 v by simp
  note fs = fold_set_chars [OF v2, of of_nat ?e "[0..<2000]"]
  have cells: "(of_nat i :: u32) \<in> of_nat ` set [0..<2000]" if "i < 2000" for i using that by simp
  show ?thesis
    unfolding save using st2 fs cells buf2 left2 v
    by (intro exI [of _ "upd_state (\<lambda>s. s\<lparr>head := ?h\<rparr>) (fold (\<lambda>i. terminal_set_char (of_nat i) ?e) [0..<2000] c2)"])
      (simp add: fold_state fold_current)
qed

text \<open>The prompt printed behind a new line.\<close>

lemma prompt_printed:
  assumes dr: "drains hw" and "cursor_at c 0 0" and "is_current c" and "terminal_buffer (state c) = Vga"
  shows "\<exists>c5 c6. put_char_n (Suc 0) hw lz 62 c = Ret c5 \<and> put_char_n (Suc 0) hw lz 62 c5 = Ret c6 \<and> cursor_at c6 0 2 \<and>
    left c6 = left c \<and> buffer c6 = buffer c"
proof -
  have gt: "printable 62" by (simp add: printable_def)
  have put: "put_char_n (Suc 0) hw lz 62 x = terminal_put_char hw lz 62 x" for x
    unfolding terminal_put_char_def numeral_2_eq_2 by (rule put_other_fuel) simp
  obtain c5 where c5: "terminal_put_char hw lz 62 c = Ret c5" "cursor_at c5 0 1" "is_current c5"
    "terminal_buffer (state c5) = Vga" "left c5 = left c" "buffer c5 = buffer c"
    using put_printable [OF dr assms(2) _ assms(3,4) gt, of lz] by auto
  obtain c6 where "terminal_put_char hw lz 62 c5 = Ret c6" "cursor_at c6 0 2" "left c6 = left c" "buffer c6 = buffer c"
    using put_printable [OF dr c5(2) _ c5(3,4) gt, of lz] c5(5,6) by (auto simp: numeral_2_eq_2)
  then show ?thesis using c5(1) unfolding put by blast
qed

text \<open>
  C11: when the serial line drains, a new line on the last row scrolls: the screen, with the character under the cursor put
  back, goes to the history node (here one with room for a whole screen), cell by cell, and
  the node is full afterwards.
\<close>
theorem newline_saves_screen:
  assumes dr: "drains hw" and at: "cursor_at c 24 k" and v: "terminal_buffer (state c) = Vga" and cu: "is_current c"
    and h: "head (state c) \<noteq> NULL" and L: "left c (head (state c)) = VGA_LENGTH"
  shows "\<exists>c'. terminal_put_char hw lz 10 c = Ret c' \<and> cursor_at c' 0 2 \<and>
    left c' (head (state c)) = 0 \<and>
    (\<forall>i < 2000. buffer c' (head (state c)) (of_nat i) =
       ((vga_buffer c)(of_nat (position 24 k) := ucast (cursor_char c))) (of_nat i))"
proof -
  let ?h = "head (state c)"
  obtain c0 where pc: "put_prologue hw 10 c = Ret c0" and pro: "state c0 = state c"
    "vga_buffer c0 = vga_buffer c" "cursor_char c0 = cursor_char c" "is_current c0 = is_current c"
    "left c0 = left c" "buffer c0 = buffer c"
    by (rule prologue_vga [OF dr v])
  let ?c = c0
  let ?c2 = "upd_state (\<lambda>s. s\<lparr>terminal_column := 0, terminal_row := terminal_row s + 1\<rparr>)
     (vga_set_char (of_nat (position 24 k)) (ucast (cursor_char c)) ?c)"
  have k: "k < 80" and row: "terminal_row (state c) = 24" "terminal_column (state c) = of_nat k"
    using at by (simp_all add: cursor_at_def)
  have st2: "terminal_row (state ?c2) = 25" "terminal_column (state ?c2) = 0"
    "terminal_buffer (state ?c2) = Vga" "head (state ?c2) = ?h"
    "is_current ?c2" "left ?c2 = left c" "buffer ?c2 = buffer c"
    "vga_buffer ?c2 = (vga_buffer c)(of_nat (position 24 k) := ucast (cursor_char c))"
    using row v cu pro by simp_all
  have "terminal_row (state ?c2) * VGA_WIDTH + terminal_column (state ?c2) = of_nat 2000"
    using st2(1,2) by simp
  from save_state_copies [of ?c2 2000, OF _ _ _ _ st2(3) this, of lz] h L st2
  obtain c3 where c3: "terminal_save_state lz ?c2 = Ret c3" "state c3 = state ?c2" "is_current c3"
    "\<forall>i < 2000. buffer c3 ?h (of_nat i) = vga_buffer ?c2 (of_nat i)" "left c3 ?h = 0"
    by auto
  let ?c4 = "terminal_clear_row (upd_state (\<lambda>s. s\<lparr>terminal_row := 0\<rparr>) c3)"
  have s4: "cursor_at ?c4 0 0" "is_current ?c4" "terminal_buffer (state ?c4) = Vga" "head (state ?c4) = ?h"
    using c3 st2 by (simp_all add: cursor_at_def)
  have b4: "left ?c4 = left c3" "buffer ?c4 = buffer c3"
    using clear_row_cells [of "upd_state (\<lambda>s. s\<lparr>terminal_row := 0\<rparr>) c3"] c3(2) st2(3) by simp_all
  obtain c5 c6 where p: "put_char_n (Suc 0) hw lz 62 ?c4 = Ret c5" "put_char_n (Suc 0) hw lz 62 c5 = Ret c6" "cursor_at c6 0 2"
    "left c6 = left c3" "buffer c6 = buffer c3"
    using prompt_printed [OF dr s4(1-3), of lz] b4 by auto
  have eq: "terminal_put_char hw lz 10 c = terminal_next_line (put_char_n (Suc 0) hw lz) lz ?c"
    unfolding put_char_fuel [of 0, symmetric] put_char_n_Suc [of "Suc 0"] pc by simp
  have cell: "terminal_row (state ?c) * VGA_WIDTH + terminal_column (state ?c) = of_nat (position 24 k)"
    using row pro cell_index [of 24 k] k by simp
  have c1: "(if terminal_buffer (state ?c) \<noteq> Vga
      then hist_left (\<lambda>l. l - (VGA_WIDTH - ucast (terminal_column (state ?c)))) ?c
      else vga_set_char (terminal_row (state ?c) * VGA_WIDTH + terminal_column (state ?c))
        (ucast (cursor_char ?c)) ?c) = vga_set_char (of_nat (position 24 k)) (ucast (cursor_char c)) ?c"
    unfolding cell using v pro by simp
  have cond: "25 \<le> sint (terminal_row (state ?c2))" unfolding st2(1) by simp
  have "terminal_put_char hw lz 10 c = run_bind (Ret c6) (\<lambda>c6.
      let index = terminal_row (state c6) * VGA_WIDTH + terminal_column (state c6);
          c7 = c6\<lparr>cursor_char := push_bit 8 (ucast (terminal_color (state c6)))\<rparr>
      in Ret (vga_set_char index (VGA_CHAR_COLOR (CURSOR_CHAR (state c7)) (terminal_color (state c7))) c7))"
    unfolding eq terminal_next_line_def
    by (simp only: Let_def c1 cond if_True c3(1) run_bind_simps p(1,2))
  then show ?thesis using p(3-5) c3(4,5) st2(8) pro(2) by (auto simp: Let_def cursor_at_def)
qed

text \<open>
  C15: a printable character typed into the very last cell scrolls too, but terminal_move_ has
  already taken the cursor to the top when the screen is saved, so nothing is saved. On the current
  terminal, showing the screen, with a head node that has room for a whole screen and a serial line that
  drains, the history node stays as it was, and the screen is blank except for the character just
  typed, which is in the last cell: what stood on the screen is lost.
\<close>
theorem wrap_loses_screen:
  assumes dr: "drains hw" and at: "cursor_at c 24 79" and v: "terminal_buffer (state c) = Vga" and cu: "is_current c"
    and h: "head (state c) \<noteq> NULL" and L: "left c (head (state c)) = VGA_LENGTH" and ch: "printable ch"
  shows "\<exists>c'. terminal_put_char hw lz ch c = Ret c' \<and> cursor_at c' 0 0 \<and>
    (\<forall>i < 2000. buffer c' (head (state c)) (of_nat i) = buffer c (head (state c)) (of_nat i)) \<and>
    left c' (head (state c)) = VGA_LENGTH \<and>
    vga_buffer c' 1999 = VGA_CHAR_COLOR (scast ch) (terminal_color (state c)) \<and>
    (\<forall>i < 1999. vga_buffer c' (of_nat i) = VGA_CHAR_COLOR 0 (terminal_color (state c)))"
proof -
  let ?h = "head (state c)" and ?e = "VGA_CHAR_COLOR 0 (terminal_color (state c))"
  obtain c0 where pc: "put_prologue hw ch c = Ret c0" and pro: "state c0 = state c"
    "vga_buffer c0 = vga_buffer c" "cursor_char c0 = cursor_char c" "is_current c0 = is_current c"
    "left c0 = left c" "buffer c0 = buffer c"
    by (rule prologue_vga [OF dr v])
  let ?c = c0
  have at': "cursor_at ?c 24 79" "is_current ?c" "terminal_buffer (state ?c) = Vga"
    using at cu v pro by (simp_all add: cursor_at_def)
  have mv: "moved TERM_DIRECTION_RIGHT 24 79 = (0, 0)" by (simp add: moved_def)
  let ?m = "terminal_move_i TERM_DIRECTION_RIGHT ?c"
  note st = move_i_state [OF at'(1), of TERM_DIRECTION_RIGHT, unfolded mv fst_conv snd_conv]
  note cells = move_i_cells [OF at', of TERM_DIRECTION_RIGHT, unfolded mv fst_conv snd_conv]
  have op: "snd ?m = 2"
    using at'(1) move_right [of 24 79] by (simp add: terminal_move_i_def cursor_at_def Let_def)
  have idx: "terminal_column (state ?c) + terminal_row (state ?c) * VGA_WIDTH = of_nat 1999"
    using at'(1) by (simp add: cursor_at_def)
  have zero: "terminal_row (state (fst ?m)) * VGA_WIDTH + terminal_column (state (fst ?m)) = of_nat 0"
    using st(1) by (simp add: cursor_at_def)
  from save_state_copies [of "fst ?m" 2000, OF _ _ _ _ _ zero, of lz] h L st cells pro at'
  obtain c2 where c2: "terminal_save_state lz (fst ?m) = Ret c2" "state c2 = state (fst ?m)"
    "is_current c2" "\<forall>i < 2000. buffer c2 ?h (of_nat i) = buffer c ?h (of_nat i)"
    "left c2 ?h = VGA_LENGTH" "\<forall>i < 2000. vga_buffer c2 (of_nat i) = ?e"
    by auto
  let ?c3 = "terminal_clear_row c2"
  have v2: "terminal_buffer (state c2) = Vga" using c2(2) st(2) at'(3) by simp
  have col: "terminal_color (state c2) = terminal_color (state c)" using c2(2) cells(3) pro by simp
  have s3: "left ?c3 = left c2" "buffer ?c3 = buffer c2" "state ?c3 = state c2"
      "\<forall>i < 2000. vga_buffer ?c3 (of_nat i) = ?e"
    using clear_row_cells [OF v2] c2(6) unfolding col by (auto simp: fold_state) metis
  have adv: "terminal_advance_one lz ?c = Ret (?c3, of_nat 1999)"
    unfolding terminal_advance_one_def Let_def hist_left_vga [OF at'(3)] idx
    using op c2(1) by (cases ?m) simp
  let ?v = "VGA_CHAR_COLOR (scast ch) (terminal_color (state ?c3))"
  have "terminal_put_char hw lz ch c = Ret (vga_set_char (of_nat 1999) ?v ?c3)"
    unfolding put_char_fuel [of 0, symmetric] put_char_n_Suc pc run_bind_simps adv
    using ch v2 s3(3) by (simp add: printable_def terminal_set_char_vga)
  moreover have "cursor_at ?c3 0 0" using st(1) c2(2) by (simp add: cursor_at_def)
  moreover have "(of_nat i :: u32) \<noteq> of_nat 1999" if "i < 1999" for i
    using cell_inject [of i 1999] that by simp
  ultimately show ?thesis using s3 c2(4,5) col by (auto simp: cursor_at_def)
qed

text \<open>A console at the bottom of the screen with an empty history node at 0x2000FA4.\<close>

definition bottom_console :: "nat \<Rightarrow> console" where
  "bottom_console k = (let c = terminal_init (bss_console (\<lambda>_. 0)) in
     c\<lparr>state := (state c)\<lparr>terminal_row := 24, terminal_column := of_nat k, head := 0x2000FA4\<rparr>,
       left := (\<lambda>_. 2000)\<rparr>)"

lemma bottom_console_facts:
  "k < 80 \<Longrightarrow> cursor_at (bottom_console k) 24 k" "terminal_buffer (state (bottom_console k)) = Vga"
  "is_current (bottom_console k)" "head (state (bottom_console k)) = 0x2000FA4"
  "left (bottom_console k) = (\<lambda>_. 2000)"
  using terminal_init_facts(2,3) by (simp_all add: bottom_console_def Let_def cursor_at_def)

theorem newline_saves_screen_witness:
  "\<exists>c'. terminal_put_char drained_hw bsr 10 (bottom_console 5) = Ret c' \<and> cursor_at c' 0 2 \<and> left c' 0x2000FA4 = 0"
  using newline_saves_screen [OF drained_hw_drains, of "bottom_console 5" 5 bsr] bottom_console_facts [of 5] by auto

theorem wrap_loses_screen_witness:
  "\<exists>c'. terminal_put_char drained_hw bsr 65 (bottom_console 79) = Ret c' \<and> cursor_at c' 0 0 \<and> left c' 0x2000FA4 = 2000"
  using wrap_loses_screen [OF drained_hw_drains, of "bottom_console 79" 65 bsr] bottom_console_facts [of 79]
  by (auto simp: printable_def)

section \<open>Messages of the kernel\<close>

text \<open>
  A call of printk with a literal as its format: the literal and printk's local buffer lie in memory
  of their own, which the call leaves behind.
\<close>

abbreviation LITERAL :: addr where "LITERAL \<equiv> 0xC0101000"
abbreviation PRINTK_BUFFER :: addr where "PRINTK_BUFFER \<equiv> 0xC0102000"

definition chars :: "string \<Rightarrow> u8 list" where
  "chars s = map of_char s"

definition kprint :: "hw \<Rightarrow> (u32 \<Rightarrow> u32) \<Rightarrow> string \<Rightarrow> u32 list \<Rightarrow> console \<Rightarrow> console run" where
  "kprint hw lz fmt args c =
     run_bind (printk hw lz PRINTK_BUFFER (write_bytes (\<lambda>_. 0) LITERAL (chars fmt)) LITERAL args c)
       (\<lambda>(m, c'). Ret c')"

text \<open>The text of a number printed with %d.\<close>

definition decimal :: "i32 \<Rightarrow> u8 list" where
  "decimal v = (if sint v < 0 then 45 # number_text 10 (unat (- v)) else number_text 10 (unat v))"

lemma itoa_decimal:
  assumes room: "unat str + 34 < 2 ^ 32"
  shows "\<exists>m' p. itoa m v str 10 = Ret (m', p) \<and> cstr m' str (decimal v) \<and> (\<forall>a. 33 < unat (a - str) \<longrightarrow> m' a = m a)"
proof (cases "sint v < 0")
  case False
  obtain m' where m': "uitoa m v str 10 = Ret (m', str)" "cstr m' str (number_text 10 (unat v))"
    "\<forall>a. length (number_text 10 (unat v)) < unat (a - str) \<longrightarrow> m' a = m a"
    using uitoa_text [of 10 str m v] room by auto
  moreover have "length (number_text 10 (unat v)) \<le> 32" using number_text_length [of 10 v] by simp
  ultimately show ?thesis using False by (auto simp: itoa_def decimal_def)
next
  case True
  have succ: "unat (str + 1) = unat str + 1" using room by (intro unat_Suc_add) simp
  obtain m' where m': "uitoa (m(str := 45)) (- v) (str + 1) 10 = Ret (m', str + 1)"
      "cstr m' (str + 1) (number_text 10 (unat (- v)))"
    and rest: "\<forall>a. length (number_text 10 (unat (- v))) < unat (a - (str + 1)) \<longrightarrow> m' a = (m(str := 45)) a"
    using uitoa_text [of 10 "str + 1" "m(str := 45)" "- v"] room succ by auto
  have len: "length (number_text 10 (unat (- v))) \<le> 32" using number_text_length [of 10 "- v"] by simp
  have "unat (str - (str + 1)) = 2 ^ 32 - 1" by (simp add: unsigned_minus_1_eq_mask mask_eq_exp_minus_1)
  then have "m' str = 45" using rest len by simp
  moreover have "m' a = m a" if "33 < unat (a - str)" for a
  proof -
    have "a \<noteq> str" using that by auto
    then show ?thesis using unat_diff_Suc [of a str] that rest len by simp
  qed
  ultimately show ?thesis using True m' by (auto simp: itoa_def decimal_def)
qed

text \<open>Characters that are not directives are printed as they are.\<close>

lemma printk_loop_plain:
  assumes "\<forall>i < length xs. m (p + of_nat i) = xs ! i" and "\<forall>x \<in> set xs. x \<noteq> 0 \<and> x \<noteq> 37"
  shows "printk_loop hw lz sp w args p m c =
    run_bind (put_chars hw lz xs c) (printk_loop hw lz sp w args (p + of_nat (length xs)) m)"
  using assms
proof (induction xs arbitrary: p c)
  case (Cons x xs)
  have x: "m p = x" "x \<noteq> 0" "x \<noteq> 37" using Cons.prems by auto
  have "\<forall>i < length xs. m (p + 1 + of_nat i) = xs ! i"
  proof (intro allI impI)
    fix i assume "i < length xs"
    then show "m (p + 1 + of_nat i) = xs ! i"
      using Cons.prems(1) [rule_format, of "Suc i"] by (simp add: add.assoc)
  qed
  note IH = Cons.IH [OF this]
  have "printk_loop hw lz sp w args p m c =
      run_bind (terminal_put_char hw lz x c) (printk_loop hw lz sp w args (p + 1) m)"
    by (subst printk_loop.simps) (simp add: x)
  also have "\<dots> = run_bind (terminal_put_char hw lz x c) (\<lambda>c'. run_bind (put_chars hw lz xs c')
      (printk_loop hw lz sp w args (p + 1 + of_nat (length xs)) m))"
    using Cons.prems(2) by (intro run_bind_cong refl IH) simp
  finally show ?case by (simp add: run_bind_assoc add.assoc)
qed simp

lemma printk_loop_text:
  assumes "\<forall>i < length xs. m (p + of_nat i) = xs ! i" and "m (p + of_nat (length xs)) = 0"
    and "\<forall>x \<in> set xs. x \<noteq> 0 \<and> x \<noteq> 37"
  shows "printk_loop hw lz sp w args p m c = run_bind (put_chars hw lz xs c) (\<lambda>c'. Ret (m, c'))"
  unfolding printk_loop_plain [OF assms(1,3)]
  by (rule run_bind_cong [OF refl], subst printk_loop.simps) (simp add: assms(2))

lemma printk_loop_decimal:
  assumes "m p = 37" and "m (p + 1) = 100" and sp: "unat sp + 34 < 2 ^ 32"
  shows "\<exists>m'. (\<forall>a. 33 < unat (a - sp) \<longrightarrow> m' a = m a) \<and>
    (\<forall>c. printk_loop hw lz sp w (v # args) p m c =
      run_bind (put_chars hw lz (decimal v) c) (printk_loop hw lz sp w args (p + 2) m'))"
proof -
  obtain m' q where m': "itoa m v sp 10 = Ret (m', q)" "cstr m' sp (decimal v)" "\<forall>a. 33 < unat (a - sp) \<longrightarrow> m' a = m a"
    using itoa_decimal [OF sp] by blast
  have "skip_width m (p + 1) 0 = Some (p + 1, 0)" by (subst skip_width.simps) (simp add: assms(2))
  moreover have "get_width m (p + 1) = Some 0"
    unfolding get_width_def by (subst get_width_loop.simps) (simp add: assms(2))
  ultimately have "printk_loop hw lz sp w (v # args) p m c =
      run_bind (put_chars hw lz (decimal v) c) (printk_loop hw lz sp w args (p + 2) m')" for c
    using m'(1) put_string_chars [OF m'(2)]
    by (subst printk_loop.simps)
      (simp add: assms(1,2) printk_directive_def va_arg_def print_number_def run_bind_assoc add.assoc)
  then show ?thesis using m'(3) by blast
qed

text \<open>A message without directives, and one with a single number in it.\<close>

definition plain_text :: "u8 list \<Rightarrow> bool" where
  "plain_text xs \<longleftrightarrow> (\<forall>x \<in> set xs. x \<noteq> 0 \<and> x \<noteq> 37) \<and> length xs < 100"

lemma literal_bytes:
  "i < 300 \<Longrightarrow> length xs \<le> 300 \<Longrightarrow> write_bytes (\<lambda>_. 0) LITERAL xs (LITERAL + of_nat i) = (if i < length xs then xs ! i else 0)"
  using write_bytes_apply [of xs "\<lambda>_. 0" LITERAL "LITERAL + of_nat i"] by (simp add: unat_of_nat)

lemma kprint_plain:
  assumes "plain_text (chars fmt)"
  shows "kprint hw lz fmt args c = put_chars hw lz (chars fmt) c"
proof -
  let ?m = "write_bytes (\<lambda>_. 0) LITERAL (chars fmt)"
  have len: "length (chars fmt) < 100" using assms by (simp add: plain_text_def)
  have bytes: "?m (LITERAL + of_nat i) = (if i < length (chars fmt) then chars fmt ! i else 0)" if "i < 300" for i
    using literal_bytes [OF that, of "chars fmt"] len by simp
  have at: "\<forall>i < length (chars fmt). ?m (LITERAL + of_nat i) = chars fmt ! i" using bytes len by simp
  have fin: "?m (LITERAL + of_nat (length (chars fmt))) = 0" using bytes [of "length (chars fmt)"] len by simp
  have "printk hw lz PRINTK_BUFFER ?m LITERAL args c = run_bind (put_chars hw lz (chars fmt) c) (\<lambda>c'. Ret (?m, c'))"
    unfolding printk_def using assms by (intro printk_loop_text [OF at fin]) (auto simp: plain_text_def)
  then show ?thesis unfolding kprint_def by (simp add: run_bind_assoc)
qed

lemma kprint_decimal:
  assumes fmt: "chars fmt = xs @ [37, 100] @ ys" and p: "plain_text xs" "plain_text ys"
  shows "kprint hw lz fmt [v] c = put_chars hw lz (xs @ decimal v @ ys) c"
proof -
  let ?m = "write_bytes (\<lambda>_. 0) LITERAL (chars fmt)"
  have len: "length xs < 100" "length ys < 100" using p by (simp_all add: plain_text_def)
  have bytes: "?m (LITERAL + of_nat i) = (if i < length (chars fmt) then chars fmt ! i else 0)" if "i < 300" for i
    using literal_bytes [OF that, of "chars fmt"] len by (simp add: fmt)
  let ?p = "LITERAL + of_nat (length xs)"
  have at: "\<forall>i < length xs. ?m (LITERAL + of_nat i) = xs ! i"
  proof (intro allI impI)
    fix i assume "i < length xs"
    then show "?m (LITERAL + of_nat i) = xs ! i" using bytes [of i] len by (simp add: fmt nth_append)
  qed
  have pc: "?m ?p = 37" using bytes [of "length xs"] len by (simp add: fmt nth_append)
  have dd: "?m (?p + 1) = 100" using bytes [of "Suc (length xs)"] len by (simp add: fmt nth_append add.assoc add.commute)
  obtain m' where m': "\<forall>a. 33 < unat (a - PRINTK_BUFFER) \<longrightarrow> m' a = ?m a"
    "\<And>c'. printk_loop hw lz PRINTK_BUFFER 0 [v] ?p ?m c' =
      run_bind (put_chars hw lz (decimal v) c') (printk_loop hw lz PRINTK_BUFFER 0 [] (?p + 2) m')"
    using printk_loop_decimal [of ?m ?p PRINTK_BUFFER, OF pc dd, of hw lz 0 v "[]"] by auto
  let ?q = "?p + 2 + of_nat (length ys)"
  have far: "m' (LITERAL + of_nat i) = ?m (LITERAL + of_nat i)" if i: "i < 300" for i
  proof -
    have "LITERAL + of_nat i - PRINTK_BUFFER = (of_nat (0xFFFFF000 + i) :: u32)" by simp
    then have "unat (LITERAL + of_nat i - PRINTK_BUFFER) = 0xFFFFF000 + i" using i by (simp only: unat_of_nat) simp
    then show ?thesis using m'(1) by simp
  qed
  have at': "\<forall>i < length ys. m' (?p + 2 + of_nat i) = ys ! i"
  proof (intro allI impI)
    fix i assume i: "i < length ys"
    have "?p + 2 + of_nat i = LITERAL + of_nat (length xs + 2 + i)" by simp
    then show "m' (?p + 2 + of_nat i) = ys ! i"
      using far [of "length xs + 2 + i"] bytes [of "length xs + 2 + i"] i len by (simp only: ) (simp add: fmt nth_append)
  qed
  have "?q = LITERAL + of_nat (length xs + 2 + length ys)" by simp
  then have fin: "m' ?q = 0"
    using far [of "length xs + 2 + length ys"] bytes [of "length xs + 2 + length ys"] len by (simp only: ) (simp add: fmt)
  have ne: "\<forall>x \<in> set xs. x \<noteq> 0 \<and> x \<noteq> 37" "\<forall>x \<in> set ys. x \<noteq> 0 \<and> x \<noteq> 37" using p by (auto simp: plain_text_def)
  have tail: "printk_loop hw lz PRINTK_BUFFER 0 [] (?p + 2) m' c' = run_bind (put_chars hw lz ys c') (\<lambda>c'. Ret (m', c'))" for c'
    by (rule printk_loop_text [OF at' fin ne(2)])
  have "printk hw lz PRINTK_BUFFER ?m LITERAL [v] c =
      run_bind (put_chars hw lz xs c) (\<lambda>c. run_bind (put_chars hw lz (decimal v) c)
        (printk_loop hw lz PRINTK_BUFFER 0 [] (?p + 2) m'))"
    unfolding printk_def printk_loop_plain [OF at ne(1)] by (rule run_bind_cong [OF refl]) (simp only: m'(2))
  then show ?thesis unfolding kprint_def put_chars_append
    by (simp only: tail run_bind_assoc run_bind_simps prod.case run_bind_Ret)
qed

text \<open>A message is safe on a well-formed console.\<close>

lemma kprint_plain_safe: "console_ok lz c \<Longrightarrow> plain_text (chars fmt) \<Longrightarrow> safe hw lz (kprint hw lz fmt args c)"
  by (simp add: kprint_plain put_chars_safe)

lemma kprint_decimal_safe:
  "console_ok lz c \<Longrightarrow> chars fmt = xs @ [37, 100] @ ys \<Longrightarrow> plain_text xs \<Longrightarrow> plain_text ys \<Longrightarrow>
    safe hw lz (kprint hw lz fmt [v] c)"
  by (simp add: kprint_decimal put_chars_safe)

end
