(* ===== verification/Timer.thy ===== *)
theory Timer
  imports Libc_String Libc_List Buddy_System "HOL-Library.Sublist"
begin

text \<open>
  The software timers of kernel/timer.c: a page of entries handed out by a bitmap, and a singly
  linked queue of the entries in use, sorted by the time left. The hardware timer behind it is
  reached through two function pointers: interrupt_in programs it (the times programmed are
  logged in armed) and timer_count reads it (the value read is the parameter count).

  An entry is named by its address and its list node by the address of the node field, 12 bytes
  further on. The two callbacks the kernel has are wakeup_callback and kmain's timer_callback.
\<close>

section \<open>State\<close>

datatype callback = Wakeup_callback | Timer_callback

record timers =
  timer :: "addr \<Rightarrow> u32"
  function_callback :: "addr \<Rightarrow> callback"
  callback_arg :: "addr \<Rightarrow> u32"
  node_next :: snodes
  bit_map :: "nat \<Rightarrow> u32"
  mem_start :: addr
  slist_head :: addr
  irq_num :: u32
  wakeup_flag :: i32
  armed :: "u32 list"
  fired :: "(callback \<times> u32) list"
  pages_mem :: mem

text \<open>BITMAP_SIZE is 4096 / 16 >> 2, that is 64 words.\<close>

abbreviation BITMAP_SIZE :: nat where
  "BITMAP_SIZE \<equiv> 64"

definition tle_of :: "addr \<Rightarrow> addr" where
  "tle_of it = it - 12"

definition node_of_entry :: "addr \<Rightarrow> addr" where
  "node_of_entry e = e + 12"

lemma entry_node [simp]: "tle_of (node_of_entry e) = e" "node_of_entry (tle_of n) = n"
  by (simp_all add: tle_of_def node_of_entry_def)

lemma tle_of_inject [simp]: "tle_of a = tle_of b \<longleftrightarrow> a = b"
  by (simp add: tle_of_def)

section \<open>Counting down\<close>

definition sub_time :: "u32 \<Rightarrow> u32 \<Rightarrow> u32" where
  "sub_time passed t = (if t < passed then 0 else t - passed)"

partial_function (option) sub_timer_loop ::
    "u32 \<Rightarrow> snodes \<Rightarrow> addr \<Rightarrow> (addr \<Rightarrow> u32) \<Rightarrow> (addr \<Rightarrow> u32) option" where
  "sub_timer_loop passed nx it t =
     (if it = NULL then Some t
      else sub_timer_loop passed nx (nx it) (t(tle_of it := sub_time passed (t (tle_of it)))))"

definition queue_sub_timer :: "u32 \<Rightarrow> timers \<Rightarrow> timers run" where
  "queue_sub_timer passed s =
     run_bind (lift_run (sub_timer_loop passed (node_next s) (slist_head s) (timer s)))
       (\<lambda>t. Ret (s\<lparr>timer := t\<rparr>))"

definition queue_sub_head_time :: "u32 \<Rightarrow> timers \<Rightarrow> timers run" where
  "queue_sub_head_time count s =
     (if slist_head s \<noteq> NULL
      then queue_sub_timer (timer s (tle_of (slist_head s)) - count) s else Ret s)"

section \<open>Entries\<close>

definition allocate_new_entry :: "timers \<Rightarrow> timers \<times> addr" where
  "allocate_new_entry s =
     (case find (\<lambda>(i, zr). \<not> IS_BIT_SET (bit_map s i) (2 ^ zr)) (List.product [0..<BITMAP_SIZE] [0..<32]) of
        Some (i, zr) \<Rightarrow> (s\<lparr>bit_map := (bit_map s)(i := SET_BIT (bit_map s i) (2 ^ zr))\<rparr>,
                         mem_start s + 16 * (of_nat i * 32 + of_nat zr))
      | None \<Rightarrow> (s, NULL))"

definition queue_free :: "addr \<Rightarrow> timers \<Rightarrow> timers" where
  "queue_free entry s =
     (let diff = sdiv32 (entry - mem_start s) 16; indx = drop_bit 5 diff; b = diff AND 31
      in s\<lparr>bit_map := (bit_map s)(unat indx := bit_map s (unat indx) XOR 2 ^ unat b)\<rparr>)"

text \<open>The size passed to memset is 4096 / 16 >> 2 * 4, that is one byte.\<close>

definition timer_init :: "(u32 \<Rightarrow> u32) \<Rightarrow> u32 \<Rightarrow> timers \<Rightarrow> timers run" where
  "timer_init lz irq s =
     run_bind (kalloc lz (pages_mem s) 1) (\<lambda>(m, page).
       Ret (s\<lparr>slist_head := NULL, pages_mem := m, mem_start := page,
              bit_map := (bit_map s)(0 := bit_map s 0 AND NOT 0xFF), irq_num := irq\<rparr>))"

section \<open>The queue\<close>

partial_function (option) find_loc_loop ::
    "(addr \<Rightarrow> u32) \<Rightarrow> snodes \<Rightarrow> u32 \<Rightarrow> addr \<Rightarrow> addr \<Rightarrow> addr option" where
  "find_loc_loop t nx new_time it prev =
     (if it = NULL then Some prev
      else if new_time < t (tle_of it) then Some prev
      else find_loc_loop t nx new_time (nx it) it)"

definition queue_find_loc :: "addr \<Rightarrow> timers \<Rightarrow> addr option" where
  "queue_find_loc entry s =
     find_loc_loop (timer s) (node_next s) (timer s (tle_of entry)) (slist_head s) NULL"

definition interrupt_in :: "u32 \<Rightarrow> timers \<Rightarrow> timers" where
  "interrupt_in time s = s\<lparr>armed := armed s @ [time]\<rparr>"

definition queue_add_timer :: "u32 \<Rightarrow> addr \<Rightarrow> timers \<Rightarrow> timers run" where
  "queue_add_timer count new_entry s =
     (if new_entry \<noteq> NULL then
        run_bind (queue_sub_head_time count s) (\<lambda>s1.
          run_bind (lift_run (queue_find_loc (node_of_entry new_entry) s1)) (\<lambda>pos.
            if pos = NULL then
              (let (h', nx) = slist_insert_head (slist_head s1) (node_next s1) (node_of_entry new_entry)
               in Ret (interrupt_in (timer s1 new_entry) (s1\<lparr>slist_head := h', node_next := nx\<rparr>)))
            else Ret (s1\<lparr>node_next := slist_insert_after (node_next s1) pos (node_of_entry new_entry)\<rparr>)))
      else Ret s)"

text \<open>
  What a callback does to the timers: wakeup_callback stores its argument. timer_callback prints a
  message, which changes nothing here; the console's part of the call is timer_callback of the theory
  Interrupts, which is given the calls noted in fired.
\<close>

definition run_callback :: "callback \<Rightarrow> u32 \<Rightarrow> timers \<Rightarrow> timers" where
  "run_callback f arg s =
     (let s' = s\<lparr>fired := fired s @ [(f, arg)]\<rparr> in
      case f of Wakeup_callback \<Rightarrow> s'\<lparr>wakeup_flag := arg\<rparr> | Timer_callback \<Rightarrow> s')"

definition fire :: "addr \<Rightarrow> timers \<Rightarrow> timers" where
  "fire tle s = queue_free tle (run_callback (function_callback s tle) (callback_arg s tle) s)"

partial_function (option) handler_loop :: "addr \<Rightarrow> timers \<Rightarrow> (addr \<times> timers) option" where
  "handler_loop h s =
     (if h = NULL then Some (h, s)
      else if timer s (tle_of h) = 0 then handler_loop (node_next s h) (fire (tle_of h) s)
      else Some (h, interrupt_in (timer s (tle_of h)) s))"

definition timer_handler :: "timers \<Rightarrow> timers run" where
  "timer_handler s =
     (let h = slist_head s; tle = tle_of h in
      if h = NULL then Trap Null_deref
      else let s1 = fire tle s in
        run_bind (queue_sub_timer (timer s1 tle) s1) (\<lambda>s2.
          run_bind (lift_run (handler_loop (node_next s2 h) s2))
            (\<lambda>(h', s3). Ret (s3\<lparr>slist_head := h'\<rparr>))))"

definition new_timer :: "u32 \<Rightarrow> u32 \<Rightarrow> callback \<Rightarrow> u32 \<Rightarrow> timers \<Rightarrow> timers run" where
  "new_timer count time f arg s =
     (if time = 0 then Ret (run_callback f arg s)
      else let (s1, e) = allocate_new_entry s in
        if e = NULL then Trap Null_deref
        else queue_add_timer count e
               (s1\<lparr>timer := (timer s1)(e := time), function_callback := (function_callback s1)(e := f),
                   callback_arg := (callback_arg s1)(e := arg)\<rparr>))"

section \<open>Walking the queue\<close>

definition queued :: "timers \<Rightarrow> addr list \<Rightarrow> bool" where
  "queued s es \<longleftrightarrow> slist (node_next s) (slist_head s) (map node_of_entry es)"

lemma sub_timer_loop_slist:
  "slist nx p ns \<Longrightarrow> sub_timer_loop passed nx p t =
     Some (\<lambda>e. if node_of_entry e \<in> set ns then sub_time passed (t e) else t e)"
proof (induction ns arbitrary: p t)
  case Nil
  then show ?case by (subst sub_timer_loop.simps) simp
next
  case (Cons n ns)
  then have n: "n \<noteq> NULL" "p = n" "slist nx (nx n) ns" by auto
  have "n \<notin> set ns" using slist_distinct [OF Cons.prems] by simp
  then show ?case
    using Cons.IH [OF n(3)] n
    by (subst sub_timer_loop.simps) (auto simp: fun_eq_iff tle_of_def node_of_entry_def)
qed

lemma queue_sub_timer_queued:
  assumes "queued s es"
  shows "queue_sub_timer passed s = Ret (s\<lparr>timer := \<lambda>e. if e \<in> set es then sub_time passed (timer s e) else timer s e\<rparr>)"
proof -
  have "node_of_entry e \<in> set (map node_of_entry es) \<longleftrightarrow> e \<in> set es" for e
    by (auto simp: node_of_entry_def)
  then show ?thesis
    using sub_timer_loop_slist [OF assms [unfolded queued_def]] by (simp add: queue_sub_timer_def)
qed

lemma find_loc_slist:
  "slist nx p ns \<Longrightarrow> find_loc_loop t nx x p prev =
     Some (last (prev # takeWhile (\<lambda>n. t (tle_of n) \<le> x) ns))"
proof (induction ns arbitrary: p prev)
  case Nil
  then show ?case by (subst find_loc_loop.simps) simp
next
  case (Cons n ns)
  then show ?case by (subst find_loc_loop.simps) (auto simp: not_less)
qed

section \<open>Adding a timer\<close>

lemma unat_sub_time: "unat (sub_time p t) = unat t - unat p"
proof (cases "t < p")
  case True
  then show ?thesis by (simp add: sub_time_def word_less_nat_alt)
next
  case False
  then have "p \<le> t" by simp
  then show ?thesis using False by (simp add: sub_time_def unat_sub word_le_nat_alt)
qed

lemma sub_time_mono: "t \<le> t' \<Longrightarrow> sub_time p t \<le> sub_time p t'"
  by (simp add: word_le_nat_alt unat_sub_time diff_le_mono)

lemma sub_time_zero: "sub_time p t = 0 \<longleftrightarrow> t \<le> p"
  by (simp add: unat_eq_0 [symmetric] unat_sub_time word_le_nat_alt)

definition elapsed :: "u32 \<Rightarrow> addr list \<Rightarrow> timers \<Rightarrow> addr \<Rightarrow> u32" where
  "elapsed passed es s e = (if e \<in> set es then sub_time passed (timer s e) else timer s e)"

lemma sorted_elapsed: "sorted (map (timer s) es) \<Longrightarrow> sorted (map (elapsed p es s) es)"
proof -
  have "set xs \<subseteq> set es \<Longrightarrow> sorted (map (timer s) xs) \<Longrightarrow> sorted (map (elapsed p es s) xs)" for xs
    by (induction xs) (auto simp: elapsed_def sub_time_mono)
  then show "sorted (map (timer s) es) \<Longrightarrow> sorted (map (elapsed p es s) es)" by blast
qed

lemma takeWhile_node:
  "takeWhile (\<lambda>n. t (tle_of n) \<le> x) (map node_of_entry es) = map node_of_entry (takeWhile (\<lambda>e. t e \<le> x) es)"
  by (simp add: takeWhile_map comp_def)

text \<open>The place the new entry gets: behind every entry that is due no later.\<close>

definition inserted :: "(addr \<Rightarrow> u32) \<Rightarrow> addr \<Rightarrow> addr list \<Rightarrow> addr list" where
  "inserted t e es = takeWhile (\<lambda>x. t x \<le> t e) es @ e # dropWhile (\<lambda>x. t x \<le> t e) es"

lemma sorted_inserted: "sorted (map t es) \<Longrightarrow> sorted (map t (inserted t e es))"
proof (induction es)
  case Nil
  then show ?case by (simp add: inserted_def)
next
  case (Cons a es)
  show ?case
  proof (cases "t a \<le> t e")
    case True
    have "set (inserted t e es) = insert e (set es)"
      unfolding inserted_def by (metis list.simps(15) set_append takeWhile_dropWhile_id Un_insert_right)
    then show ?thesis using Cons True by (auto simp: inserted_def)
  next
    case False
    then show ?thesis using Cons.prems by (auto simp: inserted_def intro: order_trans less_imp_le)
  qed
qed

lemma elapsed_Nil [simp]: "elapsed p [] s = timer s"
  by (rule ext) (simp add: elapsed_def)

lemma queue_sub_head_time_queued:
  assumes "queued s es"
  shows "queue_sub_head_time count s =
    Ret (s\<lparr>timer := elapsed (if es = [] then 0 else timer s (hd es) - count) es s\<rparr>)"
proof (cases es)
  case Nil
  then have "slist_head s = NULL" using assms by (simp add: queued_def)
  then show ?thesis using Nil by (simp add: queue_sub_head_time_def)
next
  case (Cons e es')
  then have h: "slist_head s = node_of_entry e" "slist_head s \<noteq> NULL"
    using assms by (auto simp: queued_def)
  then show ?thesis
    using queue_sub_timer_queued [OF assms] Cons
    by (simp add: queue_sub_head_time_def elapsed_def [abs_def])
qed

lemma queued_not_null: "queued s es \<Longrightarrow> e \<in> set es \<Longrightarrow> node_of_entry e \<noteq> NULL"
  unfolding queued_def using chain_nonnull by fastforce

lemma queue_insert:
  assumes q: "queued s es" and e: "e \<notin> set es" "node_of_entry e \<noteq> NULL"
    and split: "es = xs @ ys"
  shows "xs = [] \<Longrightarrow> queued (s\<lparr>slist_head := fst (slist_insert_head (slist_head s) (node_next s) (node_of_entry e)),
      node_next := snd (slist_insert_head (slist_head s) (node_next s) (node_of_entry e))\<rparr>) (xs @ e # ys)"
    and "xs \<noteq> [] \<Longrightarrow> queued (s\<lparr>node_next := slist_insert_after (node_next s) (node_of_entry (last xs)) (node_of_entry e)\<rparr>)
      (xs @ e # ys)"
proof -
  have new: "node_of_entry e \<notin> set (map node_of_entry es)" using e(1) by (auto simp: node_of_entry_def)
  show "queued (s\<lparr>slist_head := fst (slist_insert_head (slist_head s) (node_next s) (node_of_entry e)),
      node_next := snd (slist_insert_head (slist_head s) (node_next s) (node_of_entry e))\<rparr>) (xs @ e # ys)"
    if "xs = []"
    using slist_insert_head_chain [OF q [unfolded queued_def] new e(2)] that split by (simp add: queued_def)
  show "queued (s\<lparr>node_next := slist_insert_after (node_next s) (node_of_entry (last xs)) (node_of_entry e)\<rparr>)
      (xs @ e # ys)" if ne: "xs \<noteq> []"
  proof -
    have eq: "map node_of_entry es = map node_of_entry (butlast xs) @ node_of_entry (last xs) # map node_of_entry ys"
      using ne split by (metis append.assoc append_Cons append_butlast_last_id append_self_conv2 list.simps(9) map_append)
    have eq2: "map node_of_entry (xs @ e # ys) =
        map node_of_entry (butlast xs) @ node_of_entry (last xs) # node_of_entry e # map node_of_entry ys"
      using ne by (metis append.assoc append_Cons append_butlast_last_id append_self_conv2 list.simps(9) map_append)
    show ?thesis
      using slist_insert_after_chain [of "node_next s" "slist_head s"] q new e(2)
      unfolding queued_def eq eq2 by simp
  qed
qed

lemma add_timer_sound:
  fixes count :: u32
  assumes q: "queued s es" and srt: "sorted (map (timer s) es)"
    and e: "e \<notin> set es" "e \<noteq> NULL" "node_of_entry e \<noteq> NULL"
  defines "t \<equiv> elapsed (if es = [] then 0 else timer s (hd es) - count) es s"
  shows "\<exists>s'. queue_add_timer count e s = Ret s' \<and> timer s' = t \<and>
    queued s' (inserted t e es) \<and> sorted (map (timer s') (inserted t e es)) \<and>
    armed s' = armed s @ (if hd (inserted t e es) = e then [timer s e] else []) \<and>
    bit_map s' = bit_map s \<and> fired s' = fired s \<and> mem_start s' = mem_start s"
proof -
  let ?s1 = "s\<lparr>timer := t\<rparr>"
  have te: "t e = timer s e" using e(1) by (simp add: t_def elapsed_def)
  have sub: "queue_sub_head_time count s = Ret ?s1"
    using queue_sub_head_time_queued [OF q] by (simp add: t_def)
  have q1: "queued ?s1 es" using q by (simp add: queued_def)
  let ?xs = "takeWhile (\<lambda>x. t x \<le> t e) es" and ?ys = "dropWhile (\<lambda>x. t x \<le> t e) es"
  have loc: "queue_find_loc (node_of_entry e) ?s1 = Some (last (NULL # map node_of_entry ?xs))"
    using find_loc_slist [OF q1 [unfolded queued_def]]
    by (simp add: queue_find_loc_def takeWhile_node)
  have srt': "sorted (map t (inserted t e es))"
    using sorted_inserted sorted_elapsed [OF srt] by (simp add: t_def)
  have hd: "hd (inserted t e es) = e \<longleftrightarrow> ?xs = []"
  proof
    assume h: "hd (inserted t e es) = e"
    show "?xs = []"
    proof (rule ccontr)
      assume ne: "?xs \<noteq> []"
      then have "hd ?xs = e" using h by (simp add: inserted_def)
      then show False using ne e(1) by (metis hd_in_set set_takeWhileD)
    qed
  qed (simp add: inserted_def)
  show ?thesis
  proof (cases "?xs = []")
    case True
    have "?ys = es" using True takeWhile_dropWhile_id [of "\<lambda>x. t x \<le> t e" es] by simp
    then have ins: "inserted t e es = e # es" using True by (simp add: inserted_def)
    show ?thesis
      using queue_insert(1) [OF q1 e(1,3), of "[]" es] sub loc e(2) te srt' True
      unfolding ins by (simp add: queue_add_timer_def queued_def interrupt_in_def slist_insert_head_def)
  next
    case False
    then have "last (NULL # map node_of_entry ?xs) = node_of_entry (last ?xs)"
      by (simp add: last_map)
    moreover have "node_of_entry (last ?xs) \<noteq> NULL"
      using queued_not_null [OF q1] False by (metis last_in_set set_takeWhileD)
    ultimately show ?thesis
      using queue_insert(2) [OF q1 e(1,3), of ?xs ?ys] False sub loc e(2) te srt' hd
      by (simp add: queue_add_timer_def inserted_def)
  qed
qed

text \<open>
  C9: queue_add_timer on a sorted queue: the time the head has been running is taken off every
  entry (never below 0), the new entry goes behind all entries due no later, so the queue stays
  sorted and entries with equal times keep their order; the hardware is reprogrammed exactly
  when the new entry is the first to expire.
\<close>
theorem queue_add_timer_sorted:
  fixes count :: u32
  assumes q: "queued s es" and srt: "sorted (map (timer s) es)"
    and e: "e \<notin> set es" "e \<noteq> NULL" "node_of_entry e \<noteq> NULL"
  defines "t \<equiv> elapsed (if es = [] then 0 else timer s (hd es) - count) es s"
  shows "\<exists>s'. queue_add_timer count e s = Ret s' \<and> timer s' = t \<and>
    queued s' (inserted t e es) \<and> sorted (map (timer s') (inserted t e es)) \<and>
    armed s' = armed s @ (if hd (inserted t e es) = e then [timer s e] else []) \<and>
    bit_map s' = bit_map s \<and> fired s' = fired s"
  unfolding t_def using add_timer_sound [OF q srt e] by blast

section \<open>The interrupt\<close>

lemma fire_fields [simp]:
  "timer (fire e s) = timer s" "node_next (fire e s) = node_next s" "slist_head (fire e s) = slist_head s"
  "function_callback (fire e s) = function_callback s" "callback_arg (fire e s) = callback_arg s"
  "armed (fire e s) = armed s" "mem_start (fire e s) = mem_start s"
  "fired (fire e s) = fired s @ [(function_callback s e, callback_arg s e)]"
  by (simp_all add: fire_def queue_free_def run_callback_def Let_def split: callback.splits)

lemma fold_fire_fields [simp]:
  "timer (fold fire es s) = timer s" "node_next (fold fire es s) = node_next s"
  "slist_head (fold fire es s) = slist_head s" "armed (fold fire es s) = armed s"
  "mem_start (fold fire es s) = mem_start s"
  "fired (fold fire es s) = fired s @ map (\<lambda>e. (function_callback s e, callback_arg s e)) es"
  by (induction es arbitrary: s) auto

lemma handler_loop_slist:
  "slist (node_next s) p (map node_of_entry es) \<Longrightarrow>
    handler_loop p s = Some (
      let due = takeWhile (\<lambda>e. timer s e = 0) es; rest = dropWhile (\<lambda>e. timer s e = 0) es;
          s' = fold fire due s
      in case rest of [] \<Rightarrow> (NULL, s')
         | r # _ \<Rightarrow> (node_of_entry r, interrupt_in (timer s r) s'))"
proof (induction es arbitrary: p s)
  case Nil
  then show ?case by (subst handler_loop.simps) simp
next
  case (Cons e es)
  then have p: "p = node_of_entry e" "p \<noteq> NULL" by auto
  show ?case
  proof (cases "timer s e = 0")
    case True
    have "slist (node_next (fire e s)) (node_next s p) (map node_of_entry es)"
      using Cons.prems p by simp
    from Cons.IH [OF this] show ?thesis
      using True p by (subst handler_loop.simps) (simp add: Let_def split: list.splits del: dropWhile_eq_Nil_conv)
  next
    case False
    then show ?thesis using p by (subst handler_loop.simps) (simp add: Let_def)
  qed
qed

lemma slist_dropWhile:
  "slist nx p (map f es) \<Longrightarrow> dropWhile P es = r # rs \<Longrightarrow> slist nx (f r) (map f (r # rs))"
proof -
  assume l: "slist nx p (map f es)" and d: "dropWhile P es = r # rs"
  have "map f es = map f (takeWhile P es) @ map f (r # rs)"
    by (metis d map_append takeWhile_dropWhile_id)
  then show ?thesis using l by (auto simp: chain_append)
qed

lemma bit_map_fold_fire: "bit_map (fold fire es (s\<lparr>timer := t\<rparr>)) = bit_map (fold fire es s)"
proof -
  have step: "fire e (s\<lparr>timer := t\<rparr>) = (fire e s)\<lparr>timer := t\<rparr>" for e s
    by (simp add: fire_def queue_free_def run_callback_def Let_def split: callback.splits)
  have "fold fire es (s\<lparr>timer := t\<rparr>) = (fold fire es s)\<lparr>timer := t\<rparr>"
    by (induction es arbitrary: s) (simp_all add: step)
  then show ?thesis by simp
qed

lemma handler_sound:
  assumes q: "queued s (e # es)" and srt: "sorted (map (timer s) (e # es))"
  defines "t \<equiv> elapsed (timer s e) (e # es) s"
    and "due \<equiv> takeWhile (\<lambda>x. timer s x \<le> timer s e) (e # es)"
    and "rest \<equiv> dropWhile (\<lambda>x. timer s x \<le> timer s e) (e # es)"
  shows "\<exists>s'. timer_handler s = Ret s' \<and> timer s' = t \<and> queued s' rest \<and> sorted (map t rest) \<and>
    fired s' = fired s @ map (\<lambda>x. (function_callback s x, callback_arg s x)) due \<and>
    armed s' = armed s @ (case rest of [] \<Rightarrow> [] | r # _ \<Rightarrow> [timer s r - timer s e]) \<and>
    bit_map s' = bit_map (fold fire due s) \<and> mem_start s' = mem_start s"
proof -
  have h: "slist_head s = node_of_entry e" "slist_head s \<noteq> NULL"
    and tail: "slist (node_next s) (node_next s (slist_head s)) (map node_of_entry es)"
    using q by (auto simp: queued_def)
  let ?s1 = "fire e s"
  have q1: "queued ?s1 (e # es)" using q by (simp add: queued_def)
  have t': "(\<lambda>x. if x \<in> set (e # es) then sub_time (timer s e) (timer s x) else timer s x) = t"
    by (simp add: t_def elapsed_def [abs_def])
  let ?s2 = "?s1\<lparr>timer := t\<rparr>"
  have sub: "queue_sub_timer (timer ?s1 e) ?s1 = Ret ?s2"
    using queue_sub_timer_queued [OF q1, of "timer s e"] unfolding fire_fields t' .
  have zero: "t x = 0 \<longleftrightarrow> timer s x \<le> timer s e" if "x \<in> set (e # es)" for x
    using that by (simp add: t_def elapsed_def sub_time_zero)
  have tw: "takeWhile (\<lambda>x. t x = 0) es = takeWhile (\<lambda>x. timer s x \<le> timer s e) es"
    "dropWhile (\<lambda>x. t x = 0) es = dropWhile (\<lambda>x. timer s x \<le> timer s e) es"
    using zero by (auto intro!: takeWhile_cong dropWhile_cong)
  have due: "due = e # takeWhile (\<lambda>x. timer s x \<le> timer s e) es"
    and rest: "rest = dropWhile (\<lambda>x. timer s x \<le> timer s e) es"
    by (simp_all add: due_def rest_def)
  have loop: "handler_loop (node_next ?s2 (slist_head s)) ?s2 = Some (
      case rest of [] \<Rightarrow> (NULL, fold fire (tl due) ?s2)
      | r # _ \<Rightarrow> (node_of_entry r, interrupt_in (t r) (fold fire (tl due) ?s2)))"
    using handler_loop_slist [of ?s2 "node_next ?s2 (slist_head s)" es] tail
    by (simp add: tw due rest Let_def split: list.splits del: dropWhile_eq_Nil_conv)
  have "sorted (map t (e # es))" using sorted_elapsed [OF srt] by (simp add: t_def)
  moreover have "suffix rest es" by (simp add: rest suffix_dropWhile)
  then obtain zs where zs: "es = zs @ rest" by (auto simp: suffix_def)
  ultimately have srt': "sorted (map t rest)" by (auto simp: sorted_append)
  have eq: "timer_handler s = run_bind (Ret (case rest of [] \<Rightarrow> (NULL, fold fire (tl due) ?s2)
      | r # _ \<Rightarrow> (node_of_entry r, interrupt_in (t r) (fold fire (tl due) ?s2))))
      (\<lambda>(h', s3). Ret (s3\<lparr>slist_head := h'\<rparr>))"
    unfolding timer_handler_def Let_def using h sub loop by simp
  have bm: "bit_map (fold fire (tl due) ?s2) = bit_map (fold fire due s)"
    using due by (simp add: bit_map_fold_fire)
  show ?thesis
  proof (cases rest)
    case Nil
    then show ?thesis using eq srt' due bm by (simp add: queued_def)
  next
    case (Cons r rs)
    then have "r \<in> set es" using zs by auto
    moreover from this have "\<not> timer s r \<le> timer s e"
      using Cons hd_dropWhile [of "\<lambda>x. timer s x \<le> timer s e" es] unfolding rest by simp
    ultimately have tr: "t r = timer s r - timer s e"
      by (auto simp: t_def elapsed_def sub_time_def not_le)
    have "slist (node_next s) (node_of_entry r) (map node_of_entry (r # rs))"
      by (rule slist_dropWhile [OF tail]) (use Cons rest in simp)
    then show ?thesis
      using eq srt' due Cons tr bm by (simp add: queued_def interrupt_in_def)
  qed
qed

text \<open>
  C8: when the hardware timer fires, timer_handler on a sorted, non-empty queue runs the
  callbacks of exactly the entries that are due with the first one, in queue order, takes the
  first one's time off all others, leaves the others queued in their order and programs the
  hardware for the next one, or not at all when none is left.
\<close>
theorem timer_handler_correct:
  assumes q: "queued s (e # es)" and srt: "sorted (map (timer s) (e # es))"
  defines "t \<equiv> elapsed (timer s e) (e # es) s"
    and "due \<equiv> takeWhile (\<lambda>x. timer s x \<le> timer s e) (e # es)"
    and "rest \<equiv> dropWhile (\<lambda>x. timer s x \<le> timer s e) (e # es)"
  shows "\<exists>s'. timer_handler s = Ret s' \<and> timer s' = t \<and> queued s' rest \<and> sorted (map t rest) \<and>
    fired s' = fired s @ map (\<lambda>x. (function_callback s x, callback_arg s x)) due \<and>
    armed s' = armed s @ (case rest of [] \<Rightarrow> [] | r # _ \<Rightarrow> [timer s r - timer s e])"
  using handler_sound [OF q srt] unfolding t_def due_def rest_def by blast

section \<open>The entries of the page\<close>

definition entry_used :: "timers \<Rightarrow> nat \<Rightarrow> bool" where
  "entry_used s n = bit (bit_map s (n div 32)) (n mod 32)"

definition mark_entry :: "timers \<Rightarrow> nat \<Rightarrow> bool \<Rightarrow> timers" where
  "mark_entry s n b = s\<lparr>bit_map := (bit_map s)(n div 32 :=
     (if b then SET_BIT else CLEAR_BIT) (bit_map s (n div 32)) (2 ^ (n mod 32)))\<rparr>"

interpretation entries: bitmap entry_used mark_entry 2048
proof
  fix n k :: nat and s b
  have "k = n \<longleftrightarrow> n div 32 = k div 32 \<and> n mod 32 = k mod 32" by (metis div_mult_mod_eq)
  then show "entry_used (mark_entry s n b) k = (if k = n then b else entry_used s k)"
    by (cases "n div 32 = k div 32") (auto simp: entry_used_def mark_entry_def bit_view)
qed

lemma product_upt:
  "0 < m \<Longrightarrow> List.product [0..<k] [0..<m] = map (\<lambda>n. (n div m, n mod m)) [0..<k * m]"
proof (induction k)
  case (Suc k)
  have "map (\<lambda>n. (n div m, n mod m)) [k * m..<k * m + m] = map (Pair k) [0..<m]"
    using Suc.prems by (intro nth_equalityI) auto
  moreover have "[0..<Suc k * m] = [0..<k * m] @ [k * m..<k * m + m]"
    by (metis add.commute mult_Suc upt_add_eq_append zero_le)
  moreover have "List.product [0..<Suc k] [0..<m] = List.product [0..<k] [0..<m] @ map (Pair k) [0..<m]"
    by (simp add: product_concat_map)
  ultimately show ?case using Suc by simp
qed simp

lemma find_map: "find P (map f xs) = map_option f (find (P \<circ> f) xs)"
  by (induction xs) auto

lemma find_upt_least:
  "find P [0..<n] = (if \<exists>k < n. P k then Some (LEAST k. P k) else None)"
proof (cases "\<exists>k < n. P k")
  case True
  then obtain k where "find P [0..<n] = Some k"
    by (metis atLeast0LessThan atLeast_upt find_None_iff lessThan_iff not_None_eq)
  then obtain i where i: "i < n" "P i" "k = i" "\<forall>j < i. \<not> P j"
    by (auto simp: find_Some_iff)
  then have "(LEAST k. P k) = k" by (intro Least_equality) (auto simp: not_less [symmetric])
  then show ?thesis using True \<open>find P [0..<n] = Some k\<close> by simp
next
  case False
  then show ?thesis by (auto simp: find_None_iff)
qed

lemma allocate_search:
  "allocate_new_entry s =
    (if \<exists>n < 2048. \<not> entry_used s n
     then (let n = LEAST n. \<not> entry_used s n in (mark_entry s n True, mem_start s + 16 * of_nat n))
     else (s, NULL))"
proof -
  define P where "P = (\<lambda>(i, zr). \<not> IS_BIT_SET (bit_map s i) (2 ^ zr))"
  have prod: "List.product [0..<BITMAP_SIZE] [0..<32] = map (\<lambda>n. (n div 32, n mod 32)) [0..<2048]"
    using product_upt [of 32 64] by simp
  have "P \<circ> (\<lambda>n. (n div 32, n mod 32)) = (\<lambda>n. \<not> entry_used s n)"
    by (auto simp: P_def entry_used_def bit_view fun_eq_iff)
  then have f: "find P (List.product [0..<BITMAP_SIZE] [0..<32]) =
      map_option (\<lambda>n. (n div 32, n mod 32)) (if \<exists>n < 2048. \<not> entry_used s n then Some (LEAST n. \<not> entry_used s n) else None)"
    unfolding prod find_map by (simp add: find_upt_least)
  have idx: "(of_nat (n div 32) :: u32) * 32 + of_nat (n mod 32) = of_nat n" for n
    by (metis div_mult_mod_eq of_nat_add of_nat_mult of_nat_numeral)
  show ?thesis
    unfolding allocate_new_entry_def P_def [symmetric] f
    by (cases "\<exists>n < 2048. \<not> entry_used s n")
      (auto simp add: Let_def mark_entry_def idx simp del: distrib_left_numeral)
qed

lemma queue_free_mark:
  assumes "n < 2048"
  shows "queue_free (mem_start s + 16 * of_nat n) s = mark_entry s n (\<not> entry_used s n)"
proof -
  have "sdiv32 (of_nat (16 * n)) (of_nat 16) = of_nat (16 * n div 16)"
    using assms by (intro sdiv32_small) simp_all
  then have diff: "sdiv32 (mem_start s + 16 * of_nat n - mem_start s) 16 = of_nat n" by simp
  have u: "unat (of_nat n :: u32) = n" using assms by (simp add: unat_of_nat)
  have i: "unat (drop_bit 5 (of_nat n :: u32)) = n div 32"
    by (simp only: unat_drop_bit_eq u) (simp add: drop_bit_eq_div)
  have b: "unat ((of_nat n :: u32) AND 31) = n mod 32" by (rule and31)
  have x: "w XOR 2 ^ k = (if bit w k then CLEAR_BIT w (2 ^ k) else SET_BIT w (2 ^ k))"
    if "k < 32" for w :: u32 and k
    using that by (intro bit_word_eqI) (auto simp: bit_view bit_xor_iff)
  show ?thesis
    unfolding queue_free_def Let_def diff i b
    by (simp add: mark_entry_def entry_used_def x)
qed

text \<open>
  allocate_new_entry hands out the free entry with the lowest number and marks it, and no
  other; freeing it gives the bitmap back. With all of the bitmap's 2048 bits set it returns NULL.
\<close>
theorem allocate_free_entry:
  assumes "\<exists>n < 2048. \<not> entry_used s n"
  shows "\<exists>n s'. n < 2048 \<and> \<not> entry_used s n \<and> (\<forall>k < n. entry_used s k) \<and>
    allocate_new_entry s = (s', mem_start s + 16 * of_nat n) \<and>
    (\<forall>k < 2048. entry_used s' k = (k = n \<or> entry_used s k)) \<and>
    (\<forall>k < 2048. entry_used (queue_free (mem_start s + 16 * of_nat n) s') k = entry_used s k)"
proof -
  let ?n = "LEAST n. \<not> entry_used s n"
  obtain n where n: "n < 2048" "\<not> entry_used s n" using assms by blast
  have l: "\<not> entry_used s ?n" "?n \<le> n" by (rule LeastI [of "\<lambda>n. \<not> entry_used s n", OF n(2)], rule Least_le [of "\<lambda>n. \<not> entry_used s n", OF n(2)])
  have less: "\<forall>k < ?n. entry_used s k" using not_less_Least by blast
  have n2: "?n < 2048" using l(2) n(1) by simp
  let ?s = "mark_entry s ?n True"
  have ms: "mem_start ?s = mem_start s" by (simp add: mark_entry_def)
  have set: "entry_used ?s k = (k = ?n \<or> entry_used s k)" if "k < 2048" for k
    using entries.view_put [OF n2 that] by auto
  have "queue_free (mem_start s + 16 * of_nat ?n) ?s = mark_entry ?s ?n False"
    using queue_free_mark [OF n2, of ?s] set [OF n2] by (simp add: ms)
  then have free: "entry_used (queue_free (mem_start s + 16 * of_nat ?n) ?s) k = entry_used s k"
    if "k < 2048" for k
    using entries.put_restore [OF n2 that, of s False True] l(1) by simp
  have "allocate_new_entry s = (?s, mem_start s + 16 * of_nat ?n)"
    using assms by (simp add: allocate_search Let_def)
  then show ?thesis using n2 l(1) less set free by blast
qed

text \<open>
  The bitmap has 2048 bits but the page behind it holds 256 entries: with the first 256
  entries in use, the next timer gets an entry at or beyond the end of the page.
\<close>
theorem entries_leave_page:
  assumes "\<forall>n < 256. entry_used s n" and "\<exists>n < 2048. \<not> entry_used s n"
    and "unat (mem_start s) + 32768 \<le> 2 ^ 32"
  shows "\<exists>s' e. allocate_new_entry s = (s', e) \<and> unat (mem_start s) + 4096 \<le> unat e"
proof -
  let ?n = "LEAST n. \<not> entry_used s n"
  obtain n where n: "n < 2048" "\<not> entry_used s n" using assms(2) by blast
  have l: "\<not> entry_used s ?n" "?n \<le> n" by (rule LeastI [of "\<lambda>n. \<not> entry_used s n", OF n(2)], rule Least_le [of "\<lambda>n. \<not> entry_used s n", OF n(2)])
  then have r: "256 \<le> ?n" "?n < 2048" using assms(1) n(1) by (auto simp: not_less [symmetric])
  have "unat (mem_start s + of_nat (16 * ?n)) = unat (mem_start s) + 16 * ?n"
    using assms(3) r by (intro unat_add_of_nat) simp
  then show ?thesis using r assms(2) by (simp add: allocate_search Let_def)
qed

section \<open>Witnesses\<close>

text \<open>Two timers, due in 5 and in 9, a third entry prepared with 7.\<close>

definition two_timers :: timers where
  "two_timers = \<lparr>timer = (\<lambda>e. if e = 0x2000000 then 5 else if e = 0x2000010 then 9 else 7),
     function_callback = (\<lambda>_. Wakeup_callback), callback_arg = (\<lambda>_. 1),
     node_next = (\<lambda>n. if n = 0x200000C then 0x200001C else 0),
     bit_map = (\<lambda>i. if i = 0 then 7 else 0), mem_start = 0x2000000, slist_head = 0x200000C, irq_num = 16,
     wakeup_flag = 0, armed = [5], fired = [], pages_mem = (\<lambda>_. 0)\<rparr>"

lemma two_timers_facts:
  "queued two_timers [0x2000000, 0x2000010]" "sorted (map (timer two_timers) [0x2000000, 0x2000010])"
  by (simp_all add: queued_def two_timers_def node_of_entry_def)

theorem queue_add_timer_sorted_witness:
  "\<exists>s'. queue_add_timer 2 0x2000020 two_timers = Ret s' \<and>
     queued s' [0x2000000, 0x2000010, 0x2000020] \<and> armed s' = [5]"
proof -
  have "elapsed 3 [0x2000000, 0x2000010] two_timers 0x2000000 = 2"
    "elapsed 3 [0x2000000, 0x2000010] two_timers 0x2000010 = 6"
    "elapsed 3 [0x2000000, 0x2000010] two_timers 0x2000020 = 7"
    by (simp_all add: elapsed_def sub_time_def two_timers_def)
  then have "inserted (elapsed 3 [0x2000000, 0x2000010] two_timers) 0x2000020 [0x2000000, 0x2000010] =
      [0x2000000, 0x2000010, 0x2000020]" by (simp add: inserted_def)
  then show ?thesis
    using queue_add_timer_sorted [OF two_timers_facts, where e = "0x2000020" and count = 2]
    by (auto simp: two_timers_def node_of_entry_def)
qed

theorem timer_handler_correct_witness:
  "\<exists>s'. timer_handler two_timers = Ret s' \<and> queued s' [0x2000010] \<and>
     fired s' = [(Wakeup_callback, 1)] \<and> armed s' = [5, 4]"
  using timer_handler_correct [OF two_timers_facts] by (auto simp: two_timers_def)

theorem allocate_free_entry_witness:
  "\<exists>n s'. allocate_new_entry two_timers = (s', 0x2000000 + 16 * of_nat n) \<and>
     (\<forall>k < n. entry_used two_timers k)"
proof -
  have "\<not> entry_used two_timers 32" by (simp add: entry_used_def two_timers_def)
  then have "\<exists>n < 2048. \<not> entry_used two_timers n" by (intro exI [of _ 32]) simp
  from allocate_free_entry [OF this] show ?thesis by (auto simp: two_timers_def)
qed

theorem entries_leave_page_witness:
  "\<exists>s' e. allocate_new_entry (two_timers\<lparr>bit_map := \<lambda>i. if i < 8 then - 1 else 0\<rparr>) = (s', e) \<and>
     0x2001000 \<le> unat e"
proof -
  let ?s = "two_timers\<lparr>bit_map := \<lambda>i. if i < 8 then - 1 else 0\<rparr>"
  have "\<forall>n < 256. entry_used ?s n" by (simp add: entry_used_def bit_minus_1_iff possible_bit_word less_mult_imp_div_less)
  moreover have "\<exists>n < 2048. \<not> entry_used ?s n" by (intro exI [of _ 256]) (simp add: entry_used_def)
  moreover have "unat (mem_start ?s) = 0x2000000" by (simp add: two_timers_def)
  ultimately show ?thesis using entries_leave_page [of ?s] by simp
qed

end
