(* ===== verification/Slab.thy ===== *)
theory Slab
  imports Libc_List Buddy_System
begin

text \<open>
  The slab allocator of kernel/memory.c (kmalloc, kzmalloc, kmfree) over byte memory, on top of
  kalloc and kballoc, and the byte-order helpers at the end of that file.

  struct mem_list_node: self.next at offset 0, free_slabs at 4, 64 bytes of bitmap at 8, then
  511 slabs of 8 bytes from 72 on. struct alloc_header: count at 0, magic at 4.
\<close>

section \<open>State and layout\<close>

record slabs =
  smem :: mem
  free_list :: addr

abbreviation SLABS_PER_BLOCK :: nat where
  "SLABS_PER_BLOCK \<equiv> 511"

abbreviation SLAB_NO_MEM :: u32 where
  "SLAB_NO_MEM \<equiv> - 1"

definition free_slabs_of :: "mem \<Rightarrow> addr \<Rightarrow> u32" where
  "free_slabs_of m node = ld32 m (node + 4)"

definition bitmap_byte :: "addr \<Rightarrow> u32 \<Rightarrow> addr" where
  "bitmap_byte node idx = node + 8 + idx"

definition addr_from_slab_id :: "addr \<Rightarrow> u32 \<Rightarrow> addr" where
  "addr_from_slab_id node slab_id = node + 72 + 8 * slab_id"

section \<open>The bitmap\<close>

definition bitmap_is_set :: "mem \<Rightarrow> addr \<Rightarrow> u32 \<Rightarrow> bool" where
  "bitmap_is_set m node slab =
     (let idx = slab div 8; b = slab mod 8
      in IS_BIT_SET (m (bitmap_byte node idx)) (2 ^ unat b))"

definition bitmap_set :: "mem \<Rightarrow> addr \<Rightarrow> u32 \<Rightarrow> mem" where
  "bitmap_set m node slab =
     (let idx = slab div 8; b = slab mod 8
      in m(bitmap_byte node idx := SET_BIT (m (bitmap_byte node idx)) (2 ^ unat b)))"

text \<open>
  The source writes slab & 8 where it means slab % 8 and sets the bit it means to clear. With
  slab & 8 equal to 8 the mask is 256, which the store into a byte truncates to 0.
\<close>

definition bitmap_unset :: "mem \<Rightarrow> addr \<Rightarrow> u32 \<Rightarrow> mem" where
  "bitmap_unset m node slab =
     (let idx = slab div 8; b = slab AND 8
      in m(bitmap_byte node idx := SET_BIT (m (bitmap_byte node idx)) (2 ^ unat b)))"

definition mem_list_mark_nodes :: "mem \<Rightarrow> addr \<Rightarrow> u32 \<Rightarrow> u32 \<Rightarrow> mem" where
  "mem_list_mark_nodes m node begin end' =
     fold (\<lambda>i m. bitmap_set m node (of_nat i)) [unat begin..<unat end'] m"

definition mem_list_unmark_nodes :: "mem \<Rightarrow> addr \<Rightarrow> u32 \<Rightarrow> u32 \<Rightarrow> mem" where
  "mem_list_unmark_nodes m node begin end' =
     fold (\<lambda>i m. bitmap_unset m node (of_nat i)) [unat begin..<unat end'] m"

section \<open>Finding slabs\<close>

primrec find_run :: "mem \<Rightarrow> addr \<Rightarrow> u32 \<Rightarrow> nat list \<Rightarrow> u32 \<Rightarrow> u32 \<Rightarrow> mem \<times> u32" where
  "find_run m node slab_count [] slab_base slab_len = (m, SLAB_NO_MEM)"
| "find_run m node slab_count (i # is) slab_base slab_len =
     (if bitmap_is_set m node (of_nat i) then find_run m node slab_count is (of_nat i + 1) 0
      else if slab_len + 1 = slab_count
      then (mem_list_mark_nodes m node slab_base (slab_base + (slab_len + 1)), slab_base)
      else find_run m node slab_count is slab_base (slab_len + 1))"

definition find_cont_slabs_node :: "mem \<Rightarrow> addr \<Rightarrow> u32 \<Rightarrow> mem \<times> u32" where
  "find_cont_slabs_node m node slab_count = find_run m node slab_count [0..<SLABS_PER_BLOCK] 0 0"

partial_function (option) find_cont_loop :: "u32 \<Rightarrow> addr \<Rightarrow> mem \<Rightarrow> (mem \<times> addr) run" where
  "find_cont_loop slab_count it m =
     (if it = NULL then Ret (m, 0)
      else if free_slabs_of m it < slab_count then find_cont_loop slab_count (ld32 m it) m
      else let (m1, slab) = find_cont_slabs_node m it slab_count in
        if slab = SLAB_NO_MEM then find_cont_loop slab_count (ld32 m1 it) m1
        else Ret (m1, addr_from_slab_id it slab))"

definition find_cont_slabs :: "u32 \<Rightarrow> slabs \<Rightarrow> (slabs \<times> addr) run" where
  "find_cont_slabs slab_count s =
     run_bind (find_cont_loop slab_count (free_list s) (smem s)) (\<lambda>(m, a). Ret (s\<lparr>smem := m\<rparr>, a))"

definition create_mem_list_node :: "(u32 \<Rightarrow> u32) \<Rightarrow> slabs \<Rightarrow> (slabs \<times> addr) run" where
  "create_mem_list_node lz s =
     run_bind (kalloc lz (smem s) 1) (\<lambda>(m, node).
       let m1 = st32 m node (free_list s);
           m2 = st32 m1 (node + 4) 511;
           m3 = memset m2 (bitmap_byte node 0) 0 511
       in Ret (s\<lparr>smem := m3, free_list := node\<rparr>, node))"

definition find_create_cont_slabs :: "(u32 \<Rightarrow> u32) \<Rightarrow> u32 \<Rightarrow> slabs \<Rightarrow> (slabs \<times> addr) run" where
  "find_create_cont_slabs lz slab_count s =
     run_bind (find_cont_slabs slab_count s) (\<lambda>(s1, a).
       if 0 < sint a then Ret (s1, a)
       else run_bind (create_mem_list_node lz s1) (\<lambda>(s2, node).
         let m1 = st32 (smem s2) (node + 4) (free_slabs_of (smem s2) node - slab_count);
             m2 = mem_list_mark_nodes m1 node 0 slab_count
         in Ret (s2\<lparr>smem := m2\<rparr>, addr_from_slab_id node 0)))"

section \<open>kmalloc, kzmalloc, kmfree\<close>

definition allocate_slabs :: "(u32 \<Rightarrow> u32) \<Rightarrow> i32 \<Rightarrow> slabs \<Rightarrow> (slabs \<times> addr) run" where
  "allocate_slabs lz sz s =
     (let slab_count = sdiv32 (sz + 8 - 1) 8 + 1 in
      run_bind (find_create_cont_slabs lz slab_count s) (\<lambda>(s1, base_addr).
        Ret (s1\<lparr>smem := st32 (st32 (smem s1) base_addr slab_count) (base_addr + 4) (base_addr XOR slab_count)\<rparr>,
             base_addr + 8)))"

definition internal_allocate :: "(u32 \<Rightarrow> u32) \<Rightarrow> i32 \<Rightarrow> slabs \<Rightarrow> (slabs \<times> addr) run" where
  "internal_allocate lz sz s =
     (if 2048 < sint sz then
        run_bind (kballoc lz (smem s) (sz + 1)) (\<lambda>(m, a).
          Ret (s\<lparr>smem := st32 (st32 m a (sz + 8)) (a + 4) (a XOR sz)\<rparr>, a))
      else allocate_slabs lz sz s)"

definition get_slab_from_addr :: "addr \<Rightarrow> addr \<Rightarrow> u32 run" where
  "get_slab_from_addr node a =
     run_bind (assert1 (a AND 7 = 0)) (\<lambda>_. Ret (sdiv32 (node + 72 - a) 8))"

definition free_slabs :: "addr \<Rightarrow> u32 \<Rightarrow> slabs \<Rightarrow> slabs run" where
  "free_slabs a count s =
     (let node = a AND NOT (kb 4) in
      run_bind (get_slab_from_addr node a) (\<lambda>base_slab.
        Ret (s\<lparr>smem := mem_list_unmark_nodes (smem s) node base_slab (base_slab + count)\<rparr>)))"

definition internal_free :: "addr \<Rightarrow> slabs \<Rightarrow> slabs run" where
  "internal_free a s =
     (let shift_addr = a - 8; count = ld32 (smem s) shift_addr; magic = ld32 (smem s) (shift_addr + 4) in
      run_bind (assert1 (magic = shift_addr XOR count)) (\<lambda>_.
        if 257 < sint count then run_bind (kfree (smem s) shift_addr) (\<lambda>m. Ret (s\<lparr>smem := m\<rparr>))
        else free_slabs shift_addr count s))"

definition kmalloc :: "(u32 \<Rightarrow> u32) \<Rightarrow> i32 \<Rightarrow> slabs \<Rightarrow> (slabs \<times> addr) run" where
  "kmalloc lz sz s = internal_allocate lz sz s"

definition kzmalloc :: "(u32 \<Rightarrow> u32) \<Rightarrow> i32 \<Rightarrow> slabs \<Rightarrow> (slabs \<times> addr) run" where
  "kzmalloc lz sz s =
     run_bind (internal_allocate lz sz s) (\<lambda>(s1, ptr).
       if ptr = NULL \<and> sz \<noteq> 0 then Trap Null_deref
       else Ret (s1\<lparr>smem := memset (smem s1) ptr 0 sz\<rparr>, ptr))"

definition kmfree :: "addr \<Rightarrow> slabs \<Rightarrow> slabs run" where
  "kmfree a s = internal_free a s"

section \<open>Byte order\<close>

definition tbeqw :: "u64 \<Rightarrow> u64" where
  "tbeqw val = 0"

definition tbedw :: "u32 \<Rightarrow> u32" where
  "tbedw val = (drop_bit 24 val AND 0xff) OR (drop_bit 8 val AND 0xff00)
     OR (push_bit 8 val AND 0xff0000) OR (push_bit 24 val AND 0xff000000)"

definition tbew :: "u16 \<Rightarrow> u16" where
  "tbew val = (drop_bit 8 val AND 0xff) OR (push_bit 8 val OR 0xff00)"

section \<open>The bitmap, bit by bit\<close>

lemma bitmap_index:
  assumes "n < 2 ^ 32"
  shows "(of_nat n :: u32) div 8 = of_nat (n div 8)" "unat ((of_nat n :: u32) mod 8) = n mod 8"
  using assms by (auto simp: word_unat_eq_iff unat_mod_div unat_of_nat)

lemma bitmap_is_set_tbit: "n < 4096 \<Longrightarrow> bitmap_is_set m node (of_nat n) = tbit m (node + 8) n"
  by (simp add: bitmap_is_set_def Let_def bitmap_byte_def tbit_def bit_view bitmap_index)

lemma bitmap_set_tree:
  "n < 4096 \<Longrightarrow> bitmap_set m node (of_nat n) = set_tree_node m (node + 8) (of_nat n) True"
  by (simp add: bitmap_set_def bitmap_byte_def Let_def set_tree_node_def bitmap_index)

interpretation slab_bits: bitmap "\<lambda>m. tbit m (node + 8)"
    "\<lambda>m n b. if b then bitmap_set m node (of_nat n) else set_tree_node m (node + 8) (of_nat n) False" 512
  for node
  by unfold_locales (auto simp: bitmap_set_tree tbit_set_tree_node)

lemma mark_nodes_tbit:
  assumes "unat e \<le> 512" and "k < 512"
  shows "tbit (mem_list_mark_nodes m node b e) (node + 8) k = (unat b \<le> k \<and> k < unat e \<or> tbit m (node + 8) k)"
proof -
  have "set [unat b..<unat e] \<subseteq> {..<512}" using assms(1) by auto
  then have "tbit (fold (\<lambda>n s. if True then bitmap_set s node (of_nat n)
      else set_tree_node s (node + 8) (of_nat n) False) [unat b..<unat e] m) (node + 8) k =
    (if k \<in> set [unat b..<unat e] then True else tbit m (node + 8) k)"
    by (rule slab_bits.view_fold) (rule assms(2))
  then show ?thesis unfolding mem_list_mark_nodes_def if_True by auto
qed

lemma bitmap_set_frame:
  "n < 512 \<Longrightarrow> 64 \<le> a - (node + 8) \<Longrightarrow> bitmap_set m node (of_nat n) a = m a"
proof -
  assume n: "n < 512" and a: "64 \<le> a - (node + 8)"
  have "a \<noteq> node + 8 + of_nat (n div 8)"
  proof
    assume "a = node + 8 + of_nat (n div 8)"
    then have "a - (node + 8) = of_nat (n div 8)" by simp
    then have "unat (a - (node + 8)) = n div 8" using n by (simp add: unat_of_nat)
    then show False using a n by (simp add: word_le_nat_alt)
  qed
  then show ?thesis using n by (simp add: bitmap_set_def bitmap_byte_def Let_def bitmap_index)
qed

lemma mark_nodes_frame:
  assumes "unat e \<le> 512" and "64 \<le> a - (node + 8)"
  shows "mem_list_mark_nodes m node b e a = m a"
proof -
  have "\<forall>i \<in> set is. i < 512 \<Longrightarrow> fold (\<lambda>i m. bitmap_set m node (of_nat i)) is m a = m a" for "is"
    using assms(2) by (induction "is" arbitrary: m) (auto simp: bitmap_set_frame)
  then show ?thesis using assms(1) by (simp add: mem_list_mark_nodes_def)
qed

section \<open>First fit\<close>

definition free_run :: "(nat \<Rightarrow> bool) \<Rightarrow> nat \<Rightarrow> nat \<Rightarrow> bool" where
  "free_run used b n \<longleftrightarrow> b + n \<le> SLABS_PER_BLOCK \<and> (\<forall>k. b \<le> k \<and> k < b + n \<longrightarrow> \<not> used k)"

text \<open>Before slab i is looked at, the slabs from base on are free and no run ends before i.\<close>

lemma find_run_correct:
  assumes "i \<le> SLABS_PER_BLOCK" and "base + len = i" and "0 < n" "n < 2 ^ 32" and "len < n"
    and "\<forall>k. base \<le> k \<and> k < i \<longrightarrow> \<not> tbit m (node + 8) k"
    and "\<forall>b. b + n \<le> i \<longrightarrow> \<not> free_run (tbit m (node + 8)) b n"
    and "0 < base \<longrightarrow> tbit m (node + 8) (base - 1)"
  shows "find_run m node (of_nat n) [i..<SLABS_PER_BLOCK] (of_nat base) (of_nat len) =
    (if \<exists>b. free_run (tbit m (node + 8)) b n
     then (let b = LEAST b. free_run (tbit m (node + 8)) b n
           in (mem_list_mark_nodes m node (of_nat b) (of_nat (b + n)), of_nat b))
     else (m, SLAB_NO_MEM))"
  using assms
proof (induction "SLABS_PER_BLOCK - i" arbitrary: i base len)
  case 0
  then have "i = SLABS_PER_BLOCK" by simp
  then have "\<not> free_run (tbit m (node + 8)) b n" for b
    using 0 by (cases "b + n \<le> i") (auto simp: free_run_def)
  then show ?case using 0 by simp
next
  case (Suc x)
  then have i: "i < SLABS_PER_BLOCK" by simp
  let ?u = "tbit m (node + 8)"
  have upt: "[i..<SLABS_PER_BLOCK] = i # [Suc i..<SLABS_PER_BLOCK]" using i by (simp add: upt_rec)
  have set: "bitmap_is_set m node (of_nat i) = ?u i" using i by (simp add: bitmap_is_set_tbit)
  have eqn: "(of_nat len + 1 :: u32) = of_nat n \<longleftrightarrow> len + 1 = n"
    using of_nat_u32_inject [of "len + 1" n] Suc.prems i by (simp add: add.commute)
  have blocked: "\<not> free_run ?u b n" if "b < base" "i < b + n" for b
  proof
    assume "free_run ?u b n"
    moreover have "b \<le> base - 1" "base - 1 < b + n" "0 < base" using that Suc.prems(2) by auto
    ultimately show False using Suc.prems(8) unfolding free_run_def by blast
  qed
  have Suc_i: "x = SLABS_PER_BLOCK - Suc i" "Suc i \<le> SLABS_PER_BLOCK" using Suc.hyps(2) i by auto
  show ?case
  proof (cases "?u i")
    case True
    have "\<not> free_run ?u b n" if "b + n \<le> Suc i" for b
    proof (cases "b + n \<le> i")
      case False
      then have "b \<le> i" "i < b + n" using that Suc.prems(3) by auto
      then show ?thesis using True unfolding free_run_def by blast
    qed (use Suc.prems(7) in blast)
    then have "find_run m node (of_nat n) [Suc i..<SLABS_PER_BLOCK] (of_nat (Suc i)) (of_nat 0) =
        (if \<exists>b. free_run ?u b n
         then (let b = LEAST b. free_run ?u b n
           in (mem_list_mark_nodes m node (of_nat b) (of_nat (b + n)), of_nat b))
         else (m, SLAB_NO_MEM))"
      using Suc_i Suc.prems(3,4) True by (intro Suc.hyps(1)) auto
    then show ?thesis unfolding upt find_run.simps set if_P [OF True]
      by (simp only: of_nat_Suc add.commute semiring_1_class.of_nat_0)
  next
    case free: False
    have step: "\<not> ?u k" if "base \<le> k" "k < Suc i" for k
      using that free Suc.prems(6) by (cases "k = i") auto
    show ?thesis
    proof (cases "len + 1 = n")
      case True
      have run: "free_run ?u base n" using step True Suc.prems(2) i by (auto simp: free_run_def)
      have "(LEAST b. free_run ?u b n) = base"
      proof (rule Least_equality [of "\<lambda>b. free_run ?u b n", OF run])
        fix b assume b: "free_run ?u b n"
        then have "i < b + n" using Suc.prems(7) by (meson not_le)
        then show "base \<le> b" using blocked b by (meson not_le)
      qed
      moreover have "(of_nat base :: u32) + (of_nat len + 1) = of_nat (base + n)" using True by auto
      ultimately show ?thesis using run free True eqn by (auto simp: upt set Let_def)
    next
      case False
      have "\<not> free_run ?u b n" if "b + n \<le> Suc i" for b
        using that Suc.prems(2,5,7) blocked [of b] False by (cases "b + n \<le> i") auto
      then show ?thesis
        using Suc.hyps(1) [of "Suc i" base "len + 1"] Suc_i Suc.prems step False free eqn
        by (simp add: upt set add.commute)
    qed
  qed
qed

lemma first_fit:
  assumes "0 < n" and "n < 2 ^ 32"
  shows "case find_cont_slabs_node m node (of_nat n) of (m', slab) \<Rightarrow>
    (if \<exists>b. free_run (tbit m (node + 8)) b n
     then (\<exists>b. slab = of_nat b \<and> free_run (tbit m (node + 8)) b n \<and>
        (\<forall>b' < b. \<not> free_run (tbit m (node + 8)) b' n) \<and>
        (\<forall>k < SLABS_PER_BLOCK. tbit m' (node + 8) k = (b \<le> k \<and> k < b + n \<or> tbit m (node + 8) k)) \<and>
        (\<forall>a. 64 \<le> a - (node + 8) \<longrightarrow> m' a = m a))
     else m' = m \<and> slab = SLAB_NO_MEM)"
proof -
  let ?u = "tbit m (node + 8)"
  have eq: "find_cont_slabs_node m node (of_nat n) =
    (if \<exists>b. free_run ?u b n
     then (let b = LEAST b. free_run ?u b n
           in (mem_list_mark_nodes m node (of_nat b) (of_nat (b + n)), of_nat b))
     else (m, SLAB_NO_MEM))"
    using find_run_correct [of 0 0 0 n m node] assms by (simp add: find_cont_slabs_node_def free_run_def)
  show ?thesis
  proof (cases "\<exists>b. free_run ?u b n")
    case True
    then obtain b0 where b0: "free_run ?u b0 n" by blast
    obtain b where b: "(LEAST b. free_run ?u b n) = b" by blast
    have run: "free_run ?u b n" unfolding b [symmetric] by (rule LeastI [of "\<lambda>b. free_run ?u b n", OF b0])
    have less: "\<forall>b' < b. \<not> free_run ?u b' n" unfolding b [symmetric] using not_less_Least by blast
    have "b + n \<le> 511" using run by (simp add: free_run_def)
    then have un: "unat (of_nat b :: u32) = b" "unat (of_nat (b + n) :: u32) = b + n"
      by (simp_all add: unat_of_nat del: of_nat_add)
    let ?m = "mem_list_mark_nodes m node (of_nat b) (of_nat (b + n))"
    have le: "unat (of_nat (b + n) :: u32) \<le> 512" using \<open>b + n \<le> 511\<close> unfolding un by simp
    have marked: "\<forall>k < SLABS_PER_BLOCK. tbit ?m (node + 8) k = (b \<le> k \<and> k < b + n \<or> ?u k)"
    proof (intro allI impI)
      fix k :: nat assume "k < 511"
      then show "tbit ?m (node + 8) k = (b \<le> k \<and> k < b + n \<or> ?u k)"
        using mark_nodes_tbit [OF le, of k m node "of_nat b"] unfolding un by simp
    qed
    have "\<forall>a. 64 \<le> a - (node + 8) \<longrightarrow> ?m a = m a" using mark_nodes_frame [OF le] by blast
    then show ?thesis
      unfolding eq Let_def b if_P [OF True] prod.case using run less marked by blast
  next
    case False
    then show ?thesis by (simp add: eq)
  qed
qed

text \<open>
  find_cont_slabs_node finds the first run of slab_count free slabs of a node whenever there
  is one, marks exactly the slabs of this run as used and returns its first slab; otherwise it
  returns SLAB_NO_MEM and leaves memory as it was.
\<close>
theorem find_cont_slabs_first_fit:
  assumes "0 < n" and "n < 2 ^ 32"
  shows "case find_cont_slabs_node m node (of_nat n) of (m', slab) \<Rightarrow>
    (if \<exists>b. free_run (tbit m (node + 8)) b n
     then (\<exists>b. slab = of_nat b \<and> free_run (tbit m (node + 8)) b n \<and>
        (\<forall>b' < b. \<not> free_run (tbit m (node + 8)) b' n) \<and>
        (\<forall>k < SLABS_PER_BLOCK. tbit m' (node + 8) k = (b \<le> k \<and> k < b + n \<or> tbit m (node + 8) k)) \<and>
        (\<forall>a. 64 \<le> a - (node + 8) \<longrightarrow> m' a = m a))
     else m' = m \<and> slab = SLAB_NO_MEM)"
  by (rule first_fit [OF assms])

theorem find_cont_slabs_first_fit_witness:
  "case find_cont_slabs_node (\<lambda>_. 0) 0x2000 (of_nat 3) of (m', slab) \<Rightarrow> slab = 0 \<and> tbit m' 0x2008 2"
proof -
  have free: "free_run (tbit (\<lambda>_. 0) (0x2000 + 8)) 0 3" by (simp add: free_run_def tbit_def)
  then have ex: "\<exists>b. free_run (tbit (\<lambda>_. 0) (0x2000 + 8)) b 3" by blast
  obtain m' slab where eq: "find_cont_slabs_node (\<lambda>_. 0) 0x2000 (of_nat 3) = (m', slab)" by fastforce
  obtain b where b: "slab = of_nat b" "\<forall>b' < b. \<not> free_run (tbit (\<lambda>_. 0) (0x2000 + 8)) b' 3"
    "\<forall>k < SLABS_PER_BLOCK. tbit m' (0x2000 + 8) k = (b \<le> k \<and> k < b + 3 \<or> tbit (\<lambda>_. 0) (0x2000 + 8) k)"
    using find_cont_slabs_first_fit [where n = 3 and m = "\<lambda>_. 0" and node = "0x2000"]
    unfolding eq prod.case if_P [OF ex] by auto
  have "b = 0" using b(2) free by (metis gr0I)
  then show ?thesis unfolding eq prod.case using b(1,3) by simp
qed

section \<open>kmalloc within a block of slabs\<close>

abbreviation slabs_for :: "nat \<Rightarrow> nat" where
  "slabs_for sz \<equiv> (sz + 7) div 8 + 1"

lemma slab_count:
  assumes "unat sz \<le> 2048"
  shows "sdiv32 (sz + 8 - 1) 8 + 1 = of_nat (slabs_for (unat sz))"
proof -
  have "sz + 8 - 1 = of_nat (unat sz + 7)" by simp
  then have "sdiv32 (sz + 8 - 1) (of_nat 8) = of_nat ((unat sz + 7) div 8)"
    using assms by (simp only:) (intro sdiv32_small; simp)
  then show ?thesis by (simp add: add.commute)
qed

lemma header_stored:
  fixes m :: mem and a c v :: u32
  defines "m' \<equiv> st32 (st32 m a c) (a + 4) v"
  shows "ld32 m' a = c" "ld32 m' (a + 4) = v" "8 \<le> b - a \<Longrightarrow> m' b = m b"
proof -
  have dist: "a - (a + 4) = 0xFFFFFFFC" "a + 4 - a = 4" by simp_all
  show "ld32 m' a = c"
    unfolding m'_def by (subst ld32_st32_other) (simp_all only: dist, simp_all)
  show "ld32 m' (a + 4) = v" unfolding m'_def by simp
  assume "8 \<le> b - a"
  then have "4 \<le> b - a" "unat (b - a - 4) = unat (b - a) - 4" by (auto simp: word_le_nat_alt unat_sub)
  moreover have "b - (a + 4) = b - a - 4" by simp
  ultimately have "4 \<le> b - (a + 4)" "4 \<le> b - a" using \<open>8 \<le> b - a\<close> by (simp_all only: word_le_nat_alt) simp_all
  then show "m' b = m b" unfolding m'_def by (simp add: st32_other)
qed

lemma tbit_byte_cong: "m (t + of_nat (n div 8)) = m' (t + of_nat (n div 8)) \<Longrightarrow> tbit m t n = tbit m' t n"
  by (simp add: tbit_def)

lemma slab_byte_dist:
  assumes "b < 511" "k < 512"
  shows "8 \<le> node + 8 + of_nat (k div 8) - (node + 72 + 8 * of_nat b :: addr)"
proof -
  have "node + 8 + of_nat (k div 8) - (node + 72 + 8 * of_nat b) = - (of_nat (64 + 8 * b - k div 8) :: addr)"
    using assms by (simp add: of_nat_diff algebra_simps)
  then have "unat (node + 8 + of_nat (k div 8) - (node + 72 + 8 * of_nat b)) = 2 ^ 32 - (64 + 8 * b - k div 8)"
    using assms by (simp only:) (intro unat_uminus_of_nat; simp)
  then show ?thesis using assms by (simp add: word_le_nat_alt)
qed

lemma small_block:
  assumes sz: "unat sz \<le> 2048" and node: "free_list s = node" "node \<noteq> NULL" "unat node + 4160 < 2 ^ 31"
    and room: "slabs_for (unat sz) \<le> unat (free_slabs_of (smem s) node)"
    and run: "free_run (tbit (smem s) (node + 8)) b (slabs_for (unat sz))"
    and first: "\<forall>b' < b. \<not> free_run (tbit (smem s) (node + 8)) b' (slabs_for (unat sz))"
  defines "h \<equiv> node + 72 + 8 * of_nat b"
  shows "\<exists>m'. kmalloc lz sz s = Ret (s\<lparr>smem := m'\<rparr>, h + 8) \<and>
    (\<forall>k < SLABS_PER_BLOCK. tbit m' (node + 8) k =
       (b \<le> k \<and> k < b + slabs_for (unat sz) \<or> tbit (smem s) (node + 8) k)) \<and>
    ld32 m' h = of_nat (slabs_for (unat sz)) \<and> ld32 m' (h + 4) = h XOR of_nat (slabs_for (unat sz)) \<and>
    (\<forall>a. 64 \<le> a - (node + 8) \<and> 8 \<le> a - h \<longrightarrow> m' a = smem s a)"
proof -
  let ?n = "slabs_for (unat sz)"
  let ?u = "tbit (smem s) (node + 8)"
  have n: "0 < ?n" "?n < 2 ^ 32" "?n \<le> 257" using sz by auto
  have b: "b + ?n \<le> 511" using run by (simp add: free_run_def)
  obtain m1 where m1: "find_cont_slabs_node (smem s) node (of_nat ?n) = (m1, of_nat b)"
    "\<forall>k < SLABS_PER_BLOCK. tbit m1 (node + 8) k = (b \<le> k \<and> k < b + ?n \<or> ?u k)"
    "\<forall>a. 64 \<le> a - (node + 8) \<longrightarrow> m1 a = smem s a"
  proof -
    obtain m1 slab where eq: "find_cont_slabs_node (smem s) node (of_nat ?n) = (m1, slab)" by fastforce
    have ex: "\<exists>b. free_run ?u b ?n" using run by blast
    obtain b1 where b1: "slab = of_nat b1" "free_run ?u b1 ?n" "\<forall>b' < b1. \<not> free_run ?u b' ?n"
      "\<forall>k < SLABS_PER_BLOCK. tbit m1 (node + 8) k = (b1 \<le> k \<and> k < b1 + ?n \<or> ?u k)"
      "\<forall>a. 64 \<le> a - (node + 8) \<longrightarrow> m1 a = smem s a"
      using first_fit [OF n(1,2), of "smem s" node] unfolding eq prod.case if_P [OF ex] by blast
    moreover have "b1 = b" using b1(2,3) run first by (meson linorder_neqE_nat)
    ultimately show thesis using that eq by blast
  qed
  have nu: "unat (of_nat ?n :: u32) = ?n" using n by (simp only: unat_of_nat) simp
  have enough: "\<not> free_slabs_of (smem s) node < of_nat ?n"
    using room by (simp only: word_less_nat_alt nu not_less)
  have slab: "(of_nat b :: u32) \<noteq> SLAB_NO_MEM"
  proof
    assume eq: "of_nat b = SLAB_NO_MEM"
    have "unat (of_nat b :: u32) = b" using b by (simp add: unat_of_nat)
    moreover have "unat (- of_nat 1 :: u32) = 2 ^ 32 - 1" by (rule unat_uminus_of_nat) simp_all
    ultimately show False unfolding eq using b by simp
  qed
  have loop: "find_cont_loop (of_nat ?n) node (smem s) = Ret (m1, h)"
    unfolding find_cont_loop.simps [of _ node] if_not_P [OF node(2)] if_not_P [OF enough] m1(1) Let_def prod.case
      if_not_P [OF slab] by (simp add: addr_from_slab_id_def h_def)
  have uh: "unat h = unat node + (72 + 8 * b)"
  proof -
    have "h = node + of_nat (72 + 8 * b)" by (simp add: h_def)
    then show ?thesis using node(3) b by (simp only:) (intro unat_add_of_nat; simp)
  qed
  have pos: "0 < sint h"
  proof -
    have "sint h = int (unat h)" using uh node(3) b by (intro sint_eq_unat) simp
    then show ?thesis using uh by linarith
  qed
  define m' where "m' = st32 (st32 m1 h (of_nat ?n)) (h + 4) (h XOR of_nat ?n)"
  have res: "kmalloc lz sz s = Ret (s\<lparr>smem := m'\<rparr>, h + 8)"
  proof -
    have "sint sz = int (unat sz)" using sz by (intro sint_eq_unat) simp
    then have "\<not> 2048 < sint sz" using sz by linarith
    moreover have "find_create_cont_slabs lz (of_nat ?n) s = Ret (s\<lparr>smem := m1\<rparr>, h)"
      unfolding find_create_cont_slabs_def find_cont_slabs_def node loop using pos by simp
    ultimately show ?thesis
      unfolding kmalloc_def internal_allocate_def allocate_slabs_def slab_count [OF sz] Let_def m'_def by simp
  qed
  note hd = header_stored [where m = m1 and a = h and c = "of_nat ?n" and v = "h XOR of_nat ?n", folded m'_def]
  have "tbit m' (node + 8) k = tbit m1 (node + 8) k" if "k < 511" for k
  proof (rule tbit_byte_cong, rule hd(3))
    show "8 \<le> node + 8 + of_nat (k div 8) - h"
      unfolding h_def using slab_byte_dist [of b k node] b n(1) that by simp
  qed
  then have marked: "\<forall>k < SLABS_PER_BLOCK. tbit m' (node + 8) k = (b \<le> k \<and> k < b + ?n \<or> ?u k)"
    using m1(2) by simp
  have "\<forall>a. 64 \<le> a - (node + 8) \<and> 8 \<le> a - h \<longrightarrow> m' a = smem s a" using hd(3) m1(3) by simp
  with res marked hd(1,2) show ?thesis by blast
qed

text \<open>
  C16: kmalloc of at most 2048 bytes when the first node of the free list has enough free slabs in
  a row (and lies below 2 GB): it returns the address behind the header of the first such run,
  marks exactly the slabs of this run, stores the slab count and the magic value kmfree will check
  in the header, and writes nothing outside the bitmap and the header.
\<close>
theorem kmalloc_small_correct:
  assumes sz: "unat sz \<le> 2048" and node: "free_list s = node" "node \<noteq> NULL" "unat node + 4160 < 2 ^ 31"
    and room: "slabs_for (unat sz) \<le> unat (free_slabs_of (smem s) node)"
    and run: "free_run (tbit (smem s) (node + 8)) b (slabs_for (unat sz))"
    and first: "\<forall>b' < b. \<not> free_run (tbit (smem s) (node + 8)) b' (slabs_for (unat sz))"
  defines "h \<equiv> node + 72 + 8 * of_nat b"
  shows "\<exists>m'. kmalloc lz sz s = Ret (s\<lparr>smem := m'\<rparr>, h + 8) \<and>
    (\<forall>k < SLABS_PER_BLOCK. tbit m' (node + 8) k =
       (b \<le> k \<and> k < b + slabs_for (unat sz) \<or> tbit (smem s) (node + 8) k)) \<and>
    ld32 m' h = of_nat (slabs_for (unat sz)) \<and> ld32 m' (h + 4) = h XOR of_nat (slabs_for (unat sz)) \<and>
    (\<forall>a. 64 \<le> a - (node + 8) \<and> 8 \<le> a - h \<longrightarrow> m' a = smem s a)"
  unfolding h_def by (rule small_block [OF assms(1-7)])

text \<open>
  In a system whose first slab node sits at page 0x2000 and is empty, a request of 100 bytes takes
  the first 14 slabs.
\<close>

definition one_node :: slabs where
  "one_node = \<lparr>smem = st32 (\<lambda>_. 0) 0x2004 511, free_list = 0x2000\<rparr>"

lemma one_node:
  "free_list one_node = 0x2000" "free_slabs_of (smem one_node) 0x2000 = 511"
  "free_run (tbit (smem one_node) (0x2000 + 8)) 0 14"
proof -
  show "free_list one_node = 0x2000" "free_slabs_of (smem one_node) 0x2000 = 511"
    by (simp_all add: one_node_def free_slabs_of_def)
  have "\<not> tbit (smem one_node) (0x2000 + 8) k" if "k < 14" for k
  proof -
    have "k div 8 < 2" using that by simp
    then have "k div 8 = 0 \<or> k div 8 = 1" by linarith
    then show ?thesis by (auto simp: tbit_def one_node_def st32_apply)
  qed
  then show "free_run (tbit (smem one_node) (0x2000 + 8)) 0 14" by (simp add: free_run_def)
qed

theorem kmalloc_small_correct_witness:
  "\<exists>m'. kmalloc bsr 100 one_node = Ret (one_node\<lparr>smem := m'\<rparr>, 0x2050) \<and>
     tbit m' 0x2008 13 \<and> ld32 m' 0x2048 = 14 \<and> ld32 m' 0x204C = 0x2048 XOR 14"
  using kmalloc_small_correct [where sz = 100 and s = one_node and node = "0x2000" and b = 0 and lz = bsr]
    one_node by auto

section \<open>kmfree\<close>

lemma clear_bit:
  assumes "n < 32"
  shows "(w::u32) AND NOT (2 ^ n) = (if bit w n then w - 2 ^ n else w)"
proof -
  have "(w AND NOT (2 ^ n)) AND (w AND 2 ^ n) = 0"
    by (rule bit_word_eqI) (auto simp: bit_and_iff bit_not_iff)
  then have "(w AND NOT (2 ^ n)) + (w AND 2 ^ n) = (w AND NOT (2 ^ n)) OR (w AND 2 ^ n)"
    by (rule disjunctive_add_eq_or)
  also have "\<dots> = w" using assms
    by (intro bit_word_eqI) (auto simp: bit_and_iff bit_or_iff bit_not_iff possible_bit_word)
  finally have "(w AND NOT (2 ^ n)) + (w AND 2 ^ n) = w" .
  moreover have "w AND 2 ^ n = (if bit w n then 2 ^ n else 0)"
    by (rule bit_word_eqI) (auto simp: bit_and_iff)
  ultimately show ?thesis by (auto simp: algebra_simps)
qed

lemma clear_bit_12: "(w::u32) AND NOT 4096 = (if bit w 12 then w - 4096 else w)"
  using clear_bit [of 12 w] by simp

lemma unmark_frame:
  assumes "\<forall>i. unat b \<le> i \<and> i < unat e \<longrightarrow> a \<noteq> bitmap_byte node (of_nat i div 8)"
  shows "mem_list_unmark_nodes m node b e a = m a"
proof -
  have "\<forall>i \<in> set is. a \<noteq> bitmap_byte node (of_nat i div 8) \<Longrightarrow>
    fold (\<lambda>i m. bitmap_unset m node (of_nat i)) is m a = m a" for "is"
    by (induction "is" arbitrary: m) (auto simp: bitmap_unset_def Let_def)
  then show ?thesis using assms by (simp add: mem_list_unmark_nodes_def)
qed

text \<open>
  get_slab_from_addr subtracts the wrong way round, from a node address that is not the node's:
  the first slab comes out as 9, or as -503 when bit 12 of the address is set.
\<close>

lemma get_slab_wrong:
  assumes "a AND 7 = 0"
  shows "get_slab_from_addr (a AND NOT (kb 4)) a = Ret (if bit a 12 then - 503 else 9)"
proof -
  have kb: "kb 4 = 4096" by (simp add: kb_def)
  have "a - 4096 + 72 - a = - 4024" "a + 72 - a = 72" by simp_all
  moreover have "sdiv32 (- 4024) 8 = - 503" "sdiv32 72 8 = 9" by (simp_all add: sdiv32_def)
  ultimately show ?thesis using assms unfolding get_slab_from_addr_def kb clear_bit_12 by simp
qed

lemma aligned_slab: "node AND 7 = 0 \<Longrightarrow> (node + 72 + 8 * of_nat b :: u32) AND 7 = 0"
proof -
  have seven: "w AND 7 = 0 \<longleftrightarrow> 8 dvd unat w" for w :: u32
  proof -
    have "w AND 7 = take_bit 3 w" by (simp add: take_bit_eq_mask mask_eq_exp_minus_1)
    then have "w AND 7 = 0 \<longleftrightarrow> unat (take_bit 3 w) = 0" by (simp add: unat_eq_0)
    then show ?thesis by (simp only: unsigned_take_bit_eq) (simp add: take_bit_eq_mod dvd_eq_mod_eq_0)
  qed
  assume "node AND 7 = 0"
  then obtain q where q: "unat node = 8 * q" unfolding seven by blast
  have "node = of_nat (unat node)" by simp
  then have "node + 72 + 8 * of_nat b = of_nat (8 * (q + 9 + b))" unfolding q by (simp add: algebra_simps)
  moreover have "8 dvd 8 * (q + 9 + b) mod 2 ^ 32" by (rule dvd_mod) simp_all
  ultimately show ?thesis unfolding seven by (simp only: unat_of_nat) simp
qed

lemma unmarked_far:
  fixes node :: addr
  assumes b: "b < 503" and n: "n \<le> 257"
  defines "h \<equiv> node + 72 + 8 * of_nat b"
  assumes i: "unat (if bit h 12 then - 503 else 9 :: u32) \<le> i"
    "i < unat ((if bit h 12 then - 503 else 9 :: u32) + of_nat n)"
  shows "64 \<le> unat (bitmap_byte (h AND NOT (kb 4)) (of_nat i div 8) - (node + 8))"
proof -
  have kb: "kb 4 = 4096" by (simp add: kb_def)
  have idx: "(of_nat i :: u32) div 8 = of_nat (i div 8)" if "i < 2 ^ 32"
    using that by (rule bitmap_index)
  show ?thesis
  proof (cases "bit h 12")
    case True
    have "(- 503 :: u32) + of_nat n = - of_nat (503 - n)" using n by (simp add: of_nat_diff)
    then have "unat ((- 503 :: u32) + of_nat n) = 2 ^ 32 - (503 - n)"
      using n by (simp only:) (intro unat_uminus_of_nat; simp)
    moreover have "unat (- 503 :: u32) = 2 ^ 32 - 503" using unat_uminus_of_nat [of 503] by simp
    ultimately have i': "4294966793 \<le> i" "i < 4294966793 + 257" using i True n by simp_all
    have "bitmap_byte (h AND NOT (kb 4)) (of_nat i div 8) - (node + 8) =
        72 + 8 * of_nat b - 4096 + of_nat (i div 8)"
      unfolding kb clear_bit_12 using True i' by (simp add: idx bitmap_byte_def h_def)
    also have "\<dots> = of_nat (72 + 8 * b + i div 8 - 4096)" using i' by (simp add: of_nat_diff)
    finally show ?thesis using b i' by (simp only: unat_of_nat) simp
  next
    case False
    have "unat (9 + of_nat n :: u32) = 9 + n" using n by (simp add: unat_word_ariths unat_of_nat)
    then have i': "9 \<le> i" "i < 9 + 257" using i False n by simp_all
    have "bitmap_byte (h AND NOT (kb 4)) (of_nat i div 8) - (node + 8) =
        of_nat (72 + 8 * b + i div 8)"
      unfolding kb clear_bit_12 using False i' by (simp add: idx bitmap_byte_def h_def)
    then show ?thesis using b i' by (simp only: unat_of_nat) simp
  qed
qed

text \<open>
  C18: kmfree does not release a small block. For a block of n slabs (header included) that kmalloc
  put into the page of its node, it passes the check of the header, but it looks up the node at the
  block's own address (or a page below), computes a slab number that does not depend on the block
  and sets bits there instead of clearing them: no bit of the node's bitmap changes, so the slabs
  stay in use for good.
\<close>
theorem kmfree_releases_nothing:
  assumes node: "node AND 7 = 0" and b: "b < 503" and n: "n \<le> 257"
  defines "h \<equiv> node + 72 + 8 * of_nat b"
  assumes hdr: "ld32 (smem s) h = of_nat n" "ld32 (smem s) (h + 4) = h XOR of_nat n"
  shows "\<exists>m'. kmfree (h + 8) s = Ret (s\<lparr>smem := m'\<rparr>) \<and>
    (\<forall>k < 512. tbit m' (node + 8) k = tbit (smem s) (node + 8) k)"
proof -
  let ?base = "if bit h 12 then - 503 else 9 :: u32" and ?node = "h AND NOT (kb 4)"
  define m' where "m' = mem_list_unmark_nodes (smem s) ?node ?base (?base + of_nat n)"
  have "h AND 7 = 0" unfolding h_def using node by (rule aligned_slab)
  then have slab: "get_slab_from_addr ?node h = Ret ?base" by (rule get_slab_wrong)
  have "sint (of_nat n :: u32) = int n" using n by (simp add: signed_of_nat signed_take_bit_int_eq_self)
  then have small: "\<not> 257 < sint (of_nat n :: u32)" using n by linarith
  have res: "kmfree (h + 8) s = Ret (s\<lparr>smem := m'\<rparr>)"
    using hdr small slab by (simp add: kmfree_def internal_free_def free_slabs_def Let_def m'_def)
  have "m' a = smem s a" if "unat (a - (node + 8)) < 64" for a
    unfolding m'_def
  proof (rule unmark_frame, intro allI impI)
    fix i assume i: "unat ?base \<le> i \<and> i < unat (?base + of_nat n)"
    have "64 \<le> unat (bitmap_byte ?node (of_nat i div 8) - (node + 8))"
      using unmarked_far [OF b n, of node i] i unfolding h_def by simp
    then show "a \<noteq> bitmap_byte ?node (of_nat i div 8)" using that by auto
  qed
  then have "tbit m' (node + 8) k = tbit (smem s) (node + 8) k" if "k < 512" for k
    using that by (intro tbit_byte_cong) (simp add: unat_of_nat)
  then show ?thesis using res by blast
qed

theorem kmfree_releases_nothing_witness:
  "\<exists>m1 m2. kmalloc bsr 100 one_node = Ret (one_node\<lparr>smem := m1\<rparr>, 0x2050) \<and>
     kmfree 0x2050 (one_node\<lparr>smem := m1\<rparr>) = Ret (one_node\<lparr>smem := m2\<rparr>) \<and> tbit m2 0x2008 13"
proof -
  obtain m1 where m1: "kmalloc bsr 100 one_node = Ret (one_node\<lparr>smem := m1\<rparr>, 0x2050)"
    "tbit m1 0x2008 13" "ld32 m1 0x2048 = 14" "ld32 m1 0x204C = 0x2048 XOR 14"
    using small_block [where sz = 100 and s = one_node and node = "0x2000" and b = 0 and lz = bsr] one_node by auto
  then obtain m2 where "kmfree 0x2050 (one_node\<lparr>smem := m1\<rparr>) = Ret (one_node\<lparr>smem := m2\<rparr>)"
    "\<forall>k < 512. tbit m2 0x2008 k = tbit m1 0x2008 k"
    using kmfree_releases_nothing [where node = "0x2000" and b = 0 and n = 14 and s = "one_node\<lparr>smem := m1\<rparr>"]
    by auto
  with m1 show ?thesis by (intro exI [of _ m1] exI [of _ m2]) simp
qed

text \<open>
  A page has room for 503 slabs behind the 72 bytes of the node, but find_cont_slabs_node
  hands out 511: when the only run of n free slabs starts at slab b and b + n is more than 503, the
  block it returns ends beyond the page of its node.
\<close>
theorem slabs_leave_page:
  assumes "0 < n" and "503 < b + n" and "unat node + 4160 < 2 ^ 32"
    and "free_run (tbit m (node + 8)) b n" and "\<forall>b' < b. \<not> free_run (tbit m (node + 8)) b' n"
  shows "\<exists>m' slab. find_cont_slabs_node m node (of_nat n) = (m', slab) \<and>
    unat node + 4096 < unat (addr_from_slab_id node slab) + 8 * n"
proof -
  have n: "n < 2 ^ 32" "b + n \<le> 511" using assms(4) by (simp_all add: free_run_def)
  obtain m' slab where eq: "find_cont_slabs_node m node (of_nat n) = (m', slab)" by fastforce
  have ex: "\<exists>b. free_run (tbit m (node + 8)) b n" using assms(4) by blast
  obtain b1 where b1: "slab = of_nat b1" "free_run (tbit m (node + 8)) b1 n"
    "\<forall>b' < b1. \<not> free_run (tbit m (node + 8)) b' n"
    using first_fit [OF assms(1) n(1), of m node] unfolding eq prod.case if_P [OF ex] by blast
  then have "b1 = b" using assms(4,5) by (meson linorder_neqE_nat)
  then have "addr_from_slab_id node slab = node + of_nat (72 + 8 * b)"
    using b1(1) by (simp add: addr_from_slab_id_def)
  then have "unat (addr_from_slab_id node slab) = unat node + (72 + 8 * b)"
    using assms(1,3) n by (simp only:) (intro unat_add_of_nat; simp)
  then show ?thesis using eq assms(2) by simp
qed

theorem slabs_leave_page_witness:
  "\<exists>m' slab. find_cont_slabs_node (\<lambda>_. 0) 0x2000 (of_nat 510) = (m', slab) \<and>
     0x3000 < unat (addr_from_slab_id 0x2000 slab) + 8 * 510"
  using slabs_leave_page [where n = 510 and b = 0 and m = "\<lambda>_. 0" and node = "0x2000"]
  by (simp add: free_run_def tbit_def)

lemma bit_tbedw:
  assumes "n < 32"
  shows "bit (tbedw v) n = bit v (8 * (3 - n div 8) + n mod 8)"
proof -
  have "tbedw v = (drop_bit 24 v AND mask 8) OR (drop_bit 8 v AND push_bit 8 (mask 8))
      OR (push_bit 8 v AND push_bit 16 (mask 8)) OR (push_bit 24 v AND push_bit 24 (mask 8))"
    by (simp add: tbedw_def mask_eq_exp_minus_1)
  then have eq: "bit (tbedw v) n = (bit v (24 + n) \<and> n < 8 \<or> bit v (8 + n) \<and> 8 \<le> n \<and> n - 8 < 8 \<or>
      8 \<le> n \<and> bit v (n - 8) \<and> 16 \<le> n \<and> n - 16 < 8 \<or> 24 \<le> n \<and> bit v (n - 24) \<and> n - 24 < 8)"
    using assms by (simp add: bit_or_iff bit_and_iff bit_push_bit_iff bit_drop_bit_eq bit_mask_iff
        possible_bit_word less_diff_conv2 cong: conj_cong)
  obtain q r where n: "n = 8 * q + r" "r < 8" using that [of "n div 8" "n mod 8"] by simp
  then have "q = 0 \<or> q = 1 \<or> q = 2 \<or> q = 3" using assms by auto
  then show ?thesis unfolding eq using n by auto
qed

text \<open>
  tbedw, the conversion between little and big endian of a 32-bit value, is its own inverse.
\<close>
theorem tbedw_involution: "tbedw (tbedw v) = v"
proof (rule bit_word_eqI)
  fix n assume "n < LENGTH(32)"
  then have n: "n < 32" by simp
  obtain q r where "n = 8 * q + r" "r < 8" "q < 4" using n that [of "n div 8" "n mod 8"] by auto
  then show "bit (tbedw (tbedw v)) n = bit v n" by (simp add: bit_tbedw)
qed

end
