(* ===== verification/Slab_System.thy ===== *)
theory Slab_System
  imports Slab
begin

text \<open>
  The slab allocator of kernel/memory.c on top of the page allocator: what a sequence of requests gets,
  from the first one on, which takes a page for its node.
\<close>

section \<open>Pages taken from the page allocator\<close>

text \<open>The header and the trees of the page allocator lie in pages that are in use (init_buddy_system takes them).\<close>

definition own_pages_used :: "mem \<Rightarrow> bool" where
  "own_pages_used m \<longleftrightarrow> {16777216..<16777224 + 512 * unat (buddy_count m)} \<subseteq> page_bytes (used_pages m)"

lemma allocator_frame:
  assumes "unat (buddy_count m) < 510" and same: "\<And>x. unat x < 16777224 + 512 * unat (buddy_count m) \<Longrightarrow> m' x = m x"
  shows "buddy_count m' = buddy_count m" and "buddy_ok m' = buddy_ok m" and "used_pages m' = used_pages m"
proof -
  show count: "buddy_count m' = buddy_count m" by (rule buddy_count_cong) (simp add: same)
  have bits: "bits m' (tree_at i) h = bits m (tree_at i) h" if "i < unat (buddy_count m)" "h < 4096" for i h
  proof (rule bits_cong [OF that(2)])
    show "m' a = m a" if "a \<in> tree_range (tree_at i)" for a
      using tree_range_unat [OF _ that] \<open>i < unat (buddy_count m)\<close> assms(1) by (intro same) fastforce
  qed
  show "buddy_ok m' = buddy_ok m"
    unfolding buddy_ok_def count using bits wf_bits_cong by blast
  have "live (bits m' (tree_at i)) = live (bits m (tree_at i))" if "i < unat (buddy_count m)" for i
    using bits [OF that] live_cong by blast
  then show "used_pages m' = used_pages m"
    unfolding used_pages_def count by (intro Collect_cong) (metis (no_types, lifting))
qed

text \<open>A page that is not in use lies behind the allocator's own bytes.\<close>

lemma behind_trees:
  assumes "own_pages_used m" and "p \<notin> used_pages m"
  shows "16777224 + 512 * unat (buddy_count m) \<le> page_addr p"
proof (rule ccontr)
  assume "\<not> ?thesis"
  then have "page_addr p \<in> {16777216..<16777224 + 512 * unat (buddy_count m)}" unfolding atLeastLessThan_iff by (simp add: page_addr_def)
  then have "page_addr p \<in> page_bytes (used_pages m)" using assms(1) unfolding own_pages_used_def by blast
  then obtain q x where q: "page_addr p = page_addr q + x" "q \<in> used_pages m" "x < 4096"
    unfolding page_bytes_def by blast
  then have "4096 * p = 4096 * q + x" unfolding page_addr_def by linarith
  from arg_cong [OF this, of "\<lambda>n. n div 4096"] have "p = q" using q(3) by simp
  then show False using assms(2) q(2) by simp
qed

section \<open>Places in a page\<close>

lemma offset_behind: "k \<le> unat (a - b) \<Longrightarrow> unat (a - (b + of_nat k)) = unat (a - b) - k" for a b :: addr
proof -
  assume k: "k \<le> unat (a - b)"
  then have u: "unat (of_nat k :: addr) = k" using unsigned_less [of "a - b", where 'a = nat] by (simp add: unat_of_nat)
  have "a - (b + of_nat k) = a - b - of_nat k" by simp
  then show ?thesis using k u by (simp only: unat_sub word_le_nat_alt)
qed

lemma offset_before:
  fixes a b :: addr
  assumes "unat (a - b) < k" and "k \<le> 2 ^ 31"
  shows "2147483648 \<le> unat (a - (b + of_nat k))"
proof -
  have "a - (b + of_nat k) = - of_nat (k - unat (a - b))" using assms(1) by (simp add: of_nat_diff)
  then have "unat (a - (b + of_nat k)) = 2 ^ 32 - (k - unat (a - b))"
    using assms by (simp only:) (intro unat_uminus_of_nat; simp)
  then show ?thesis using assms by simp
qed

lemma page_far:
  assumes "unat x < unat a" and "unat a + 4096 \<le> 2 ^ 32"
  shows "4096 \<le> x - (a :: addr)"
proof -
  have "x - a = - of_nat (unat a - unat x)" using assms(1) by (simp add: of_nat_diff)
  then have "unat (x - a) = 2 ^ 32 - (unat a - unat x)"
    using assms by (simp only:) (intro unat_uminus_of_nat; simp)
  then show ?thesis using assms by (simp add: word_le_nat_alt)
qed

section \<open>The first request\<close>

text \<open>Node p has slabs 0 to u - 1 in use and no other.\<close>

definition packed :: "nat \<Rightarrow> nat \<Rightarrow> slabs \<Rightarrow> bool" where
  "packed p u s \<longleftrightarrow> free_list s = of_nat (page_addr p) \<and>
     (\<forall>k < SLABS_PER_BLOCK. tbit (smem s) (free_list s + 8) k = (k < u)) \<and>
     511 \<le> u + unat (free_slabs_of (smem s) (free_list s))"

text \<open>What create_mem_list_node and its caller write: the header of the node, the marks and the first slab.\<close>

lemma new_node:
  fixes m :: mem and node nxt' c v :: addr
  assumes n: "0 < n" "n \<le> 257"
  defines "m3 \<equiv> memset (st32 (st32 m node nxt') (node + 4) 511) (bitmap_byte node 0) 0 511"
  defines "m5 \<equiv> mem_list_mark_nodes (st32 m3 (node + 4) (free_slabs_of m3 node - of_nat n)) node 0 (of_nat n)"
  defines "m6 \<equiv> st32 (st32 m5 (node + 72) c) (node + 72 + 4) v"
  shows "\<forall>k < SLABS_PER_BLOCK. tbit m6 (node + 8) k = (k < n)" and "unat (free_slabs_of m6 node) = 511 - n"
    and "4096 \<le> x - node \<Longrightarrow> m6 x = m x"
proof -
  let ?m4 = "st32 m3 (node + 4) (free_slabs_of m3 node - of_nat n)"
  have un: "unat (of_nat n :: u32) = n" using n by (simp add: unat_of_nat)
  have field: "64 \<le> unat (node + 4 + of_nat i - (node + of_nat 8))" "8 \<le> unat (node + 4 + of_nat i - (node + of_nat 72))"
      "511 \<le> unat (node + 4 + of_nat i - (node + of_nat 8))" if "i < 4" for i
  proof -
    have "node + 4 + of_nat i - node = of_nat (4 + i)" by simp
    moreover have "unat (of_nat (4 + i) :: addr) = 4 + i" using that by (subst unat_of_nat) simp
    ultimately have "unat (node + 4 + of_nat i - node) = 4 + i" by (simp only:)
    then have "2147483648 \<le> unat (node + 4 + of_nat i - (node + of_nat 8))" "2147483648 \<le> unat (node + 4 + of_nat i - (node + of_nat 72))"
      using that by (intro offset_before; simp)+
    then show "64 \<le> unat (node + 4 + of_nat i - (node + of_nat 8))" "8 \<le> unat (node + 4 + of_nat i - (node + of_nat 72))"
      "511 \<le> unat (node + 4 + of_nat i - (node + of_nat 8))" by simp_all
  qed
  have m3: "ld32 m3 (node + 4) = 511"
  proof -
    have "m3 (node + 4 + of_nat i) = st32 (st32 m node nxt') (node + 4) 511 (node + 4 + of_nat i)" if "i < 4" for i
      using field(3) [OF that] by (simp add: m3_def memset_apply bitmap_byte_def word_less_nat_alt)
    then have "ld32 m3 (node + 4) = ld32 (st32 (st32 m node nxt') (node + 4) 511) (node + 4)" by (intro ld32_frame) auto
    then show ?thesis by simp
  qed
  have m6: "m6 (node + 4 + of_nat i) = ?m4 (node + 4 + of_nat i)" if "i < 4" for i
    using header_stored(3) [of "node + 4 + of_nat i" "node + 72" m5 c v] mark_nodes_frame [of "of_nat n" "node + 4 + of_nat i" node ?m4 0]
      field(1,2) [OF that] n by (simp add: m6_def m5_def un word_le_nat_alt)
  then have "free_slabs_of m6 node = ld32 ?m4 (node + 4)" unfolding free_slabs_of_def by (intro ld32_frame) auto
  also have "\<dots> = 511 - of_nat n" by (simp add: free_slabs_of_def m3)
  also have "unat (511 - of_nat n :: u32) = 511 - n" using n un by (simp add: unat_sub word_le_nat_alt)
  finally show "unat (free_slabs_of m6 node) = 511 - n" .
  have zero: "\<not> tbit ?m4 (node + 8) k" if "k < 511" for k
  proof -
    have d: "unat (of_nat (k div 8) :: u32) = k div 8" "k div 8 < 511" using that by (simp_all add: unat_of_nat)
    have "node + 8 + of_nat (k div 8) - (node + 4) = of_nat (4 + k div 8)" by simp
    moreover have "unat (of_nat (4 + k div 8) :: addr) = 4 + k div 8" using that by (subst unat_of_nat) simp
    ultimately have "unat (node + 8 + of_nat (k div 8) - (node + 4)) = 4 + k div 8" by (simp only:)
    then have "?m4 (node + 8 + of_nat (k div 8)) = 0"
      using that d by (subst st32_other) (simp_all add: m3_def memset_apply bitmap_byte_def word_le_nat_alt word_less_nat_alt)
    then show ?thesis by (simp add: tbit_def)
  qed
  have "tbit m6 (node + 8) k = tbit m5 (node + 8) k" if "k < 511" for k
    unfolding m6_def by (rule tbit_byte_cong, rule header_stored(3))
      (use slab_byte_dist [of 0 k node] that in simp)
  then show "\<forall>k < SLABS_PER_BLOCK. tbit m6 (node + 8) k = (k < n)"
    using mark_nodes_tbit [of "of_nat n" _ ?m4 node 0] zero n un by (simp add: m5_def)
  show "m6 x = m x" if "4096 \<le> x - node"
  proof -
    have far: "k \<le> 72 \<Longrightarrow> 4024 \<le> unat (x - (node + of_nat k))" for k
      using that offset_behind [of k x node] by (simp add: word_le_nat_alt)
    have "m6 x = m5 x" unfolding m6_def
      by (rule header_stored(3)) (use far [of 72] in \<open>simp add: word_le_nat_alt\<close>)
    also have "m5 x = ?m4 x" unfolding m5_def
      by (rule mark_nodes_frame) (use far [of 8] n un in \<open>simp_all add: word_le_nat_alt\<close>)
    also have "\<dots> = m3 x" by (rule st32_other) (use far [of 4] in \<open>simp add: word_le_nat_alt\<close>)
    also have "\<dots> = st32 (st32 m node nxt') (node + 4) 511 x"
      using far [of 8] by (simp add: m3_def memset_apply bitmap_byte_def word_less_nat_alt)
    also have "\<dots> = st32 m node nxt' x" by (rule st32_other) (use far [of 4] in \<open>simp add: word_le_nat_alt\<close>)
    also have "\<dots> = m x" by (rule st32_other) (use far [of 0] in \<open>simp add: word_le_nat_alt\<close>)
    finally show ?thesis .
  qed
qed

lemma small_size: "unat (sz :: i32) \<le> 2048 \<Longrightarrow> \<not> 2048 < sint sz"
proof -
  assume "unat sz \<le> 2048"
  moreover from this have "sint sz = int (unat sz)" by (intro sint_eq_unat) simp
  ultimately show ?thesis by linarith
qed

text \<open>Where slab u of node p begins, behind the header of the block.\<close>

definition slab_addr :: "nat \<Rightarrow> nat \<Rightarrow> addr" where
  "slab_addr p u = of_nat (page_addr p + 80 + 8 * u)"

lemma kmalloc_new_node:
  assumes sz: "unat sz \<le> 2048" and empty: "free_list s = NULL"
    and page: "kalloc lz (smem s) 1 = Ret (m, of_nat (page_addr p))"
  shows "\<exists>m'. kmalloc lz sz s = Ret (\<lparr>smem = m', free_list = of_nat (page_addr p)\<rparr>, slab_addr p 0) \<and>
    packed p (slabs_for (unat sz)) \<lparr>smem = m', free_list = of_nat (page_addr p)\<rparr> \<and>
    (\<forall>x. 4096 \<le> x - of_nat (page_addr p) \<longrightarrow> m' x = m x)"
proof -
  define node :: addr where "node = of_nat (page_addr p)"
  let ?n = "slabs_for (unat sz)"
  define m3 where "m3 = memset (st32 (st32 m node NULL) (node + 4) 511) (bitmap_byte node 0) 0 511"
  define m5 where "m5 = mem_list_mark_nodes (st32 m3 (node + 4) (free_slabs_of m3 node - of_nat ?n)) node 0 (of_nat ?n)"
  define m6 where "m6 = st32 (st32 m5 (node + 72) (of_nat ?n)) (node + 72 + 4) ((node + 72) XOR of_nat ?n)"
  have n: "0 < ?n" "?n \<le> 257" using sz by auto
  note facts = new_node [OF n, where m = m and node = node and nxt' = NULL and c = "of_nat ?n" and v = "(node + 72) XOR of_nat ?n", folded m3_def, folded m5_def, folded m6_def]
  have none: "find_cont_slabs c s = Ret (s, 0)" for c
    by (simp add: find_cont_slabs_def empty find_cont_loop.simps [of _ NULL])
  have "find_create_cont_slabs lz (of_nat ?n) s = Ret (\<lparr>smem = m5, free_list = node\<rparr>, node + 72)"
    unfolding find_create_cont_slabs_def none run_bind_simps prod.case create_mem_list_node_def page node_def [symmetric]
    using empty by (cases s) (simp add: m5_def m3_def addr_from_slab_id_def Let_def)
  then have "kmalloc lz sz s = Ret (\<lparr>smem = m6, free_list = node\<rparr>, node + 72 + 8)"
    unfolding kmalloc_def internal_allocate_def allocate_slabs_def slab_count [OF sz] Let_def m6_def
    using small_size [OF sz] by simp
  moreover have "node + 72 + 8 = slab_addr p 0" by (simp add: slab_addr_def node_def)
  ultimately show ?thesis
    using facts n unfolding packed_def node_def [symmetric] by (intro exI [of _ m6]) auto
qed

lemma kmalloc_packed:
  assumes sz: "unat sz \<le> 2048" and p: "packed p u s" and u: "u + slabs_for (unat sz) \<le> 503" and low: "page_addr p + 4160 < 2 ^ 31"
  shows "\<exists>m'. kmalloc lz sz s = Ret (s\<lparr>smem := m'\<rparr>, slab_addr p u) \<and> packed p (u + slabs_for (unat sz)) (s\<lparr>smem := m'\<rparr>) \<and>
    (\<forall>x. 4096 \<le> x - of_nat (page_addr p) \<longrightarrow> m' x = smem s x)"
proof -
  define node :: addr where "node = of_nat (page_addr p)"
  let ?n = "slabs_for (unat sz)"
  have node: "free_list s = node" "unat node = page_addr p" "node \<noteq> NULL"
  proof -
    show "free_list s = node" using p by (simp add: packed_def node_def)
    show un: "unat node = page_addr p" using low unfolding node_def by (subst unat_of_nat) simp
    show "node \<noteq> NULL" using un by (auto simp: page_addr_def)
  qed
  have used: "\<forall>k < SLABS_PER_BLOCK. tbit (smem s) (node + 8) k = (k < u)" and room: "?n \<le> unat (free_slabs_of (smem s) node)"
    using p u unfolding packed_def node(1) by auto
  have n: "0 < ?n" by simp
  have run: "free_run (tbit (smem s) (node + 8)) u ?n" using used u by (simp add: free_run_def)
  have first: "\<forall>b' < u. \<not> free_run (tbit (smem s) (node + 8)) b' ?n"
    using used u n by (fastforce simp: free_run_def)
  obtain m' where m': "kmalloc lz sz s = Ret (s\<lparr>smem := m'\<rparr>, node + 72 + 8 * of_nat u + 8)"
      "\<forall>k < SLABS_PER_BLOCK. tbit m' (node + 8) k = (u \<le> k \<and> k < u + ?n \<or> tbit (smem s) (node + 8) k)"
      "\<forall>a. 64 \<le> a - (node + 8) \<and> 8 \<le> a - (node + 72 + 8 * of_nat u) \<longrightarrow> m' a = smem s a"
    using small_block [OF sz node(1,3) _ room run first, of lz] node(2) low by auto
  have h: "node + 72 + 8 * of_nat u = node + of_nat (72 + 8 * u)" by simp
  have frame: "m' a = smem s a" if "64 \<le> unat (a - (node + of_nat 8))" "8 \<le> unat (a - (node + of_nat (72 + 8 * u)))" for a
    using that m'(3) unfolding h by (simp add: word_le_nat_alt)
  have "m' (node + 4 + of_nat i) = smem s (node + 4 + of_nat i)" if "i < 4" for i
  proof -
    have "node + 4 + of_nat i - node = of_nat (4 + i)" by simp
    moreover have "unat (of_nat (4 + i) :: addr) = 4 + i" using that by (subst unat_of_nat) simp
    ultimately have o: "unat (node + 4 + of_nat i - node) = 4 + i" by (simp only:)
    have "2147483648 \<le> unat (node + 4 + of_nat i - (node + of_nat 8))"
        "2147483648 \<le> unat (node + 4 + of_nat i - (node + of_nat (72 + 8 * u)))"
      by (rule offset_before; use o that u in simp)+
    then show ?thesis by (intro frame) linarith+
  qed
  then have "free_slabs_of m' node = free_slabs_of (smem s) node" unfolding free_slabs_of_def by (rule ld32_frame)
  then have "packed p (u + ?n) (s\<lparr>smem := m'\<rparr>)"
    using p m'(2) used unfolding packed_def node(1) by (auto simp: node(1))
  moreover have "m' x = smem s x" if "4096 \<le> x - node" for x
    using that u offset_behind [of 8 x node] offset_behind [of "72 + 8 * u" x node]
    by (intro frame) (simp_all only: word_le_nat_alt, simp_all)
  moreover have "node + 72 + 8 * of_nat u + 8 = slab_addr p u" by (simp add: slab_addr_def node_def)
  ultimately show ?thesis using m'(1) unfolding node_def by auto
qed

text \<open>kzmalloc clears its block, which lies behind the header of the node.\<close>

lemma kzmalloc_packed:
  assumes sz: "unat sz \<le> 2048" and p: "packed p u s" and u: "u + slabs_for (unat sz) \<le> 503" and low: "page_addr p + 4160 < 2 ^ 31"
  shows "\<exists>s'. kzmalloc lz sz s = Ret (s', slab_addr p u) \<and> slab_addr p u \<noteq> NULL \<and> packed p (u + slabs_for (unat sz)) s'"
proof -
  define node :: addr where "node = of_nat (page_addr p)"
  obtain m where m: "kmalloc lz sz s = Ret (s\<lparr>smem := m\<rparr>, slab_addr p u)" "packed p (u + slabs_for (unat sz)) (s\<lparr>smem := m\<rparr>)"
    using kmalloc_packed [OF assms] by blast
  have "unat (slab_addr p u) = page_addr p + 80 + 8 * u"
    unfolding slab_addr_def using u low by (subst unat_of_nat) simp
  then have nz: "slab_addr p u \<noteq> NULL" by (auto simp: page_addr_def)
  define m' where "m' = memset m (slab_addr p u) 0 sz"
  have same: "m' (node + of_nat k) = m (node + of_nat k)" if "k < 72" for k
  proof -
    have "unat (node + of_nat k - node) = k" using that by (simp add: unat_of_nat)
    then have "2147483648 \<le> unat (node + of_nat k - (node + of_nat (80 + 8 * u)))"
      using that u by (intro offset_before) simp_all
    moreover have block: "node + of_nat (80 + 8 * u) = slab_addr p u" by (simp add: slab_addr_def node_def)
    ultimately have "\<not> node + of_nat k - slab_addr p u < sz"
      using sz unfolding block word_less_nat_alt by linarith
    then show ?thesis by (simp add: m'_def memset_apply)
  qed
  have "ld32 m' (node + 4) = ld32 m (node + 4)"
    by (rule ld32_frame) (use same [of "4 + _"] in \<open>simp add: add.assoc\<close>)
  moreover have "tbit m' (node + 8) k = tbit m (node + 8) k" if "k < 511" for k
    by (rule tbit_byte_cong) (use same [of "8 + k div 8"] that in \<open>simp add: add.assoc\<close>)
  ultimately have "packed p (u + slabs_for (unat sz)) (s\<lparr>smem := m'\<rparr>)"
    using m(2) unfolding packed_def free_slabs_of_def by (auto simp: node_def)
  then show ?thesis
    using m(1) nz by (simp add: kzmalloc_def kmalloc_def m'_def)
qed

section \<open>A sequence of requests\<close>

primrec slab_addrs :: "nat \<Rightarrow> nat \<Rightarrow> u32 list \<Rightarrow> addr list" where
  "slab_addrs p u [] = []"
| "slab_addrs p u (sz # szs) = slab_addr p u # slab_addrs p (u + slabs_for (unat sz)) szs"

definition slabs_of :: "u32 list \<Rightarrow> nat" where
  "slabs_of szs = sum_list (map (\<lambda>sz. slabs_for (unat sz)) szs)"

lemma kmalloc_packed_seq:
  assumes "packed p u s" and "\<forall>sz \<in> set szs. unat sz \<le> 2048" and "u + slabs_of szs \<le> 503" and low: "page_addr p + 4160 < 2 ^ 31"
  shows "\<exists>m'. alloc_seq (kmalloc lz) szs s = Ret (s\<lparr>smem := m'\<rparr>, slab_addrs p u szs) \<and>
    packed p (u + slabs_of szs) (s\<lparr>smem := m'\<rparr>) \<and> (\<forall>x. 4096 \<le> x - of_nat (page_addr p) \<longrightarrow> m' x = smem s x)"
  using assms(1-3)
proof (induction szs arbitrary: u s)
  case Nil
  then show ?case by (intro exI [of _ "smem s"]) (simp add: slabs_of_def)
next
  case (Cons sz szs)
  let ?n = "slabs_for (unat sz)"
  have sum: "slabs_of (sz # szs) = ?n + slabs_of szs" by (simp add: slabs_of_def)
  obtain m1 where m1: "kmalloc lz sz s = Ret (s\<lparr>smem := m1\<rparr>, slab_addr p u)" "packed p (u + ?n) (s\<lparr>smem := m1\<rparr>)"
      "\<forall>x. 4096 \<le> x - of_nat (page_addr p) \<longrightarrow> m1 x = smem s x"
    using kmalloc_packed [OF _ Cons.prems(1) _ low, of sz lz] Cons.prems sum by auto
  obtain m' where "alloc_seq (kmalloc lz) szs (s\<lparr>smem := m1\<rparr>) = Ret (s\<lparr>smem := m'\<rparr>, slab_addrs p (u + ?n) szs)"
      "packed p (u + ?n + slabs_of szs) (s\<lparr>smem := m'\<rparr>)" "\<forall>x. 4096 \<le> x - of_nat (page_addr p) \<longrightarrow> m' x = m1 x"
    using Cons.IH [OF m1(2)] Cons.prems sum by auto
  then show ?case using m1 sum by (intro exI [of _ m']) (simp add: add.assoc)
qed

lemma length_slab_addrs [simp]: "length (slab_addrs p u szs) = length szs"
  by (induction szs arbitrary: u) simp_all

lemma slab_addrs_blocks:
  assumes "page_addr p + 4160 < 2 ^ 31" and "u + slabs_of szs \<le> 503" and "i < length szs"
  shows "block_bytes (slab_addrs p u szs ! i) (szs ! i) \<subseteq> {page_addr p + 80 + 8 * u..<page_addr p + 72 + 8 * (u + slabs_of szs)}"
    and "\<forall>j < i. block_bytes (slab_addrs p u szs ! j) (szs ! j) \<inter> block_bytes (slab_addrs p u szs ! i) (szs ! i) = {}"
proof -
  have "block_bytes (slab_addrs p u szs ! i) (szs ! i) \<subseteq> {page_addr p + 80 + 8 * u..<page_addr p + 72 + 8 * (u + slabs_of szs)} \<and>
    (\<forall>j < i. block_bytes (slab_addrs p u szs ! j) (szs ! j) \<inter> block_bytes (slab_addrs p u szs ! i) (szs ! i) = {})"
    using assms(2,3)
  proof (induction szs arbitrary: u i)
    case (Cons sz szs)
    let ?n = "slabs_for (unat sz)"
    have sum: "slabs_of (sz # szs) = ?n + slabs_of szs" by (simp add: slabs_of_def)
    have "unat (slab_addr p u) = page_addr p + 80 + 8 * u"
      using assms(1) Cons.prems(1) unfolding slab_addr_def by (subst unat_of_nat) simp
    moreover have "unat sz \<le> 8 * (?n - 1)" by simp
    ultimately have first: "block_bytes (slab_addr p u) sz \<subseteq> {page_addr p + 80 + 8 * u..<page_addr p + 80 + 8 * (u + ?n) - 8}"
      by (auto simp: block_bytes_def)
    show ?case
    proof (cases i)
      case 0
      then show ?thesis using first unfolding sum by fastforce
    next
      case (Suc i')
      then have rest: "block_bytes (slab_addrs p (u + ?n) szs ! i') (szs ! i') \<subseteq>
            {page_addr p + 80 + 8 * (u + ?n)..<page_addr p + 72 + 8 * (u + ?n + slabs_of szs)}"
          "\<forall>j < i'. block_bytes (slab_addrs p (u + ?n) szs ! j) (szs ! j) \<inter> block_bytes (slab_addrs p (u + ?n) szs ! i') (szs ! i') = {}"
        using Cons.IH [of "u + ?n" i'] Cons.prems sum by auto
      have "block_bytes (slab_addr p u) sz \<inter> block_bytes (slab_addrs p (u + ?n) szs ! i') (szs ! i') = {}"
        using first rest(1) by fastforce
      moreover have "block_bytes (slab_addrs p (u + ?n) szs ! i') (szs ! i') \<subseteq>
          {page_addr p + 80 + 8 * u..<page_addr p + 72 + 8 * (u + slabs_of (sz # szs))}"
        using rest(1) unfolding sum by (rule subset_trans) (simp add: add.assoc)
      moreover have "block_bytes (slab_addrs p u (sz # szs) ! j) ((sz # szs) ! j) \<inter>
          block_bytes (slab_addrs p u (sz # szs) ! i) ((sz # szs) ! i) = {}" if "j < i" for j
        using that calculation(1) rest(2) unfolding Suc by (cases j) simp_all
      ultimately show ?thesis unfolding Suc by simp
    qed
  qed simp
  then show "block_bytes (slab_addrs p u szs ! i) (szs ! i) \<subseteq> {page_addr p + 80 + 8 * u..<page_addr p + 72 + 8 * (u + slabs_of szs)}"
    and "\<forall>j < i. block_bytes (slab_addrs p u szs ! j) (szs ! j) \<inter> block_bytes (slab_addrs p u szs ! i) (szs ! i) = {}" by blast+
qed

text \<open>
  C17: what a sequence of requests gets. Let the page allocator be well formed, its own bytes and at most
  253 trees in use, a page left, and no slab node made yet. However many requests of at most 2048 bytes
  follow, as long as they need at most 503 slabs together, headers included, every kmalloc returns; the
  first one takes an unused page p for the node, and the blocks are packed into this page one behind the
  other: they lie in the page, behind the header of the node, and are pairwise disjoint. The page
  allocator is as well formed as before, with just p more in use, and nothing outside the page and the
  allocator's trees is written.
\<close>
theorem kmalloc_sequence_packs:
  assumes lz: "is_bsr lz" and ok: "buddy_ok (smem s)" "own_pages_used (smem s)" "unat (buddy_count (smem s)) \<le> 253"
    and left: "\<exists>p < 2048 * unat (buddy_count (smem s)). p \<notin> used_pages (smem s)" and first: "free_list s = NULL"
    and szs: "szs \<noteq> []" "\<forall>sz \<in> set szs. unat sz \<le> 2048" "slabs_of szs \<le> 503"
  shows "\<exists>s' p. alloc_seq (kmalloc lz) szs s = Ret (s', slab_addrs p 0 szs) \<and> p \<notin> used_pages (smem s) \<and>
    buddy_ok (smem s') \<and> used_pages (smem s') = insert p (used_pages (smem s)) \<and>
    (\<forall>i < length szs. block_bytes (slab_addrs p 0 szs ! i) (szs ! i) \<subseteq> {page_addr p + 80..<page_addr p + 4096} \<and>
       (\<forall>j < i. block_bytes (slab_addrs p 0 szs ! j) (szs ! j) \<inter> block_bytes (slab_addrs p 0 szs ! i) (szs ! i) = {})) \<and>
    (\<forall>x. outside_trees (smem s) x \<and> 4096 \<le> x - of_nat (page_addr p) \<longrightarrow> smem s' x = smem s x)"
proof -
  obtain m a where a: "kalloc lz (smem s) 1 = Ret (m, a)" "allocated (smem s) m a 1"
    using kalloc_one [OF lz ok(1) left] by blast
  then obtain p where p: "unat a = page_addr p" "p < 2048 * unat (buddy_count (smem s))" "p \<notin> used_pages (smem s)"
      "used_pages m = insert p (used_pages (smem s))" "buddy_ok m" "buddy_count m = buddy_count (smem s)"
      "\<forall>x. outside_trees (smem s) x \<longrightarrow> m x = smem s x"
    by (auto simp: allocated_def)
  have low: "page_addr p + 4160 < 2 ^ 31" using p(2) ok(3) by (simp add: page_addr_def)
  have a_p: "a = of_nat (page_addr p)" using p(1) by (metis unat_eqD unsigned_of_nat)
  obtain sz rest where list: "szs = sz # rest" using szs(1) by (cases szs) auto
  then have sum: "slabs_of szs = slabs_for (unat sz) + slabs_of rest" by (simp add: slabs_of_def)
  obtain m1 where m1: "kmalloc lz sz s = Ret (\<lparr>smem = m1, free_list = a\<rparr>, slab_addr p 0)"
      "packed p (slabs_for (unat sz)) \<lparr>smem = m1, free_list = a\<rparr>" "\<forall>x. 4096 \<le> x - a \<longrightarrow> m1 x = m x"
    using kmalloc_new_node [OF _ first, of sz lz m p] a(1) szs(2) unfolding a_p list by auto
  obtain m2 where m2: "alloc_seq (kmalloc lz) rest \<lparr>smem = m1, free_list = a\<rparr> =
        Ret (\<lparr>smem = m2, free_list = a\<rparr>, slab_addrs p (slabs_for (unat sz)) rest)"
      "\<forall>x. 4096 \<le> x - a \<longrightarrow> m2 x = m1 x"
    using kmalloc_packed_seq [OF m1(2) _ _ low, of rest lz] szs(2,3) sum unfolding a_p list by auto
  have run: "alloc_seq (kmalloc lz) szs s = Ret (\<lparr>smem = m2, free_list = a\<rparr>, slab_addrs p 0 szs)"
    by (simp add: list m1(1) m2(1))
  have far: "m2 x = m x" if "4096 \<le> x - a" for x using that m1(3) m2(2) by simp
  have "m2 x = m x" if "unat x < 16777224 + 512 * unat (buddy_count m)" for x
    using that behind_trees [OF ok(2) p(3)] low p(1,6) by (intro far page_far) simp_all
  moreover have "unat (buddy_count m) < 510" using ok(3) p(6) by simp
  ultimately have "buddy_ok m2" "used_pages m2 = insert p (used_pages (smem s))"
    using allocator_frame [of m m2] p(4,5) by auto
  moreover have "block_bytes (slab_addrs p 0 szs ! i) (szs ! i) \<subseteq> {page_addr p + 80..<page_addr p + 4096}" if "i < length szs" for i
    using slab_addrs_blocks(1) [OF low, of 0 szs i] szs(3) that by fastforce
  ultimately show ?thesis
    using run p(3,7) far slab_addrs_blocks(2) [OF low, of 0 szs] szs(3)
    by (intro exI [of _ "\<lparr>smem = m2, free_list = a\<rparr>"] exI [of _ p]) (simp add: a_p)
qed

text \<open>A heap after the first request, of 8 bytes.\<close>

lemma packed_heap: "\<exists>p s. packed p 2 s \<and> page_addr p + 4160 < 2 ^ 31"
proof -
  obtain m where m: "buddy_ok m" "unat (buddy_count m) = 16" "used_pages m = {0..<4}"
    using init_system_sound [OF is_bsr_bsr, of "0x8000000" "\<lambda>_. 0"] block_pages_12k by auto
  have "\<exists>p < 2048 * unat (buddy_count m). p \<notin> used_pages m" using m(2,3) by (intro exI [of _ 4]) simp
  from kalloc_one [OF is_bsr_bsr m(1) this] obtain m' a p where p: "kalloc bsr m 1 = Ret (m', a)" "unat a = page_addr p" "p < 32768"
    using m(2) by (auto simp: allocated_def)
  have "a = of_nat (page_addr p)" using p(2) by (metis unat_eqD unsigned_of_nat)
  then obtain s where "packed p (slabs_for (unat (8 :: u32))) s"
    using kmalloc_new_node [of 8 "\<lparr>smem = m, free_list = NULL\<rparr>" bsr m' p] p(1) by auto
  moreover have "slabs_for (unat (8 :: u32)) = 2" by simp
  moreover have "page_addr p + 4160 < 2 ^ 31" using p(3) by (simp add: page_addr_def)
  ultimately show ?thesis by metis
qed

text \<open>After init_buddy_system for 128 MB, requests of 100, 20 and 2048 bytes: 14, 4 and 257 slabs.\<close>

theorem kmalloc_sequence_packs_witness:
  "\<exists>m s' p. init_buddy_system bsr (\<lambda>_. 0) 0x8000000 = Ret m \<and>
     alloc_seq (kmalloc bsr) [100, 20, 2048] \<lparr>smem = m, free_list = NULL\<rparr> =
       Ret (s', [slab_addr p 0, slab_addr p 14, slab_addr p 18]) \<and> 4 \<le> p \<and> used_pages (smem s') = insert p {0..<4}"
proof -
  obtain m where m: "init_buddy_system bsr (\<lambda>_. 0) 0x8000000 = Ret m" "buddy_ok m" "unat (buddy_count m) = 16"
      "used_pages m = {0..<4}" "{16777216..<16777216 + 8 + 512 * 16} \<subseteq> page_bytes (used_pages m)"
    using init_system_sound [OF is_bsr_bsr, of "0x8000000" "\<lambda>_. 0"] block_pages_12k by auto
  have "own_pages_used m" using m(3,5) by (simp add: own_pages_used_def add.commute)
  moreover have "\<exists>p < 2048 * unat (buddy_count m). p \<notin> used_pages m" using m(3,4) by (intro exI [of _ 4]) simp
  moreover have "slabs_of [100, 20, 2048] = 275" by (simp add: slabs_of_def)
  moreover have "slab_addrs p 0 [100, 20, 2048] = [slab_addr p 0, slab_addr p 14, slab_addr p 18]" for p by simp
  ultimately obtain s' p where "alloc_seq (kmalloc bsr) [100, 20, 2048] \<lparr>smem = m, free_list = NULL\<rparr> =
        Ret (s', [slab_addr p 0, slab_addr p 14, slab_addr p 18])"
      "p \<notin> {0..<4}" "used_pages (smem s') = insert p {0..<4}"
    using kmalloc_sequence_packs [OF is_bsr_bsr, of "\<lparr>smem = m, free_list = NULL\<rparr>" "[100, 20, 2048]"] m by auto
  then show ?thesis using m(1) by (intro exI [of _ m] exI [of _ s'] exI [of _ p]) (simp del: alloc_seq.simps)
qed

end
