(* ===== verification/Descriptors.thy ===== *)
theory Descriptors
  imports Hardware Buddy_System
begin

text \<open>
  The segment descriptors of kernel/arch/x86/gdt.c and the interrupt gates of
  kernel/arch/x86/idt.c. The entry points of the interrupt stubs (int.asm) and the addresses of
  the tables and of tss_entry, which the linker chooses, are parameters.
\<close>

section \<open>Segment descriptors\<close>

record gdt_entry =
  limit_low :: i16
  base_low :: i16
  base_middle :: u8
  access :: u8
  granularity :: u8
  base_high :: u8

definition SEG_PRES :: "u32 \<Rightarrow> u32" where "SEG_PRES x = push_bit 15 x"
definition SEG_PRIV :: "u32 \<Rightarrow> u32" where "SEG_PRIV x = push_bit 13 x"
definition SEG_DSCT :: "u32 \<Rightarrow> u32" where "SEG_DSCT x = push_bit 12 x"
definition SEG_GRAN :: "u32 \<Rightarrow> u32" where "SEG_GRAN x = push_bit 7 x"
definition SEG_OPSZ :: "u32 \<Rightarrow> u32" where "SEG_OPSZ x = push_bit 6 x"
definition SEG_LONG :: "u32 \<Rightarrow> u32" where "SEG_LONG x = push_bit 5 x"
definition SEG_SAVL :: "u32 \<Rightarrow> u32" where "SEG_SAVL x = push_bit 4 x"

lemmas seg_defs = SEG_PRES_def SEG_PRIV_def SEG_DSCT_def SEG_GRAN_def SEG_OPSZ_def SEG_LONG_def SEG_SAVL_def

definition GDT_CODE_PL0 :: u32 where
  "GDT_CODE_PL0 = SEG_PRES 1 OR SEG_PRIV 0 OR SEG_DSCT 1 OR SEG_GRAN 1 OR SEG_OPSZ 1
     OR SEG_LONG 0 OR SEG_SAVL 0 OR 0x0A"

definition GDT_DATA_PL0 :: u32 where
  "GDT_DATA_PL0 = SEG_PRES 1 OR SEG_PRIV 0 OR SEG_DSCT 1 OR SEG_GRAN 1 OR SEG_OPSZ 1
     OR SEG_LONG 0 OR SEG_SAVL 0 OR 0x02"

definition GDT_CODE_PL3 :: u32 where
  "GDT_CODE_PL3 = SEG_PRES 1 OR SEG_PRIV 3 OR SEG_DSCT 1 OR SEG_GRAN 1 OR SEG_OPSZ 1
     OR SEG_LONG 0 OR SEG_SAVL 0 OR 0x0A"

definition GDT_DATA_PL3 :: u32 where
  "GDT_DATA_PL3 = SEG_PRES 1 OR SEG_PRIV 3 OR SEG_DSCT 1 OR SEG_GRAN 1 OR SEG_OPSZ 1
     OR SEG_LONG 0 OR SEG_SAVL 0 OR 0x02"

definition GDT_TSS_PL0 :: u32 where
  "GDT_TSS_PL0 = SEG_PRES 1 OR SEG_PRIV 0 OR SEG_DSCT 1 OR SEG_GRAN 1 OR SEG_OPSZ 1
     OR SEG_LONG 0 OR SEG_SAVL 1 OR 0x09"

lemmas gdt_flags = GDT_CODE_PL0_def GDT_DATA_PL0_def GDT_CODE_PL3_def GDT_DATA_PL3_def GDT_TSS_PL0_def

type_synonym gdt_table = "nat \<Rightarrow> gdt_entry"

text \<open>
  A store into a narrower field keeps its low bits: base_middle and base_high get the low byte of
  base & 0x00FF0000 and base & 0xFF000000.
\<close>

definition gdt_set_gate :: "nat \<Rightarrow> u32 \<Rightarrow> u32 \<Rightarrow> u32 \<Rightarrow> gdt_table \<times> trace \<Rightarrow> gdt_table \<times> trace" where
  "gdt_set_gate num base limit flags = (\<lambda>(gdt, t).
     let flags = scast (ucast flags :: i16) :: u32;
         gran = ucast (limit AND 0x000F) :: u8
     in (gdt(num := \<lparr>
           limit_low = ucast (limit AND 0x0000FFFF),
           base_low = ucast (base AND 0x0000FFFF),
           base_middle = ucast (base AND 0x00FF0000),
           access = ucast (drop_bit 8 (flags AND 0xF000) OR (flags AND 0x000F)),
           granularity = gran OR ucast (flags AND 0x00F0),
           base_high = ucast (base AND 0xFF000000)\<rparr>),
         t @ [Printk ''Setting gdt %d, base 0x%08X, limit 0x%08X, flags %016b\<newline>'' [of_nat num, base, limit, flags]]))"

record gdt_ptr =
  gp_limit :: i16
  gp_base :: u32

text \<open>The GDT after gdt_install, with what the CPU is given to load.\<close>

definition gdt_install :: "u32 \<Rightarrow> u32 \<Rightarrow> u32 \<Rightarrow> u32 \<Rightarrow> gdt_table \<times> trace \<Rightarrow> gdt_table \<times> gdt_ptr \<times> trace" where
  "gdt_install gdt_addr gp_addr tss_addr tss_size = (\<lambda>(gdt, t0).
     let t1 = t0 @ [Printk ''Creating GDT table\<newline>'' []];
         gp = \<lparr>gp_limit = 8 * 3 - 1, gp_base = gdt_addr\<rparr>;
         t2 = t1 @ [Printk ''GDT limit 0x%04X. base 0x%08X\<newline>'' [scast (gp_limit gp), gp_base gp]];
         s0 = gdt_set_gate 0 0 0 0 (gdt, t2);
         s1 = gdt_set_gate 1 0 0xFFFFFFFF GDT_CODE_PL0 s0;
         s2 = gdt_set_gate 2 0 0xFFFFFFFF GDT_DATA_PL0 s1;
         s3 = gdt_set_gate 3 0 0xFFFFFFFF GDT_CODE_PL3 s2;
         s4 = gdt_set_gate 4 0 0xFFFFFFFF GDT_DATA_PL3 s3;
         (gdt5, t5) = gdt_set_gate 5 tss_addr (tss_addr + tss_size) GDT_TSS_PL0 s4
     in (gdt5, gp, t5 @ [Lgdt gp_addr, Printk ''Flushed GP at 0x%08X\<newline>'' [gp_addr]]))"

section \<open>Interrupt gates\<close>

record idt_entry =
  base_lo :: i16
  sel :: i16
  zero_byte :: u8
  flags :: u8
  base_hi :: i16

text \<open>
  The callbacks registered with subscribe_irq are named by their address. The table of callbacks
  is the page irq_handlers points to.
\<close>

record irq_handler =
  data :: addr
  callback :: addr

record idts =
  idt :: "nat \<Rightarrow> idt_entry"
  idtp_limit :: i16
  idtp_base :: u32
  irq_handlers :: "nat \<Rightarrow> irq_handler"
  irq_page :: addr
  idt_trace :: trace

abbreviation IDT_SIZE :: nat where
  "IDT_SIZE \<equiv> 256"

definition zero_gate :: idt_entry where
  "zero_gate = \<lparr>base_lo = 0, sel = 0, zero_byte = 0, flags = 0, base_hi = 0\<rparr>"

definition IDT_INTR_PL0 :: u8 where
  "IDT_INTR_PL0 = push_bit 7 1 OR push_bit 6 0 OR push_bit 4 0 OR 0x0E"

text \<open>
  idt[num] for num at or beyond IDT_SIZE is memory behind the table; it is entry num of the
  function idt, which no gate of the CPU is read from.
\<close>

definition idt_set_gate :: "nat \<Rightarrow> u32 \<Rightarrow> i16 \<Rightarrow> u8 \<Rightarrow> idts \<Rightarrow> idts" where
  "idt_set_gate num base sl fl s =
     s\<lparr>idt_trace := idt_trace s @ [Printk ''Setting idt gate: %02d, Base 0x%08X, Segment 0x%02X, Flags %08b\<newline>''
          [of_nat num, base, scast sl, ucast fl]],
       idt := (idt s)(num := \<lparr>base_lo = ucast (base AND 0xFFFF), sel = sl, zero_byte = 0, flags = fl,
          base_hi = ucast (drop_bit 16 base AND 0xFFFF)\<rparr>)\<rparr>"

definition idt_install ::
    "(u32 \<Rightarrow> u32) \<Rightarrow> (nat \<Rightarrow> u32) \<Rightarrow> u32 \<Rightarrow> u32 \<Rightarrow> mem \<Rightarrow> idts \<Rightarrow> (mem \<times> idts) run" where
  "idt_install lz isr idt_addr idtp_addr m s =
     (let s1 = s\<lparr>idt_trace := idt_trace s @ [Printk ''Creating IDT table\<newline>'' []]\<rparr>;
          s2 = s1\<lparr>idtp_limit := 8 * 256 - 1, idtp_base := idt_addr\<rparr>;
          s3 = s2\<lparr>idt_trace := idt_trace s2 @ [Printk ''IDTP limit 0x%4X, base 0x%8X\<newline>''
                 [scast (idtp_limit s2), idtp_base s2]]\<rparr>;
          s4 = s3\<lparr>idt := \<lambda>n. if n < 256 then zero_gate else idt s3 n\<rparr>;
          s5 = fold (\<lambda>n. idt_set_gate n (isr n) 0x08 IDT_INTR_PL0) [0..<32] s4;
          s6 = s5\<lparr>idt_trace := idt_trace s5 @ [Lidt idtp_addr, Printk ''Pushed IDTP at 0x%8X\<newline>'' [idtp_addr]]\<rparr>
      in run_bind (kalloc lz m 1) (\<lambda>(m', page). Ret (m', s6\<lparr>irq_page := page\<rparr>)))"

text \<open>Vectors 32 to 47 lead to irq0 to irq15, vector 48 to irqTime.\<close>

definition set_irq_gates :: "(nat \<Rightarrow> u32) \<Rightarrow> u32 \<Rightarrow> idts \<Rightarrow> idts" where
  "set_irq_gates irq irqTime s =
     idt_set_gate 48 irqTime 0x08 IDT_INTR_PL0
       (fold (\<lambda>n. idt_set_gate (32 + n) (irq n) 0x08 IDT_INTR_PL0) [0..<16] s)"

primrec get_next_irq_loop :: "(nat \<Rightarrow> idt_entry) \<Rightarrow> nat list \<Rightarrow> nat" where
  "get_next_irq_loop tbl [] = IDT_SIZE"
| "get_next_irq_loop tbl (i # is) =
     (if flags (tbl i) = 0 \<and> base_lo (tbl i) = 0 then i else get_next_irq_loop tbl is)"

definition get_next_irq :: "idts \<Rightarrow> nat" where
  "get_next_irq s = get_next_irq_loop (idt s) [64..<IDT_SIZE]"

definition subscribe_irq :: "u32 \<Rightarrow> nat \<Rightarrow> addr \<Rightarrow> addr \<Rightarrow> idts \<Rightarrow> idts" where
  "subscribe_irq stub irq handler dat s =
     (let s1 = idt_set_gate irq stub 0x08 IDT_INTR_PL0 s
      in s1\<lparr>irq_handlers := (irq_handlers s1)(irq := \<lparr>data = dat, callback = handler\<rparr>)\<rparr>)"

text \<open>
  idt_call_irq calls the callback of the vector. What a call of the code at an address does, given
  the number in the registers it is passed and its data, is the parameter call: a computation on
  whatever state w the callbacks work on.
\<close>

definition idt_call_irq :: "(addr \<Rightarrow> u8 \<Rightarrow> addr \<Rightarrow> 'w \<Rightarrow> 'w run) \<Rightarrow> nat \<Rightarrow> u8 \<Rightarrow> idts \<Rightarrow> 'w \<Rightarrow> 'w run" where
  "idt_call_irq call irq int_no s w = call (callback (irq_handlers s irq)) int_no (data (irq_handlers s irq)) w"

text \<open>
  The exceptions. The table of their names has 19 entries for 32 vectors; lit is where the compiler
  puts a literal. The handler never returns: the stubs of int.asm have cleared the interrupt flag, so
  hlt stops the CPU for good. The result is the state it stops in, and how.
\<close>

definition idt_error_desc :: "string list" where
  "idt_error_desc =
    [''Devide by zero Exception.'',
     ''Debug Exception.'',
     ''Non maskable interupt Exception.'',
     ''Breakpoint Exception.'',
     ''Overflow Exception.'',
     ''Out of bounds Exception.'',
     ''Invalid opcode Exception.'',
     ''No compressor Exception.'',
     ''Double fault Exception.'',
     ''Coprocessor Segment Overrun Exception.'',
     ''Bad TSS Exception.'',
     ''Segment not present Exception.'',
     ''Stack fault Exception.'',
     ''General protection fault Exception.'',
     ''Page fault Exception.'',
     ''Unknown interupt Exception.'',
     ''Compressor fault Exception.'',
     ''Alignment check Exception.'',
     ''Machine check Exception.'']"

definition idt_common_handler :: "(string \<Rightarrow> addr) \<Rightarrow> nat \<Rightarrow> idts \<Rightarrow> idts \<times> trap" where
  "idt_common_handler lit int_no s =
     (if int_no < length idt_error_desc
      then (s\<lparr>idt_trace := idt_trace s @ [Printk ''Encountered %s halting..\<newline>'' [lit (idt_error_desc ! int_no)], Hlt]\<rparr>, Halted)
      else (s, Out_of_bounds))"

section \<open>How the CPU reads a descriptor\<close>

definition segment_base :: "gdt_entry \<Rightarrow> u32" where
  "segment_base d = ucast (base_low d) OR push_bit 16 (ucast (base_middle d)) OR push_bit 24 (ucast (base_high d))"

definition segment_limit :: "gdt_entry \<Rightarrow> u32" where
  "segment_limit d =
     (let l = ucast (limit_low d) OR push_bit 16 (ucast (granularity d) AND 0xF)
      in if bit (granularity d) 7 then push_bit 12 l OR 0xFFF else l)"

definition segment_dpl :: "gdt_entry \<Rightarrow> u8" where
  "segment_dpl d = drop_bit 5 (access d) AND 3"

definition gate_base :: "idt_entry \<Rightarrow> u32" where
  "gate_base g = ucast (base_lo g) OR push_bit 16 (ucast (base_hi g))"

definition gate_present :: "idt_entry \<Rightarrow> bool" where
  "gate_present g = bit (flags g) 7"

definition gate_dpl :: "idt_entry \<Rightarrow> u8" where
  "gate_dpl g = drop_bit 5 (flags g) AND 3"

text \<open>The type of a gate, with the bit that is 0 in every gate: 0x0E is a 32-bit interrupt gate.\<close>

definition gate_type :: "idt_entry \<Rightarrow> u8" where
  "gate_type g = flags g AND 0x1F"

section \<open>The segments\<close>

lemma gdt_flag_values:
  "GDT_CODE_PL0 = 0x90CA" "GDT_DATA_PL0 = 0x90C2" "GDT_CODE_PL3 = 0xF0CA" "GDT_DATA_PL3 = 0xF0C2"
  "GDT_TSS_PL0 = 0x90D9"
  by (simp_all add: gdt_flags seg_defs)

text \<open>
  After gdt_install the code and data segments of the kernel (privilege 0) and of user mode
  (privilege 3) all start at address 0, span 4 GB and are present.
\<close>
theorem gdt_segments_flat:
  assumes "gdt_install gdt_addr gp_addr tss_addr tss_size (gdt0, t) = (g, gp, t')" and "n \<in> {1, 2, 3, 4}"
  shows "segment_base (g n) = 0 \<and> segment_limit (g n) = 0xFFFFFFFF \<and> bit (access (g n)) 7 \<and>
    segment_dpl (g n) = (if n \<le> 2 then 0 else 3) \<and> bit (access (g n)) 3 = (n = 1 \<or> n = 3)"
  using assms
  by (elim insertE emptyE)
    (auto simp: gdt_install_def gdt_set_gate_def Let_def segment_base_def segment_limit_def
      segment_dpl_def gdt_flag_values)


definition boot_gdt :: gdt_table where
  "boot_gdt = (\<lambda>_. \<lparr>limit_low = 0, base_low = 0, base_middle = 0, access = 0, granularity = 0, base_high = 0\<rparr>)"

theorem gdt_segments_flat_witness:
  "case gdt_install 0xC0200000 0xC0200100 0xC0345678 104 (boot_gdt, []) of (g, gp, t) \<Rightarrow>
     segment_base (g 2) = 0 \<and> segment_limit (g 2) = 0xFFFFFFFF"
proof -
  obtain g gp t where eq: "gdt_install 0xC0200000 0xC0200100 0xC0345678 104 (boot_gdt, []) = (g, gp, t)"
    by (cases "gdt_install 0xC0200000 0xC0200100 0xC0345678 104 (boot_gdt, [])") auto
  show ?thesis using gdt_segments_flat [OF eq, of 2] unfolding eq by simp
qed

text \<open>
  The bytes 2 and 3 of a segment's base are lost: gdt_set_gate stores base & 0x00FF0000 and
  base & 0xFF000000 into bytes. The descriptor of the task state segment therefore points to its
  address modulo 65536, and the limit loaded into the GDT register covers 3 of the 6 descriptors.
\<close>

lemma tss_base_truncated:
  assumes "gdt_install gdt_addr gp_addr tss_addr tss_size (gdt0, t) = (g, gp, t')"
  shows "segment_base (g 5) = tss_addr AND 0xFFFF \<and> unat (gp_limit gp) + 1 = 3 * 8"
proof -
  have low: "ucast (ucast b :: 16 word) = b AND 0xFFFF" for b :: u32
  proof -
    have m: "(0xFFFF :: u32) = mask 16" by (simp add: mask_eq_exp_minus_1)
    show ?thesis unfolding m by (rule bit_word_eqI) (auto simp: bit_simps)
  qed
  have mid: "ucast (b AND 0xFF0000) = (0 :: u8)" "ucast (b AND 0xFF000000) = (0 :: u8)" for b :: u32
  proof -
    have m: "(0xFF0000 :: u32) = push_bit 16 (mask 8)" "(0xFF000000 :: u32) = push_bit 24 (mask 8)"
      by (simp_all add: mask_eq_exp_minus_1)
    show "ucast (b AND 0xFF0000) = (0 :: u8)" "ucast (b AND 0xFF000000) = (0 :: u8)"
      unfolding m by (rule bit_word_eqI; simp add: bit_simps)+
  qed
  show ?thesis using assms
    by (auto simp: gdt_install_def gdt_set_gate_def Let_def segment_base_def low mid)
qed


section \<open>The gates\<close>

lemma gate_base_set [simp]: "gate_base (idt (idt_set_gate n b sl fl s) n) = b"
proof -
  have m: "(0xFFFF :: u32) = mask 16" by (simp add: mask_eq_exp_minus_1)
  have "gate_base (idt (idt_set_gate n b sl fl s) n) =
    ucast (ucast (b AND mask 16) :: 16 word) OR push_bit 16 (ucast (ucast (drop_bit 16 b AND mask 16) :: 16 word))"
    unfolding m [symmetric] by (simp add: gate_base_def idt_set_gate_def)
  also have "\<dots> = b" by (rule bit_word_eqI) (auto simp: bit_simps)
  finally show ?thesis .
qed

lemma idt_set_gate_other [simp]: "k \<noteq> n \<Longrightarrow> idt (idt_set_gate n b sl fl s) k = idt s k"
  by (simp add: idt_set_gate_def)

lemma idt_set_gate_fields [simp]:
  "flags (idt (idt_set_gate n b sl fl s) n) = fl" "sel (idt (idt_set_gate n b sl fl s) n) = sl"
  "irq_handlers (idt_set_gate n b sl fl s) = irq_handlers s"
  by (simp_all add: idt_set_gate_def)

text \<open>A run of gates: each vector of the run gets its own stub, no other vector changes.\<close>

lemma fold_gates:
  assumes "distinct ns"
  shows "idt (fold (\<lambda>n. idt_set_gate (off + n) (f n) sl fl) ns s) k =
    (if \<exists>n \<in> set ns. k = off + n then idt (idt_set_gate k (f (k - off)) sl fl s) k else idt s k)"
  using assms
proof (induction ns arbitrary: s)
  case (Cons n ns)
  show ?case
  proof (cases "k = off + n")
    case True
    then show ?thesis using Cons by (auto simp: idt_set_gate_def)
  next
    case False
    then show ?thesis using Cons by (auto simp: idt_set_gate_def)
  qed
qed simp

text \<open>
  C25: after idt_install and set_irq_gates, vectors 0 to 31 lead to the exception stubs, 32 to 47 to
  the interrupt stubs and 48 to the stub of the APIC timer. All of these gates are present, are 32-bit
  interrupt gates of privilege level 0 (not trap gates, and out of reach of user mode) and lead into the
  kernel's code segment 0x08. The other vectors are not present, and 64 is the first one get_next_irq
  hands out.
\<close>
theorem idt_gates_installed:
  fixes irq :: "nat \<Rightarrow> u32" and irqTime :: u32
  assumes "idt_install lz isr idt_addr idtp_addr m s0 = Ret (m', s1)" and "n < IDT_SIZE"
  defines "s \<equiv> set_irq_gates irq irqTime s1"
  shows "(if n < 49
      then gate_base (idt s n) = (if n < 32 then isr n else if n < 48 then irq (n - 32) else irqTime) \<and>
        gate_present (idt s n) \<and> gate_type (idt s n) = 0x0E \<and> gate_dpl (idt s n) = 0 \<and> sel (idt s n) = 0x08
      else idt s n = zero_gate) \<and> get_next_irq s = 64"
proof -
  let ?z = "\<lambda>n. if n < 256 then zero_gate else idt s0 n"
  have pl0: "IDT_INTR_PL0 = 0x8E" by (simp add: IDT_INTR_PL0_def)
  have ex: "(\<exists>i \<in> set [0..<32]. k = 0 + i) = (k < 32)" for k :: nat by auto
  have hw: "(\<exists>i \<in> set [0..<16]. k = 32 + i) = (32 \<le> k \<and> k < 48)" for k :: nat
    by (auto intro!: exI [of _ "k - 32"] bexI [of _ "k - 32"])
  have s1: "idt s1 k = (if k < 32 then idt (idt_set_gate k (isr k) 0x08 IDT_INTR_PL0 s1) k else ?z k)" for k
    using assms(1) fold_gates [of "[0..<32]" 0 isr "0x08" IDT_INTR_PL0 _ k]
    unfolding idt_install_def ex
    by (auto simp: Let_def run_bind_eq_Ret idt_set_gate_def)
  have s: "idt s k = (if k = 48 then idt (idt_set_gate 48 irqTime 0x08 IDT_INTR_PL0 s1) 48
      else if 32 \<le> k \<and> k < 48 then idt (idt_set_gate k (irq (k - 32)) 0x08 IDT_INTR_PL0 s1) k else idt s1 k)" for k
    unfolding s_def set_irq_gates_def
    using fold_gates [of "[0..<16]" 32 irq "0x08" IDT_INTR_PL0 s1 k] unfolding hw
    by (auto simp: idt_set_gate_def)
  have "[64..<IDT_SIZE] = 64 # [65..<IDT_SIZE]" by (simp add: upt_rec)
  then have "get_next_irq s = 64"
    unfolding get_next_irq_def by (simp add: s s1 zero_gate_def)
  moreover have "gate_present (idt (idt_set_gate k b 0x08 IDT_INTR_PL0 s2) k)"
    "gate_type (idt (idt_set_gate k b 0x08 IDT_INTR_PL0 s2) k) = 0x0E"
    "gate_dpl (idt (idt_set_gate k b 0x08 IDT_INTR_PL0 s2) k) = 0" for k b s2
    by (simp_all add: gate_present_def gate_type_def gate_dpl_def pl0)
  ultimately show ?thesis
    using assms(2) by (auto simp: s s1)
qed


definition boot_idts :: idts where
  "boot_idts = \<lparr>idt = (\<lambda>_. zero_gate), idtp_limit = 0, idtp_base = 0,
     irq_handlers = (\<lambda>_. \<lparr>data = 0, callback = 0\<rparr>), irq_page = 0, idt_trace = []\<rparr>"

theorem idt_gates_installed_witness:
  "\<exists>m' s1. idt_install bsr (\<lambda>n. 0xC0101000 + 16 * of_nat n) 0xC0300000 0xC0300800 empty_system boot_idts = Ret (m', s1) \<and>
     gate_base (idt (set_irq_gates (\<lambda>n. 0xC0102000 + 16 * of_nat n) 0xC0103000 s1) 33) = 0xC0102010 \<and>
     gate_type (idt (set_irq_gates (\<lambda>n. 0xC0102000 + 16 * of_nat n) 0xC0103000 s1) 33) = 0x0E \<and>
     get_next_irq (set_irq_gates (\<lambda>n. 0xC0102000 + 16 * of_nat n) 0xC0103000 s1) = 64"
proof -
  obtain m' page where page: "kalloc bsr empty_system 1 = Ret (m', page)"
    using kballoc_page [OF empty_system(2)] empty_system
    by (force simp: kalloc_def kballoc_def kb_def)
  let ?isr = "\<lambda>n. 0xC0101000 + 16 * of_nat n"
  obtain s1 where s1: "idt_install bsr ?isr 0xC0300000 0xC0300800 empty_system boot_idts = Ret (m', s1)"
    by (simp add: idt_install_def Let_def page)
  then show ?thesis
    using idt_gates_installed [OF s1, of 33 "\<lambda>n. 0xC0102000 + 16 * of_nat n" "0xC0103000"] by auto
qed

end
