(* ===== verification/Timer_System.thy ===== *)
theory Timer_System
  imports Timer
begin

text \<open>
  The software timers in operation: new_timer calls and expiries of the hardware timer in any
  order, as a step relation on the state of kernel/timer.c, and the invariant that ties the queue
  to the bitmap of entries.
\<close>

definition entry_at :: "timers \<Rightarrow> nat \<Rightarrow> addr" where
  "entry_at s n = mem_start s + 16 * of_nat n"

text \<open>
  The queue is sorted, and the entries marked in the bitmap are exactly the queued ones: no entry is
  handed out twice and none is lost.
\<close>

definition timers_ok :: "timers \<Rightarrow> addr list \<Rightarrow> bool" where
  "timers_ok s es \<longleftrightarrow> queued s es \<and> sorted (map (timer s) es) \<and>
     (\<forall>n < 2048. entry_used s n \<longleftrightarrow> entry_at s n \<in> set es) \<and> set es \<subseteq> entry_at s ` {..<2048} \<and>
     mem_start s \<noteq> 0 \<and> unat (mem_start s) + 32768 < 2 ^ 32"

lemma unat_entry_at:
  "unat (mem_start s) + 32768 < 2 ^ 32 \<Longrightarrow> n < 2048 \<Longrightarrow> unat (entry_at s n) = unat (mem_start s) + 16 * n"
proof -
  assume a: "unat (mem_start s) + 32768 < 2 ^ 32" "n < 2048"
  have "entry_at s n = mem_start s + of_nat (16 * n)" by (simp add: entry_at_def)
  then show ?thesis using a by (simp only:) (intro unat_add_of_nat; simp)
qed

lemma entry_at_inject:
  assumes "unat (mem_start s) + 32768 < 2 ^ 32" and "n < 2048" and "k < 2048"
  shows "entry_at s n = entry_at s k \<longleftrightarrow> n = k"
proof
  assume "entry_at s n = entry_at s k"
  then have "unat (mem_start s) + 16 * n = unat (mem_start s) + 16 * k"
    using unat_entry_at [OF assms(1,2)] unat_entry_at [OF assms(1,3)] by metis
  then show "n = k" by simp
qed simp

lemma entry_at_nonnull:
  assumes "mem_start s \<noteq> 0" and "unat (mem_start s) + 32768 < 2 ^ 32" and "n < 2048"
  shows "entry_at s n \<noteq> NULL" "node_of_entry (entry_at s n) \<noteq> NULL"
proof -
  note u = unat_entry_at [OF assms(2,3)]
  have pos: "0 < unat (mem_start s)" using assms(1) by (simp add: unat_gt_0)
  then show "entry_at s n \<noteq> NULL" using u by auto
  have "unat (entry_at s n + of_nat 12) = unat (entry_at s n) + 12"
    using u assms(2,3) by (intro unat_add_of_nat) simp
  then show "node_of_entry (entry_at s n) \<noteq> NULL" by (auto simp: node_of_entry_def)
qed

lemma queued_distinct: "queued s es \<Longrightarrow> distinct es"
  unfolding queued_def using slist_distinct distinct_map by blast

section \<open>Expiry\<close>

lemma run_callback_fields [simp]:
  "mem_start (run_callback f a s) = mem_start s" "bit_map (run_callback f a s) = bit_map s"
  by (simp_all add: run_callback_def Let_def split: callback.splits)

lemma entry_used_fire:
  assumes "n < 2048" and "k < 2048"
  shows "entry_used (fire (entry_at s n) s) k = (if k = n then \<not> entry_used s n else entry_used s k)"
proof -
  let ?r = "run_callback (function_callback s (entry_at s n)) (callback_arg s (entry_at s n)) s"
  have "fire (entry_at s n) s = mark_entry ?r n (\<not> entry_used ?r n)"
    using queue_free_mark [OF assms(1), of ?r] by (simp add: fire_def entry_at_def)
  then show ?thesis using entries.view_put [OF assms, of ?r] by (simp add: entry_used_def)
qed

lemma entry_at_fire [simp]: "entry_at (fire e s) n = entry_at s n"
  by (simp add: entry_at_def)

lemma entry_used_fold_fire:
  assumes "distinct ns" and "set ns \<subseteq> {..<2048}" and "k < 2048"
  shows "entry_used (fold fire (map (entry_at s) ns) s) k =
    (if k \<in> set ns then \<not> entry_used s k else entry_used s k)"
  using assms
proof (induction ns arbitrary: s)
  case (Cons n ns)
  have "map (entry_at s) ns = map (entry_at (fire (entry_at s n) s)) ns" by simp
  then have "entry_used (fold fire (map (entry_at s) (n # ns)) s) k =
      (if k \<in> set ns then \<not> entry_used (fire (entry_at s n) s) k else entry_used (fire (entry_at s n) s) k)"
    using Cons.IH [of "fire (entry_at s n) s"] Cons.prems by simp
  then show ?case using entry_used_fire [of n k s] Cons.prems by auto
qed simp

lemma entry_numbers:
  assumes "distinct es" and "set es \<subseteq> entry_at s ` {..<2048}"
  obtains ns where "es = map (entry_at s) ns" "distinct ns" "set ns \<subseteq> {..<2048}"
proof -
  have "\<exists>ns. es = map (entry_at s) ns \<and> set ns \<subseteq> {..<2048}"
    using assms(2)
  proof (induction es)
    case (Cons e es)
    then obtain n ns where "e = entry_at s n" "n < 2048" "es = map (entry_at s) ns" "set ns \<subseteq> {..<2048}" by auto
    then show ?case by (intro exI [of _ "n # ns"]) simp
  qed simp
  then show thesis using that assms(1) by (auto simp: distinct_map)
qed

lemma handler_keeps_ok:
  assumes ok: "timers_ok s (e # es)"
  shows "\<exists>s'. timer_handler s = Ret s' \<and>
    timers_ok s' (dropWhile (\<lambda>x. timer s x \<le> timer s e) (e # es))"
proof -
  let ?due = "takeWhile (\<lambda>x. timer s x \<le> timer s e) (e # es)"
  let ?rest = "dropWhile (\<lambda>x. timer s x \<le> timer s e) (e # es)"
  have q: "queued s (e # es)" and srt: "sorted (map (timer s) (e # es))"
    and used: "\<forall>n < 2048. entry_used s n \<longleftrightarrow> entry_at s n \<in> set (e # es)"
    and sub: "set (e # es) \<subseteq> entry_at s ` {..<2048}" and ms: "mem_start s \<noteq> 0" "unat (mem_start s) + 32768 < 2 ^ 32"
    using ok by (auto simp: timers_ok_def)
  obtain s' where h: "timer_handler s = Ret s' \<and> timer s' = elapsed (timer s e) (e # es) s \<and> queued s' ?rest \<and>
      sorted (map (elapsed (timer s e) (e # es) s) ?rest)" "bit_map s' = bit_map (fold fire ?due s) \<and> mem_start s' = mem_start s"
    using handler_sound [OF q srt] by blast
  then have s': "timer_handler s = Ret s'" "queued s' ?rest" "sorted (map (timer s') ?rest)"
    "bit_map s' = bit_map (fold fire ?due s)" "mem_start s' = mem_start s"
    by (simp_all only: simp_thms)
  have split: "e # es = ?due @ ?rest" by (rule takeWhile_dropWhile_id [symmetric])
  have dist: "distinct (?due @ ?rest)" using queued_distinct [OF q] split by metis
  have sets: "set (e # es) = set ?due \<union> set ?rest" "set ?due \<inter> set ?rest = {}"
    using split dist by (metis set_append, metis distinct_append)
  have "set ?due \<subseteq> entry_at s ` {..<2048}" using sub sets(1) by blast
  moreover have "distinct ?due" using dist by (metis distinct_append)
  ultimately obtain ns where ns: "?due = map (entry_at s) ns" "distinct ns" "set ns \<subseteq> {..<2048}"
    using entry_numbers by blast
  have at: "entry_at s' = entry_at s" using s'(5) by (simp add: entry_at_def fun_eq_iff)
  have "entry_used s' k \<longleftrightarrow> entry_at s k \<in> set ?rest" if k: "k < 2048" for k
  proof -
    have "entry_used s' k = (if k \<in> set ns then \<not> entry_used s k else entry_used s k)"
      using entry_used_fold_fire [OF ns(2,3) k, of s] s'(4) unfolding ns(1) by (simp add: entry_used_def)
    moreover have "k \<in> set ns \<longleftrightarrow> entry_at s k \<in> set ?due"
      unfolding ns(1) using ns(3) k entry_at_inject [OF ms(2)] by (auto simp: subset_iff)
    ultimately show ?thesis using used k sets by auto
  qed
  moreover have "set ?rest \<subseteq> entry_at s ` {..<2048}" using sub sets(1) by blast
  ultimately have "timers_ok s' ?rest" using s' ms unfolding timers_ok_def at by simp
  then show ?thesis using s'(1) by blast
qed

section \<open>Starting a timer\<close>

lemma new_timer_keeps_ok:
  assumes ok: "timers_ok s es" and free: "\<exists>n < 2048. \<not> entry_used s n" and t: "time \<noteq> 0"
  shows "\<exists>s' e. new_timer count time f arg s = Ret s' \<and> e \<notin> set es \<and>
    (\<exists>us vs. es = us @ vs \<and> timers_ok s' (us @ e # vs)) \<and> timer s' e = time \<and> snd (allocate_new_entry s) = e"
proof -
  let ?n = "LEAST n. \<not> entry_used s n"
  let ?e = "entry_at s ?n"
  let ?s1 = "mark_entry s ?n True"
  let ?s2 = "?s1\<lparr>timer := (timer ?s1)(?e := time), function_callback := (function_callback ?s1)(?e := f),
      callback_arg := (callback_arg ?s1)(?e := arg)\<rparr>"
  have q: "queued s es" and srt: "sorted (map (timer s) es)"
    and used: "\<forall>n < 2048. entry_used s n \<longleftrightarrow> entry_at s n \<in> set es"
    and sub: "set es \<subseteq> entry_at s ` {..<2048}" and ms: "mem_start s \<noteq> 0" "unat (mem_start s) + 32768 < 2 ^ 32"
    using ok by (auto simp: timers_ok_def)
  obtain n where n: "n < 2048" "\<not> entry_used s n" using free by blast
  have l: "\<not> entry_used s ?n" "?n < 2048"
    by (rule LeastI [of "\<lambda>n. \<not> entry_used s n", OF n(2)],
        rule order.strict_trans1 [OF Least_le [of "\<lambda>n. \<not> entry_used s n", OF n(2)] n(1)])
  have alloc: "allocate_new_entry s = (?s1, ?e)" using free by (simp add: allocate_search Let_def entry_at_def)
  note nn = entry_at_nonnull [OF ms l(2)]
  have new: "?e \<notin> set es" using used l by blast
  have at: "entry_at ?s2 = entry_at s" by (simp add: entry_at_def fun_eq_iff mark_entry_def)
  have q2: "queued ?s2 es" using q by (simp add: queued_def mark_entry_def)
  have same: "map (timer ?s2) es = map (timer s) es" using new by (auto simp: mark_entry_def)
  have srt2: "sorted (map (timer ?s2) es)" unfolding same by (rule srt)
  let ?t = "elapsed (if es = [] then 0 else timer ?s2 (hd es) - count) es ?s2"
  obtain s' where h: "queue_add_timer count ?e ?s2 = Ret s' \<and> timer s' = ?t \<and> queued s' (inserted ?t ?e es) \<and>
      sorted (map (timer s') (inserted ?t ?e es))" "bit_map s' = bit_map ?s2 \<and> mem_start s' = mem_start ?s2"
    using add_timer_sound [OF q2 srt2 new nn, of count] by blast
  then have t': "?t = timer s'" by (simp only: simp_thms)
  have "timer s' ?e = timer ?s2 ?e" using new unfolding t' [symmetric] elapsed_def by (rule if_not_P)
  with h have s': "queue_add_timer count ?e ?s2 = Ret s'" "queued s' (inserted (timer s') ?e es)"
      "sorted (map (timer s') (inserted (timer s') ?e es))" "bit_map s' = bit_map ?s2" "mem_start s' = mem_start ?s2"
      "timer s' ?e = timer ?s2 ?e"
    unfolding t' by (simp_all only: simp_thms)
  have run: "new_timer count time f arg s = Ret s'"
    using t alloc nn(1) s'(1) by (simp add: new_timer_def)
  have ins: "set (inserted (timer s') ?e es) = insert ?e (set es)"
    unfolding inserted_def using takeWhile_dropWhile_id by (metis Un_insert_right list.simps(15) set_append)
  have "entry_used s' k \<longleftrightarrow> entry_at s k \<in> insert ?e (set es)" if "k < 2048" for k
  proof -
    have "entry_used s' k = entry_used ?s1 k" using s'(4) by (simp add: entry_used_def)
    also have "\<dots> = (k = ?n \<or> entry_used s k)" using entries.view_put [OF l(2) that] by auto
    finally show ?thesis using used that entry_at_inject [OF ms(2) that l(2)] by auto
  qed
  moreover have "entry_at s' = entry_at s" using s'(5) by (simp add: entry_at_def fun_eq_iff mark_entry_def)
  ultimately have "timers_ok s' (inserted (timer s') ?e es)"
    unfolding timers_ok_def ins using s' sub ms l(2) by (simp add: mark_entry_def)
  moreover have "timer s' ?e = time \<and> snd (allocate_new_entry s) = ?e" using s'(6) alloc by simp
  ultimately show ?thesis using run new unfolding inserted_def by (metis takeWhile_dropWhile_id)
qed

section \<open>Any interleaving\<close>

inductive timer_step :: "timers \<Rightarrow> timers \<Rightarrow> bool" where
  start: "new_timer count time f arg s = Ret s' \<Longrightarrow> timer_step s s'"
| expire: "timer_handler s = Ret s' \<Longrightarrow> timer_step s s'"

inductive_cases timer_stepE: "timer_step s s'"

lemma run_callback_ok: "timers_ok s es \<Longrightarrow> timers_ok (run_callback f arg s) es"
  by (simp add: timers_ok_def queued_def entry_used_def entry_at_def [abs_def] run_callback_def Let_def
      split: callback.splits)

lemma timer_step_ok:
  assumes "timer_step s s'" and ok: "timers_ok s es"
  shows "\<exists>es'. timers_ok s' es'"
  using assms(1)
proof (cases rule: timer_step.cases)
  case (start count time f arg)
  show ?thesis
  proof (cases "time = 0")
    case True
    then show ?thesis using start run_callback_ok [OF ok] by (auto simp: new_timer_def)
  next
    case False
    show ?thesis
    proof (cases "\<exists>n < 2048. \<not> entry_used s n")
      case True
      then show ?thesis using new_timer_keeps_ok [OF ok True False, of count f arg] start by auto
    next
      case full: False
      then have "allocate_new_entry s = (s, NULL)" unfolding allocate_search by (subst if_not_P) auto
      then show ?thesis using start False by (simp add: new_timer_def)
    qed
  qed
next
  case expire
  show ?thesis
  proof (cases es)
    case Nil
    then have "slist_head s = NULL" using ok by (simp add: timers_ok_def queued_def)
    then show ?thesis using expire by (simp add: timer_handler_def)
  next
    case (Cons e es')
    then show ?thesis using handler_keeps_ok [of s e es'] ok expire by auto
  qed
qed

text \<open>
  In whatever order timers are started and the hardware timer expires, the queue stays sorted
  by the time left, and the entries marked in the bitmap stay exactly the queued ones: no entry is
  queued twice, handed out while in use, or lost.
\<close>
theorem timers_invariant:
  assumes "timer_step\<^sup>*\<^sup>* s s'" and "timers_ok s es"
  shows "\<exists>es'. timers_ok s' es'"
  using assms
proof (induction arbitrary: es rule: converse_rtranclp_induct)
  case (step s s1)
  then show ?case using timer_step_ok by blast
qed blast

text \<open>
  Neither operation can get stuck in such a state: a timer is started unless all 2048 entries
  are in use, and an expiry is handled unless the queue is empty, when timer_handler follows a
  null pointer. After an expiry only entries due later remain.
\<close>
theorem timers_progress:
  assumes "timers_ok s es"
  shows "((\<exists>n < 2048. \<not> entry_used s n) \<longrightarrow> (\<exists>s'. new_timer count time f arg s = Ret s' \<and> timer_step s s')) \<and>
    (case es of [] \<Rightarrow> timer_handler s = Trap Null_deref
     | e # _ \<Rightarrow> \<exists>s'. timer_handler s = Ret s' \<and> timers_ok s' (dropWhile (\<lambda>x. timer s x \<le> timer s e) es))"
proof (intro conjI impI)
  assume free: "\<exists>n < 2048. \<not> entry_used s n"
  show "\<exists>s'. new_timer count time f arg s = Ret s' \<and> timer_step s s'"
  proof (cases "time = 0")
    case True
    then have "new_timer count time f arg s = Ret (run_callback f arg s)" by (simp add: new_timer_def)
    then show ?thesis by (blast intro: timer_step.start)
  next
    case False
    then show ?thesis using new_timer_keeps_ok [OF assms free False] by (blast intro: timer_step.start)
  qed
next
  show "case es of [] \<Rightarrow> timer_handler s = Trap Null_deref
     | e # _ \<Rightarrow> \<exists>s'. timer_handler s = Ret s' \<and> timers_ok s' (dropWhile (\<lambda>x. timer s x \<le> timer s e) es)"
  proof (cases es)
    case Nil
    then have "slist_head s = NULL" using assms by (simp add: timers_ok_def queued_def)
    then show ?thesis using Nil by (simp add: timer_handler_def)
  next
    case (Cons e es')
    then show ?thesis using handler_keeps_ok [of s e es'] assms by simp
  qed
qed

section \<open>Witnesses\<close>

definition no_timers :: timers where
  "no_timers = two_timers\<lparr>bit_map := (\<lambda>_. 0), slist_head := 0\<rparr>"

lemma no_timers_ok: "timers_ok no_timers []"
  by (simp add: timers_ok_def no_timers_def two_timers_def queued_def entry_used_def)

theorem timers_progress_witness:
  "(\<exists>s'. new_timer 0 500 Wakeup_callback 1 no_timers = Ret s') \<and> timer_handler no_timers = Trap Null_deref"
proof -
  have "\<exists>n < 2048. \<not> entry_used no_timers n" by (intro exI [of _ 0]) (simp add: entry_used_def no_timers_def)
  then show ?thesis
    using timers_progress [OF no_timers_ok, of 0 500 Wakeup_callback 1] by auto
qed

theorem timers_invariant_witness:
  "\<exists>s' es. new_timer 0 500 Wakeup_callback 1 no_timers = Ret s' \<and> timers_ok s' es"
proof -
  have "\<exists>n < 2048. \<not> entry_used no_timers n" by (intro exI [of _ 0]) (simp add: entry_used_def no_timers_def)
  then obtain s' where s': "new_timer 0 500 Wakeup_callback 1 no_timers = Ret s'"
    using new_timer_keeps_ok [OF no_timers_ok, of 500 0 Wakeup_callback 1] by fastforce
  then have "timer_step\<^sup>*\<^sup>* no_timers s'" by (blast intro: timer_step.start)
  then show ?thesis using timers_invariant [OF _ no_timers_ok] s' by blast
qed

end
