(* ===== verification/Interrupts.thy ===== *)
theory Interrupts
  imports Hardware Terminal Timer_System
begin

text \<open>
  Hardware interrupts: the PIC and the dispatch of kernel/arch/x86/irq.c, the interval timer of
  kernel/arch/x86/pit.c, the clock of kernel/time.c and the keyboard of kernel/keyboard.c. The
  record kernel holds what the handlers work on: the console, the software timers, the clock and
  the keyboard's shift state. An interrupt runs the handler registered for it and is then
  acknowledged at the PIC and at the local APIC. What the handlers print goes to the console, with
  all that printing does: it may scroll and take a page from the allocator, fail there, or wait for
  the serial line. What the console's devices see is its trace ctrace; ktrace is that of the
  interrupt controllers, of the interval timer and of the keyboard.
\<close>

section \<open>The PIC\<close>

abbreviation PIC1_CMD :: u16 where "PIC1_CMD \<equiv> 0x20"
abbreviation PIC1_DAT :: u16 where "PIC1_DAT \<equiv> 0x21"
abbreviation PIC2_CMD :: u16 where "PIC2_CMD \<equiv> 0xA0"
abbreviation PIC2_DAT :: u16 where "PIC2_DAT \<equiv> 0xA1"

abbreviation APIC_LOCATION :: addr where "APIC_LOCATION \<equiv> 0xFEE00000"
abbreviation APIC_EOI_REGISTER :: u32 where "APIC_EOI_REGISTER \<equiv> 0x0B0"

definition apic_write_reg :: "u32 \<Rightarrow> u32 \<Rightarrow> trace \<Rightarrow> trace" where
  "apic_write_reg reg val t = t @ [Mmio_write (APIC_LOCATION + reg) val]"

definition apic_read_reg :: "hw \<Rightarrow> u32 \<Rightarrow> trace \<Rightarrow> u32 \<times> trace" where
  "apic_read_reg hw reg t = mmio_read hw (APIC_LOCATION + reg) t"

definition irq_eoi :: "bool \<Rightarrow> i32 \<Rightarrow> trace \<Rightarrow> trace" where
  "irq_eoi apic intno t =
     (let t1 = (if 40 < sint intno then t @ [Outb PIC2_CMD 0x20] else t);
          t2 = t1 @ [Outb PIC1_CMD 0x20]
      in if apic then apic_write_reg APIC_EOI_REGISTER 0 t2 else t2)"

definition irq_remap :: "hw \<Rightarrow> u32 \<Rightarrow> u32 \<Rightarrow> trace \<Rightarrow> trace" where
  "irq_remap hw offset1 offset2 t0 =
     (let (m1, t1) = inb hw PIC1_DAT t0;
          (m2, t2) = inb hw PIC2_DAT t1
      in t2 @ [Outb PIC1_CMD (0x10 + 0x01), Outb PIC2_CMD (0x10 + 0x01),
               Outb PIC1_DAT (ucast offset1), Outb PIC2_DAT (ucast offset2),
               Outb PIC1_DAT 0x04, Outb PIC2_DAT 0x02,
               Outb PIC1_DAT 0x01, Outb PIC2_DAT 0x01,
               Outb PIC1_DAT m1, Outb PIC2_DAT m2])"

definition get_interrupt_masks :: "hw \<Rightarrow> trace \<Rightarrow> (u8 \<times> u8) \<times> trace" where
  "get_interrupt_masks hw t =
     (let (m1, t1) = inb hw PIC1_DAT t; (m2, t2) = inb hw PIC2_DAT t1 in ((m1, m2), t2))"

definition set_interrupt_masks :: "u8 \<Rightarrow> u8 \<Rightarrow> trace \<Rightarrow> trace" where
  "set_interrupt_masks mask1 mask2 t = t @ [Outb PIC1_DAT mask1, Outb PIC2_DAT mask2]"

definition disable_interrupts :: "trace \<Rightarrow> trace" where
  "disable_interrupts t = t @ [Cli]"

definition enable_interrupts :: "trace \<Rightarrow> trace" where
  "enable_interrupts t = t @ [Sti]"

section \<open>The interval timer\<close>

abbreviation PIT_CHANNEL_0 :: u16 where "PIT_CHANNEL_0 \<equiv> 0x40"
abbreviation PIT_MODE_COM :: u16 where "PIT_MODE_COM \<equiv> 0x43"

definition PIT_SEG_ACC :: "u8 \<Rightarrow> u8" where "PIT_SEG_ACC x = push_bit 4 x"
definition PIT_SEG_CHN :: "u8 \<Rightarrow> u8" where "PIT_SEG_CHN x = push_bit 6 x"

definition pit_init :: "trace \<Rightarrow> trace" where
  "pit_init t =
     (let mode = PIT_SEG_CHN 0 OR push_bit 1 1 OR PIT_SEG_ACC 3 OR 0
      in t @ [Outb PIT_MODE_COM mode, Outb PIT_CHANNEL_0 0, Outb PIT_CHANNEL_0 0])"

definition pit_interrupt_in :: "u32 \<Rightarrow> trace \<Rightarrow> trace" where
  "pit_interrupt_in time t =
     (let t1 = disable_interrupts t;
          time' = time AND 0x0000FFFF;
          lo = ucast (time' AND 0xFF);
          hi = ucast (drop_bit 8 time' AND 0xFF)
      in enable_interrupts (t1 @ [Outb PIT_CHANNEL_0 lo, Outb PIT_CHANNEL_0 hi]))"

definition pit_get_current_count :: "hw \<Rightarrow> trace \<Rightarrow> u16 \<times> trace" where
  "pit_get_current_count hw t =
     (let t1 = disable_interrupts t;
          t2 = t1 @ [Outb PIT_MODE_COM 0];
          (lo, t3) = inb hw PIT_CHANNEL_0 t2;
          (hi, t4) = inb hw PIT_CHANNEL_0 t3
      in (push_bit 8 (ucast hi) OR ucast lo, enable_interrupts t4))"

section \<open>The kernel's interrupt state\<close>

datatype irq_fn = Timer_handler | Keyboard_handler | Time_handler | Pit_system_timer_handler

record kernel =
  con :: console
  tmr :: timers
  start_time :: u32
  pit_cnt :: i32
  shift_make :: u32
  basic_irq_handlers :: "nat \<Rightarrow> irq_fn option"
  ktrace :: trace

text \<open>The table has 32 entries; an index beyond them is an access outside the array.\<close>

definition irq_set_handler :: "u8 \<Rightarrow> irq_fn \<Rightarrow> kernel \<Rightarrow> kernel run" where
  "irq_set_handler num handler k =
     (if unat num < 32 then Ret (k\<lparr>basic_irq_handlers := (basic_irq_handlers k)(unat num := Some handler)\<rparr>)
      else Trap Out_of_bounds)"

definition irq_clear_handler :: "u8 \<Rightarrow> kernel \<Rightarrow> kernel run" where
  "irq_clear_handler num k =
     (if unat num < 32 then Ret (k\<lparr>basic_irq_handlers := (basic_irq_handlers k)(unat num := None)\<rparr>)
      else Trap Out_of_bounds)"

definition pit_system_timer_init :: "kernel \<Rightarrow> kernel run" where
  "pit_system_timer_init k =
     (let mode = PIT_SEG_CHN 0 OR push_bit 1 3 OR PIT_SEG_ACC 3 OR 0;
          t1 = ktrace k @ [Outb PIT_MODE_COM mode, Outb PIT_CHANNEL_0 0, Outb PIT_CHANNEL_0 0]
      in irq_set_handler 0 Pit_system_timer_handler (k\<lparr>ktrace := pit_interrupt_in 1193 t1\<rparr>))"

definition pit_system_timer_handler :: "(u32 \<Rightarrow> u32) \<Rightarrow> hw \<Rightarrow> kernel \<Rightarrow> kernel run" where
  "pit_system_timer_handler lz hw k =
     (let old = pit_cnt k; k1 = k\<lparr>pit_cnt := old + 1\<rparr>
      in if (sint old - 1000 * (sgn (sint old) * (\<bar>sint old\<bar> div 1000))) = 0
         then run_bind (kprint hw lz ''second\<newline>'' [] (con k1)) (\<lambda>c. Ret (k1\<lparr>con := c\<rparr>)) else Ret k1)"

definition time_handler :: "kernel \<Rightarrow> kernel" where
  "time_handler k = k\<lparr>start_time := start_time k + 1\<rparr>"

definition init_pit_system_timer :: "kernel \<Rightarrow> kernel run" where
  "init_pit_system_timer k = run_bind (pit_system_timer_init k) (irq_set_handler 0 Time_handler)"

definition get_system_time_in_ms :: "kernel \<Rightarrow> u32" where
  "get_system_time_in_ms k = start_time k"

definition get_system_time_in_s :: "kernel \<Rightarrow> u32" where
  "get_system_time_in_s k = start_time k div 1000"

section \<open>The keyboard\<close>

text \<open>The first 90 entries of the two tables; the C initialiser leaves the other 38 zero.\<close>

definition kbdlt :: "u8 list" where
  "kbdlt = [
    0, 27, 49, 50, 51, 52, 53, 54, 55, 56, 57, 48, 45, 61, 8, 9,
    113, 119, 101, 114, 116, 121, 117, 105, 111, 112, 91, 93, 10, 0, 97, 115,
    100, 102, 103, 104, 106, 107, 108, 59, 39, 96, 0, 92, 122, 120, 99, 118,
    98, 110, 109, 44, 46, 47, 0, 42, 0, 32, 0, 0, 0, 0, 0, 0,
    0, 0, 0, 0, 0, 0, 0, 0, 69, 67, 45, 70, 0, 71, 43, 0,
    72, 68, 0, 0, 0, 0, 0, 0, 0, 0]"

definition skbdlt :: "u8 list" where
  "skbdlt = [
    0, 27, 33, 64, 35, 36, 37, 94, 38, 42, 40, 41, 95, 43, 8, 9,
    81, 87, 69, 82, 84, 89, 85, 73, 79, 80, 123, 125, 10, 0, 65, 83,
    68, 70, 71, 72, 74, 75, 76, 58, 34, 126, 0, 124, 90, 88, 67, 86,
    66, 78, 77, 60, 62, 63, 0, 42, 0, 32, 0, 0, 0, 0, 0, 0,
    0, 0, 0, 0, 0, 0, 0, 0, 69, 67, 45, 70, 0, 71, 43, 0,
    72, 68, 0, 0, 0, 0, 0, 0, 0, 0]"

definition scan_char :: "u8 list \<Rightarrow> u8 \<Rightarrow> u8" where
  "scan_char tbl sc = (if unat sc < length tbl then tbl ! unat sc else 0)"

text \<open>keyboard_handler after it has read the scan code.\<close>

definition handle_scancode :: "(u32 \<Rightarrow> u32) \<Rightarrow> hw \<Rightarrow> u8 \<Rightarrow> u32 \<times> console \<Rightarrow> (u32 \<times> console) run" where
  "handle_scancode lz hw scancode = (\<lambda>(shift, c).
     if scancode AND 0x80 \<noteq> 0 then Ret (if scancode = 0xAA then 0 else shift, c)
     else
       let shift1 = (if scancode = 0x2A then 1 else shift);
           key = scan_char kbdlt scancode
       in if key = 67 then run_bind (terminal_load_prev lz c) (\<lambda>c'. Ret (shift1, c'))
          else if key = 68 then Ret (shift1, terminal_load_next c)
          else if key = 69 then Ret (shift1, terminal_move 0 c)
          else if key = 70 then Ret (shift1, terminal_move 2 c)
          else if key = 71 then Ret (shift1, terminal_move 3 c)
          else if key = 72 then Ret (shift1, terminal_move 1 c)
          else if key = 0 then Ret (shift1, c)
          else run_bind (terminal_put_char hw lz (if shift1 = 1 then scan_char skbdlt scancode else key) c)
                 (\<lambda>c'. Ret (shift1, c')))"

definition keyboard_handler :: "(u32 \<Rightarrow> u32) \<Rightarrow> hw \<Rightarrow> kernel \<Rightarrow> kernel run" where
  "keyboard_handler lz hw k =
     (let (scancode, t) = inb hw 0x60 (ktrace k)
      in run_bind (handle_scancode lz hw scancode (shift_make k, con k)) (\<lambda>(shift, c).
           Ret (k\<lparr>shift_make := shift, con := c, ktrace := t\<rparr>)))"

definition keyboard_install :: "u16 \<Rightarrow> kernel \<Rightarrow> kernel run" where
  "keyboard_install refresh_rate k = irq_set_handler 1 Keyboard_handler k"

section \<open>Timer callbacks\<close>

text \<open>
  What timer_callback of kmain.c prints. The timers' model notes in fired which callbacks it has called
  and with which arguments; their messages are printed here, in that order. Neither uses what the other
  one changes, so that it makes no difference that the queue is worked off first.
\<close>

definition timer_callback :: "(u32 \<Rightarrow> u32) \<Rightarrow> hw \<Rightarrow> u32 \<Rightarrow> console \<Rightarrow> console run" where
  "timer_callback lz hw val c = kprint hw lz ''tick %d\<newline>'' [val] c"

primrec callback_output :: "(u32 \<Rightarrow> u32) \<Rightarrow> hw \<Rightarrow> (callback \<times> u32) list \<Rightarrow> console \<Rightarrow> console run" where
  "callback_output lz hw [] c = Ret c"
| "callback_output lz hw (x # xs) c =
     run_bind (case fst x of Timer_callback \<Rightarrow> timer_callback lz hw (snd x) c | Wakeup_callback \<Rightarrow> Ret c)
       (callback_output lz hw xs)"

definition with_callbacks :: "(u32 \<Rightarrow> u32) \<Rightarrow> hw \<Rightarrow> timers run \<Rightarrow> kernel \<Rightarrow> kernel run" where
  "with_callbacks lz hw r k =
     run_bind r (\<lambda>s. run_bind (callback_output lz hw (drop (length (fired (tmr k))) (fired s)) (con k))
       (\<lambda>c. Ret (k\<lparr>tmr := s, con := c\<rparr>)))"

section \<open>Dispatch\<close>

definition run_handler :: "(u32 \<Rightarrow> u32) \<Rightarrow> hw \<Rightarrow> irq_fn \<Rightarrow> kernel \<Rightarrow> kernel run" where
  "run_handler lz hw f k =
     (case f of
        Timer_handler \<Rightarrow> with_callbacks lz hw (timer_handler (tmr k)) k
      | Keyboard_handler \<Rightarrow> keyboard_handler lz hw k
      | Time_handler \<Rightarrow> Ret (time_handler k)
      | Pit_system_timer_handler \<Rightarrow> pit_system_timer_handler lz hw k)"

definition irq_common_handler :: "(u32 \<Rightarrow> u32) \<Rightarrow> hw \<Rightarrow> u32 \<Rightarrow> kernel \<Rightarrow> kernel run" where
  "irq_common_handler lz hw int_no k =
     (let i = unat (int_no - 32) in
      if 32 \<le> i then Trap Out_of_bounds
      else run_bind (case basic_irq_handlers k i of None \<Rightarrow> Ret k | Some f \<Rightarrow> run_handler lz hw f k)
             (\<lambda>k'. Ret (k'\<lparr>ktrace := irq_eoi True int_no (ktrace k')\<rparr>)))"

section \<open>What a key stream types\<close>

text \<open>
  The abstract view of the keyboard: each make code of a character key types one character, the
  shifted one while the left shift key is held; break codes type nothing.
\<close>

primrec shift_after :: "u32 \<Rightarrow> u8 list \<Rightarrow> u32" where
  "shift_after shift [] = shift"
| "shift_after shift (sc # scs) =
     shift_after (if sc = 0xAA then 0 else if sc = 0x2A then 1 else shift) scs"

primrec typed :: "u32 \<Rightarrow> u8 list \<Rightarrow> u8 list" where
  "typed shift [] = []"
| "typed shift (sc # scs) =
     (let shift' = shift_after shift [sc] in
      (if sc AND 0x80 \<noteq> 0 \<or> scan_char kbdlt sc = 0 then []
       else [if shift' = 1 then scan_char skbdlt sc else scan_char kbdlt sc]) @ typed shift' scs)"

definition text_key :: "u8 \<Rightarrow> bool" where
  "text_key sc \<longleftrightarrow> scan_char kbdlt sc \<notin> {67, 68, 69, 70, 71, 72}"

primrec handle_scancodes :: "(u32 \<Rightarrow> u32) \<Rightarrow> hw \<Rightarrow> u8 list \<Rightarrow> u32 \<times> console \<Rightarrow> (u32 \<times> console) run" where
  "handle_scancodes lz hw [] s = Ret s"
| "handle_scancodes lz hw (sc # scs) s = run_bind (handle_scancode lz hw sc s) (handle_scancodes lz hw scs)"

lemma shift_codes: "(0x2A :: u8) AND 0x80 = 0" "(0xAA :: u8) AND 0x80 \<noteq> 0"
  by simp_all

lemma put_one: "run_bind r (put_chars hw lz []) = r"
proof -
  have "put_chars hw lz [] = (\<lambda>c. Ret c)" by (rule ext) simp
  then show ?thesis by simp
qed

lemma handle_text_key:
  assumes "text_key sc"
  shows "handle_scancode lz hw sc (shift, c) =
    run_bind (put_chars hw lz (typed shift [sc]) c) (\<lambda>c'. Ret (shift_after shift [sc], c'))"
proof (cases "sc AND 0x80 = 0")
  case False
  then have "sc \<noteq> 0x2A" using shift_codes by auto
  then show ?thesis using False by (simp add: handle_scancode_def)
next
  case True
  then have "sc \<noteq> 0xAA" using shift_codes by auto
  then show ?thesis
    using True assms by (simp add: handle_scancode_def Let_def text_key_def put_one)
qed

lemma typed_Cons: "typed shift (sc # scs) = typed shift [sc] @ typed (shift_after shift [sc]) scs"
  by (simp add: Let_def)

text \<open>
  C21: the keyboard types what the key stream spells: handling the scan codes one by one is the same
  as putting the characters of typed on the terminal in order (a failure of the terminal included),
  and shift_make is 1 afterwards exactly as shift_after says. This holds for every stream without
  the cursor and paging keys.
\<close>
theorem keyboard_types:
  assumes "\<forall>sc \<in> set scs. text_key sc"
  shows "handle_scancodes lz hw scs (shift, c) =
    run_bind (put_chars hw lz (typed shift scs) c) (\<lambda>c'. Ret (shift_after shift scs, c'))"
  using assms
proof (induction scs arbitrary: shift c)
  case (Cons sc scs)
  then show ?case
    unfolding typed_Cons [of shift sc scs] put_chars_append run_bind_assoc handle_scancodes.simps
    by (simp add: handle_text_key run_bind_assoc del: typed.simps)
qed simp

theorem keyboard_types_witness:
  "handle_scancodes bsr quiet [0x2A, 0x23, 0xA3, 0xAA, 0x17] (0, terminal_init (bss_console (\<lambda>_. 0))) =
     run_bind (put_chars quiet bsr [72, 105] (terminal_init (bss_console (\<lambda>_. 0)))) (\<lambda>c'. Ret (0, c'))"
proof -
  have "\<forall>sc \<in> set [0x2A, 0x23, 0xA3, 0xAA, 0x17]. text_key sc"
    by (simp add: text_key_def scan_char_def kbdlt_def)
  moreover have "typed 0 [0x2A, 0x23, 0xA3, 0xAA, 0x17] = [72, 105]"
    by (simp add: Let_def scan_char_def kbdlt_def skbdlt_def)
  ultimately show ?thesis
    using keyboard_types [of "[0x2A, 0x23, 0xA3, 0xAA, 0x17]" bsr quiet 0] by simp
qed

section \<open>Any sequence of interrupts\<close>

text \<open>
  Between interrupts the kernel may start timers. The events of a run: an interrupt vector, or a
  call of new_timer.
\<close>

datatype kevent = Irq u32 | New_timer u32 u32 callback u32

definition deliver :: "(u32 \<Rightarrow> u32) \<Rightarrow> hw \<Rightarrow> kevent \<Rightarrow> kernel \<Rightarrow> kernel run" where
  "deliver lz hw e k =
     (case e of Irq n \<Rightarrow> irq_common_handler lz hw n k
      | New_timer count time f arg \<Rightarrow> with_callbacks lz hw (new_timer count time f arg (tmr k)) k)"


text \<open>The handlers kmain registers: the clock, the keyboard and, at vector 48, the timers.\<close>

definition kernel_ok :: "(u32 \<Rightarrow> u32) \<Rightarrow> kernel \<Rightarrow> bool" where
  "kernel_ok lz k \<longleftrightarrow> console_ok lz (con k) \<and> (\<exists>es. timers_ok (tmr k) es) \<and>
     basic_irq_handlers k = [0 \<mapsto> Time_handler, 1 \<mapsto> Keyboard_handler, 16 \<mapsto> Timer_handler]"

definition eois :: "trace \<Rightarrow> nat" where
  "eois t = length (filter (\<lambda>e. e = Mmio_write (APIC_LOCATION + APIC_EOI_REGISTER) 0) t)"

lemma eois_simps [simp]: "eois (t @ u) = eois t + eois u" "eois [] = 0"
  by (simp_all add: eois_def)

lemma eoi_once: "eois (irq_eoi True n t) = eois t + 1"
  by (simp add: irq_eoi_def apic_write_reg_def eois_def)

lemma upd_screen_ok:
  assumes "console_ok lz c" and "\<And>s. terminal_row (f s) = terminal_row s" "\<And>s. terminal_column (f s) = terminal_column s"
    and "\<And>s. terminal_flags (f s) = terminal_flags s"
  shows "console_ok lz (upd_state f c)"
  using assms by (simp add: console_ok_def on_screen_def upd_state_def)

lemma show_node_ok:
  "console_ok lz c \<Longrightarrow> console_ok lz (show_node t c)" "console_ok lz c \<Longrightarrow> console_ok lz (blank_rest t e c)"
  by (auto intro: console_okI)

lemma load_prev_safe: "console_ok lz c \<Longrightarrow> safe hw lz (terminal_load_prev lz c)"
  unfolding terminal_load_prev_def Let_def
  by (auto intro!: safe_bind save_state_safe upd_screen_ok show_node_ok simp: safe_Ret)

lemma load_next_ok: "console_ok lz c \<Longrightarrow> console_ok lz (terminal_load_next c)"
  unfolding terminal_load_next_def Let_def
  by (auto intro!: upd_screen_ok show_node_ok)

lemma terminal_move_ok: "console_ok lz c \<Longrightarrow> console_ok lz (terminal_move d c)"
  unfolding terminal_move_def by (rule move_ok)

definition key_safe :: "hw \<Rightarrow> (u32 \<Rightarrow> u32) \<Rightarrow> (u32 \<times> console) run \<Rightarrow> bool" where
  "key_safe hw lz r \<longleftrightarrow> r = Trap Assert_fail \<or> (r = None \<and> \<not> drains hw) \<or> (\<exists>shift c. r = Ret (shift, c) \<and> console_ok lz c)"

lemma key_safe_intros:
  "console_ok lz c \<Longrightarrow> key_safe hw lz (Ret (v, c))"
  "safe hw lz r \<Longrightarrow> key_safe hw lz (run_bind r (\<lambda>c. Ret (v, c)))"
  by (auto simp: key_safe_def safe_def)

lemma handle_scancode_safe: "console_ok lz c \<Longrightarrow> key_safe hw lz (handle_scancode lz hw sc (shift, c))"
  unfolding handle_scancode_def Let_def
  by (auto intro!: key_safe_intros load_prev_safe load_next_ok terminal_move_ok terminal_put_char_safe
      simp del: One_nat_def)

lemma timer_callback_safe: "console_ok lz c \<Longrightarrow> safe hw lz (timer_callback lz hw v c)"
  unfolding timer_callback_def
  by (rule kprint_decimal_safe [where xs = "chars ''tick ''" and ys = "[10]"]) (simp_all add: chars_def plain_text_def)

lemma callback_output_safe: "console_ok lz c \<Longrightarrow> safe hw lz (callback_output lz hw xs c)"
proof (induction xs arbitrary: c)
  case (Cons x xs)
  then show ?case by (cases "fst x") (auto intro!: safe_bind timer_callback_safe)
qed simp

lemma callback_output_silent:
  "\<forall>x \<in> set xs. fst x = Wakeup_callback \<Longrightarrow> callback_output lz hw xs c = Ret c"
  by (induction xs arbitrary: c) auto

text \<open>What can come of a handler: no page is left for the history, or the serial line never drains.\<close>

definition printing_fails :: "hw \<Rightarrow> 'a run \<Rightarrow> bool" where
  "printing_fails hw r \<longleftrightarrow> r = Trap Assert_fail \<or> (r = None \<and> \<not> drains hw)"

lemma printing_fails_bind [intro]: "printing_fails hw r \<Longrightarrow> printing_fails hw (run_bind r f)"
  by (auto simp: printing_fails_def)

lemma printing_fails_Ret [simp]: "\<not> printing_fails hw (Ret x)"
  by (simp add: printing_fails_def)

lemma with_callbacks_cases:
  assumes "console_ok lz (con k)"
  shows "printing_fails hw (with_callbacks lz hw (Ret s) k) \<or>
    (\<exists>c. with_callbacks lz hw (Ret s) k = Ret (k\<lparr>tmr := s, con := c\<rparr>) \<and> console_ok lz c)"
  using callback_output_safe [OF assms, of hw "drop (length (fired (tmr k))) (fired s)"]
  unfolding safe_def by (auto simp: with_callbacks_def printing_fails_def)

lemma with_callbacks_trap: "with_callbacks lz hw (Trap t) k = Trap t"
  by (simp add: with_callbacks_def)


lemma deliver_keyboard:
  assumes ok: "kernel_ok lz k"
  shows "printing_fails hw (deliver lz hw (Irq 33) k) \<or>
    (\<exists>k'. deliver lz hw (Irq 33) k = Ret k' \<and> kernel_ok lz k' \<and> eois (ktrace k') = eois (ktrace k) + 1 \<and>
      start_time k' = start_time k \<and> tmr k' = tmr k)"
proof -
  obtain sc t where io: "inb hw 0x60 (ktrace k) = (sc, t)" by fastforce
  then have t: "eois t = eois (ktrace k)" by (auto simp: inb_def Let_def eois_def)
  have h: "basic_irq_handlers k 1 = Some Keyboard_handler" using ok by (simp add: kernel_ok_def)
  have "key_safe hw lz (handle_scancode lz hw sc (shift_make k, con k))"
    using ok by (simp add: kernel_ok_def handle_scancode_safe)
  then show ?thesis
    using ok h io t by (auto simp: deliver_def irq_common_handler_def run_handler_def keyboard_handler_def
        key_safe_def kernel_ok_def eoi_once printing_fails_def)
qed

lemma deliver_clock:
  assumes ok: "kernel_ok lz k"
  shows "\<exists>k'. deliver lz hw (Irq 32) k = Ret k' \<and> kernel_ok lz k' \<and> eois (ktrace k') = eois (ktrace k) + 1 \<and>
    start_time k' = start_time k + 1 \<and> con k' = con k \<and> tmr k' = tmr k"
  using ok by (simp add: deliver_def irq_common_handler_def run_handler_def time_handler_def kernel_ok_def eoi_once)

lemma deliver_timer:
  assumes ok: "kernel_ok lz k"
  shows "deliver lz hw (Irq 48) k = Trap Null_deref \<and> timers_ok (tmr k) [] \<or>
    printing_fails hw (deliver lz hw (Irq 48) k) \<or>
    (\<exists>k'. deliver lz hw (Irq 48) k = Ret k' \<and> kernel_ok lz k' \<and> eois (ktrace k') = eois (ktrace k) + 1 \<and>
      start_time k' = start_time k)"
proof -
  obtain es where es: "timers_ok (tmr k) es" using ok by (auto simp: kernel_ok_def)
  have h: "basic_irq_handlers k 16 = Some Timer_handler" using ok by (simp add: kernel_ok_def)
  show ?thesis
  proof (cases es)
    case Nil
    then have "timer_handler (tmr k) = Trap Null_deref"
      using es by (simp add: timers_ok_def queued_def timer_handler_def)
    then show ?thesis using es Nil h by (simp add: deliver_def irq_common_handler_def run_handler_def with_callbacks_trap)
  next
    case (Cons e es')
    then obtain s' rest where s': "timer_handler (tmr k) = Ret s'" "timers_ok s' rest"
      using handler_keeps_ok [of "tmr k" e es'] es by blast
    have "console_ok lz (con k)" using ok by (simp add: kernel_ok_def)
    from with_callbacks_cases [OF this, of hw s'] show ?thesis
      using ok h s' by (auto simp: deliver_def irq_common_handler_def run_handler_def kernel_ok_def eoi_once printing_fails_def)
  qed
qed





text \<open>
  C20: no clock, keyboard or timer interrupt of a well-formed kernel is lost: it is handled and
  acknowledged, or its handler does not return. The clock's always returns. Those of the keyboard and of
  the timers, which print, end in the allocator's assertion when no page is left for the terminal's
  history, and wait for ever if the serial line does not drain; and timer_handler follows a null pointer when the
  hardware timer fires with no timer queued.
\<close>
theorem interrupts_handled:
  assumes "kernel_ok lz k" and "n \<in> {32, 33, 48}"
  shows "deliver lz hw (Irq n) k = Trap Assert_fail \<and> n \<in> {33, 48} \<or>
    deliver lz hw (Irq n) k = None \<and> \<not> drains hw \<and> n \<in> {33, 48} \<or>
    deliver lz hw (Irq n) k = Trap Null_deref \<and> n = 48 \<and> timers_ok (tmr k) [] \<or>
    (\<exists>k'. deliver lz hw (Irq n) k = Ret k' \<and> kernel_ok lz k' \<and> eois (ktrace k') = eois (ktrace k) + 1)"
  using deliver_keyboard [OF assms(1), of hw] deliver_clock [OF assms(1), of hw]
    deliver_timer [OF assms(1), of hw] assms(2) unfolding printing_fails_def by blast

definition boot_kernel :: kernel where
  "boot_kernel = \<lparr>con = terminal_init (bss_console empty_system), tmr = no_timers, start_time = 0, pit_cnt = 0,
     shift_make = 0, basic_irq_handlers = [0 \<mapsto> Time_handler, 1 \<mapsto> Keyboard_handler, 16 \<mapsto> Timer_handler],
     ktrace = []\<rparr>"

lemma boot_kernel_ok: "kernel_ok bsr boot_kernel"
  using boot_console_ok no_timers_ok by (auto simp: kernel_ok_def boot_kernel_def)

theorem interrupts_handled_witness:
  "deliver bsr quiet (Irq 48) boot_kernel = Trap Null_deref \<and>
   (\<exists>k'. deliver bsr quiet (Irq 32) boot_kernel = Ret k' \<and> kernel_ok bsr k')"
proof -
  have "slist_head (tmr boot_kernel) = NULL" by (simp add: boot_kernel_def no_timers_def)
  then have "deliver bsr quiet (Irq 48) boot_kernel = Trap Null_deref"
    by (simp add: deliver_def irq_common_handler_def run_handler_def timer_handler_def boot_kernel_def with_callbacks_trap)
  then show ?thesis using interrupts_handled [OF boot_kernel_ok, of 32 quiet] by auto
qed


end
