(* ===== verification/Paging.thy ===== *)
theory Paging
  imports Hardware Buddy_System
begin

text \<open>
  The page tables of kernel/arch/x86/page.c: page_init, which builds the identity map of the lower
  3 GB, the 8 MB of the kernel and the window of the APICs, mmap and free_range. A reader walk
  translates an address the way the MMU does, and page_init faults when it writes to a page that is
  not mapped: before it has loaded its directory this is decided by the directory of __start.asm,
  afterwards by its own.

  Memory is addressed as the kernel addresses it, by virtual addresses; a table given by its physical
  address is read at that address plus KERNEL_VIRTUAL_BASE, where the kernel sees it. The 8 MB from
  KERNEL_VIRTUAL_BASE on can also be seen at the addresses from 0 on (alias), where the model does
  not show what is written to them; the theorems say nothing of the alias of what page_init writes.
\<close>

section \<open>Entries\<close>

definition SEG_ADR :: "u32 \<Rightarrow> u32" where "SEG_ADR x = x"
definition SEG_AVL :: "u32 \<Rightarrow> u32" where "SEG_AVL x = push_bit 9 x"
definition SEG_IGN :: "u32 \<Rightarrow> u32" where "SEG_IGN x = push_bit 8 x"
definition SEG_PGS :: "u32 \<Rightarrow> u32" where "SEG_PGS x = push_bit 7 x"
definition SEG_DRT :: "u32 \<Rightarrow> u32" where "SEG_DRT x = push_bit 6 x"
definition SEG_ACC :: "u32 \<Rightarrow> u32" where "SEG_ACC x = push_bit 5 x"
definition SEG_CHD :: "u32 \<Rightarrow> u32" where "SEG_CHD x = push_bit 4 x"
definition SEG_WRT :: "u32 \<Rightarrow> u32" where "SEG_WRT x = push_bit 3 x"
definition SEG_USU :: "u32 \<Rightarrow> u32" where "SEG_USU x = push_bit 2 x"
definition SEG_RDW :: "u32 \<Rightarrow> u32" where "SEG_RDW x = push_bit 1 x"
definition SEG_PRE :: "u32 \<Rightarrow> u32" where "SEG_PRE x = push_bit 0 x"

lemmas page_seg_defs = SEG_ADR_def SEG_AVL_def SEG_IGN_def SEG_PGS_def SEG_DRT_def SEG_ACC_def
  SEG_CHD_def SEG_WRT_def SEG_USU_def SEG_RDW_def SEG_PRE_def

definition EMPTY_PAGE :: u32 where
  "EMPTY_PAGE = SEG_ADR 0 OR SEG_AVL 0 OR SEG_IGN 0 OR SEG_PGS 0 OR SEG_DRT 0 OR SEG_ACC 0 OR SEG_CHD 0
     OR SEG_WRT 0 OR SEG_USU 0 OR SEG_RDW 1 OR SEG_PRE 0"

definition SY4MB_PAGE :: u32 where
  "SY4MB_PAGE = SEG_ADR 0 OR SEG_AVL 0 OR SEG_IGN 0 OR SEG_PGS 1 OR SEG_DRT 0 OR SEG_ACC 0 OR SEG_CHD 0
     OR SEG_WRT 0 OR SEG_USU 1 OR SEG_RDW 1 OR SEG_PRE 1"

definition EMPTY_PRESENT :: "u32 \<Rightarrow> u32" where
  "EMPTY_PRESENT a = SEG_ADR a OR SEG_AVL 0 OR SEG_IGN 0 OR SEG_PGS 0 OR SEG_DRT 0 OR SEG_ACC 0 OR SEG_CHD 0
     OR SEG_WRT 0 OR SEG_USU 0 OR SEG_RDW 1 OR SEG_PRE 1"

abbreviation KERNEL_VIRTUAL_BASE :: u32 where
  "KERNEL_VIRTUAL_BASE \<equiv> 0xC0000000"

definition VIRT2PHYS :: "u32 \<Rightarrow> u32" where
  "VIRT2PHYS a = a - KERNEL_VIRTUAL_BASE"

definition GET_VIRT_DIRECTORY_OFFSET :: "u32 \<Rightarrow> u32" where
  "GET_VIRT_DIRECTORY_OFFSET p = drop_bit 22 p"

definition GET_VIRT_PAGE_TABLE_OFFSET :: "u32 \<Rightarrow> u32" where
  "GET_VIRT_PAGE_TABLE_OFFSET p = drop_bit 22 (push_bit 10 p)"

section \<open>page_init\<close>

definition page_directory_of :: "u32 \<Rightarrow> addr" where
  "page_directory_of l_ekernel = (l_ekernel + 4096) AND 0xFFFFF000"

definition fill_directory :: "addr \<Rightarrow> addr \<Rightarrow> mem \<Rightarrow> mem" where
  "fill_directory pd pt m =
     fold (\<lambda>p m. st32 m (pd + 4 * of_nat p) (EMPTY_PRESENT (VIRT2PHYS pt + of_nat p * 0x1000))) [0..<768] m"

definition fill_tables :: "addr \<Rightarrow> mem \<Rightarrow> mem" where
  "fill_tables pt m =
     fold (\<lambda>p. fold (\<lambda>j m. st32 m (pt + 4 * (of_nat p * 1024 + of_nat j))
       (EMPTY_PRESENT (of_nat p * 0x400000 + 0x1000 * of_nat j))) [0..<1024]) [0..<768] m"

text \<open>The directory, and then, after enable_paging, the tables.\<close>

definition page_directory_entries :: "addr \<Rightarrow> mem \<Rightarrow> mem" where
  "page_directory_entries pd m =
     (let m1 = memset m pd 0 (kb 4);
          m2 = fill_directory pd (pd + 4 * 1024) m1;
          m3 = st32 m2 (pd + 4 * drop_bit 22 0xFEE00000) (SEG_ADR 0xFEC00000 OR SY4MB_PAGE OR SEG_CHD 1);
          m4 = st32 m3 (pd + 4 * drop_bit 22 KERNEL_VIRTUAL_BASE) SY4MB_PAGE
      in st32 m4 (pd + 4 * (drop_bit 22 KERNEL_VIRTUAL_BASE + 1)) (SEG_ADR 0x400000 OR SY4MB_PAGE))"

definition page_table_entries :: "addr \<Rightarrow> mem \<Rightarrow> mem" where
  "page_table_entries pt m = st32 (fill_tables pt (memset m pt 0 (mb 4))) pt EMPTY_PAGE"

definition page_tables :: "addr \<Rightarrow> mem \<Rightarrow> mem" where
  "page_tables pd m = page_table_entries (pd + 4 * 1024) (page_directory_entries pd m)"

text \<open>
  Translation: of the directory the kernel starts with (its entry for the lower 4 MB is cleared before
  kmain is called), and of a directory of the kernel's own. touched says that the MMU lets the kernel
  write to n pages from an address on.
\<close>

definition boot_walk :: "u32 \<Rightarrow> u32 option" where
  "boot_walk va = (if drop_bit 22 va = drop_bit 22 KERNEL_VIRTUAL_BASE then Some (va AND mask 22) else None)"

definition walk :: "mem \<Rightarrow> addr \<Rightarrow> u32 \<Rightarrow> u32 option" where
  "walk m pd va =
     (let pde = ld32 m (pd + 4 * drop_bit 22 va) in
      if \<not> bit pde 0 then None
      else if bit pde 7 then Some ((pde AND NOT (mask 22)) OR (va AND mask 22))
      else let pte = ld32 m ((pde AND NOT (mask 12)) + KERNEL_VIRTUAL_BASE + 4 * (drop_bit 12 va AND mask 10))
        in if bit pte 0 then Some ((pte AND NOT (mask 12)) OR (va AND mask 12)) else None)"

definition touched :: "(u32 \<Rightarrow> u32 option) \<Rightarrow> addr \<Rightarrow> nat \<Rightarrow> bool" where
  "touched tr a n = list_all (\<lambda>i. tr (a + 4096 * of_nat i) \<noteq> None) [0..<n]"

text \<open>
  What is written after enable_paging lies outside the directory, so the directory decides about all
  of it: about the 4 MB of the tables, which it maps with large pages, and about the 3 pages of the
  page allocator at 16 MB, which it maps through the tables.
\<close>

definition page_init :: "(u32 \<Rightarrow> u32) \<Rightarrow> u32 \<Rightarrow> mem \<times> trace \<Rightarrow> (mem \<times> trace) run" where
  "page_init lz l_ekernel = (\<lambda>(m, t).
     let pd = page_directory_of l_ekernel;
         pt = pd + 4 * 1024;
         t1 = t @ [Printk ''Page directory entries addr: 0x%8X\<newline>'' [pd],
                   Printk ''First page table addr:       0x%8X\<newline>'' [pt],
                   Load_cr3 (pd - KERNEL_VIRTUAL_BASE)]
     in if \<not> touched boot_walk pd 1 then Trap Page_fault
        else let m1 = page_directory_entries pd m
          in if \<not> touched (walk m1 pd) pt 1024 then Trap Page_fault
             else let m2 = page_table_entries pt m1
               in if \<not> touched (walk m2 pd) DYNAMIC_MEMORY_BASE 3 then Trap Page_fault
                  else run_bind (init_buddy_system lz m2 (mb 128)) (\<lambda>m'. Ret (m', t1)))"

section \<open>mmap and free_range\<close>

text \<open>
  The second test of mmap is page_directory_entry[i] && (SY4MB_PAGE) == 1, that is whether
  SY4MB_PAGE is 1, which it is not; the entry tested in the loop is the one at page_count.
\<close>

definition mmap_loop :: "addr \<Rightarrow> u32 \<Rightarrow> u32 \<Rightarrow> u32 \<Rightarrow> mem \<Rightarrow> mem" where
  "mmap_loop page_table offset page_count paddr m =
     fold (\<lambda>i m. if ld32 m (page_table + 4 * (offset + page_count)) = 0
       then st32 m (page_table + 4 * (offset + of_nat i)) (EMPTY_PRESENT (paddr + 0x1000 * of_nat i)) else m)
       [0..<unat page_count] m"

definition mmap :: "(u32 \<Rightarrow> u32) \<Rightarrow> addr \<Rightarrow> u32 \<Rightarrow> u32 \<Rightarrow> mem \<Rightarrow> mem run" where
  "mmap lz pd paddr sz m =
     (let page_count = (sz + kb 4 - 1) div kb 4;
          slot = pd + 4 * GET_VIRT_DIRECTORY_OFFSET paddr
      in run_bind
           (if ld32 m slot = 0 then
              run_bind (kalloc lz m 1) (\<lambda>(m1, page).
                Ret (memset (st32 m1 slot (EMPTY_PRESENT page)) page 0 (kb 4), False))
            else Ret (m, ld32 m slot \<noteq> 0 \<and> (if SY4MB_PAGE = 1 then True else False)))
           (\<lambda>(m2, mapped). if mapped then Ret m2
             else Ret (mmap_loop (ld32 m2 slot AND 0xFFFFF800) (GET_VIRT_PAGE_TABLE_OFFSET paddr) page_count paddr m2)))"

text \<open>free_range releases the pages up to and including the one end points into.\<close>

partial_function (option) free_range_loop :: "addr \<Rightarrow> addr \<Rightarrow> mem \<Rightarrow> mem run" where
  "free_range_loop p end' m =
     (if end' < p then Ret m else run_bind (kfree m p) (\<lambda>m'. free_range_loop (p + 4096) end' m'))"

definition free_range :: "addr \<Rightarrow> addr \<Rightarrow> mem \<Rightarrow> mem run" where
  "free_range begin' end' m =
     run_bind (assert1 (begin' \<noteq> 0)) (\<lambda>_.
       run_bind (assert1 (end' \<noteq> 0)) (\<lambda>_.
         run_bind (assert1 (ALIGNED begin' (kb 4))) (\<lambda>_.
           run_bind (assert1 (ALIGNED begin' (kb 4))) (\<lambda>_. free_range_loop begin' end' m))))"

section \<open>Tables\<close>

lemma entry_values: "EMPTY_PAGE = 2" "SY4MB_PAGE = 0x87" "EMPTY_PRESENT a = a OR 3"
  by (simp_all add: EMPTY_PAGE_def SY4MB_PAGE_def EMPTY_PRESENT_def page_seg_defs or.assoc)

text \<open>A table of 32-bit entries written from the first entry on.\<close>

definition table :: "addr \<Rightarrow> nat \<Rightarrow> (nat \<Rightarrow> u32) \<Rightarrow> mem \<Rightarrow> mem" where
  "table base n f m = fold (\<lambda>i m. st32 m (base + 4 * of_nat i) (f i)) [0..<n] m"

lemma table_Suc: "table base (Suc n) f m = st32 (table base n f m) (base + 4 * of_nat n) (f n)"
  by (simp add: table_def)

text \<open>The entries read back; what lies outside the table is as before.\<close>

lemma table_entry:
  "k < n \<Longrightarrow> n \<le> 2 ^ 30 \<Longrightarrow> ld32 (table base n f m) (base + 4 * of_nat k) = f k"
proof (induction n)
  case (Suc n)
  show ?case
  proof (cases "k = n")
    case True
    then show ?thesis by (simp add: table_Suc)
  next
    case False
    then have "4 \<le> (base + 4 * of_nat k) - (base + 4 * of_nat n)" "4 \<le> (base + 4 * of_nat n) - (base + 4 * of_nat k)"
      using Suc.prems by (intro entry_dist; simp)+
    then show ?thesis using Suc False unfolding table_Suc by (subst ld32_st32_other) auto
  qed
qed simp

lemma table_outside:
  assumes "n \<le> 2 ^ 30" and "4 * n \<le> unat (a - base)"
  shows "table base n f m a = m a"
proof -
  have "k \<le> n \<Longrightarrow> table base k f m a = m a" for k
  proof (induction k)
    case (Suc k)
    have "unat (of_nat (4 * k) :: u32) = 4 * k" using Suc.prems assms(1) by (simp only: unat_of_nat) simp
    then have "of_nat (4 * k) \<le> a - base" "unat (a - base - of_nat (4 * k)) = unat (a - base) - 4 * k"
      using Suc.prems assms(2) by (auto simp: word_le_nat_alt unat_sub)
    then have "4 \<le> a - base - of_nat (4 * k)" using Suc.prems assms(2) by (simp add: word_le_nat_alt)
    moreover have "a - (base + 4 * of_nat k) = a - base - of_nat (4 * k)" by simp
    ultimately have "4 \<le> a - (base + 4 * of_nat k)" by (simp only:)
    then show ?case using Suc by (simp add: table_Suc st32_other)
  qed (simp add: table_def)
  then show ?thesis by simp
qed

lemma fold_upt_add: "fold f [0..<n + k] s = fold f [n..<n + k] (fold f [0..<n] s)"
  unfolding upt_add_eq_append [OF le0] fold_append comp_apply by (rule refl)

lemma fill_rows:
  "fold (\<lambda>p. fold (\<lambda>j m. st32 m (pt + 4 * (of_nat p * 1024 + of_nat j)) (g (1024 * p + j))) [0..<1024]) [0..<r] m =
   table pt (1024 * r) g m"
proof (induction r)
  case (Suc r)
  have shift: "fold (\<lambda>i m. st32 m (pt + 4 * of_nat i) (g i)) [1024 * r..<1024 * r + 1024] =
      fold (\<lambda>j m. st32 m (pt + 4 * (of_nat r * 1024 + of_nat j)) (g (1024 * r + j))) [0..<1024]"
  proof -
    have "[1024 * r..<1024 * r + 1024] = map (\<lambda>j. 1024 * r + j) [0..<1024]"
      by (simp add: map_add_upt add.commute)
    then show ?thesis by (simp add: fold_map comp_def mult.commute)
  qed
  have "table pt (1024 * Suc r) g m = fold (\<lambda>i m. st32 m (pt + 4 * of_nat i) (g i)) [1024 * r..<1024 * r + 1024] (table pt (1024 * r) g m)"
    unfolding table_def using fold_upt_add [of _ "1024 * r" 1024] by (simp add: add.commute)
  then show ?case using Suc shift by simp
qed (simp add: table_def)

lemma fill_tables_table:
  "fill_tables pt m = table pt (1024 * 768) (\<lambda>i. EMPTY_PRESENT (of_nat i * 0x1000)) m"
proof -
  have eq: "(of_nat (1024 * p + j) :: u32) * 0x1000 = of_nat p * 0x400000 + 0x1000 * of_nat j" for p j
    by (simp add: algebra_simps)
  show ?thesis
    unfolding fill_tables_def fill_rows [of pt "\<lambda>i. EMPTY_PRESENT (of_nat i * 0x1000)", symmetric] eq ..
qed

lemma fill_directory_table:
  "fill_directory pd pt m = table pd 768 (\<lambda>p. EMPTY_PRESENT (VIRT2PHYS pt + of_nat p * 0x1000)) m"
  by (simp add: fill_directory_def table_def)


section \<open>What page_init maps\<close>

lemma off_add:
  assumes "unat d + 4 \<le> 2 ^ 32" and "j < 4"
  shows "unat ((d::u32) + of_nat j) = unat d + j"
  using assms by (intro unat_add_of_nat) simp

lemma ld32_table_outside:
  assumes n: "n \<le> 2 ^ 30" and a: "4 * n \<le> unat (a - base)" "unat (a - base) + 4 \<le> 2 ^ 32"
  shows "ld32 (table base n f m) a = ld32 m a"
proof (rule ld32_frame, rule table_outside [OF n])
  fix j :: nat assume j: "j < 4"
  have "unat (a - base + of_nat j) = unat (a - base) + j" by (rule off_add [OF a(2) j])
  then have "unat (a + of_nat j - base) = unat (a - base) + j" by (simp only: add_diff_eq diff_add_eq)
  then show "4 * n \<le> unat (a + of_nat j - base)" using a(1) by simp
qed

lemma ld32_memset:
  assumes a: "unat (a - base) + 4 \<le> 2 ^ 32"
  shows "unat n \<le> unat (a - base) \<Longrightarrow> ld32 (memset m base c n) a = ld32 m a"
    and "unat (a - base) + 4 \<le> unat n \<Longrightarrow> ld32 (memset m base 0 n) a = 0"
proof -
  have off: "unat (a + of_nat j - base) = unat (a - base) + j" if "j < 4" for j
  proof -
    have "a + of_nat j - base = a - base + of_nat j" by simp
    then show ?thesis using off_add [OF a that] by (simp only:)
  qed
  show "ld32 (memset m base c n) a = ld32 m a" if n: "unat n \<le> unat (a - base)"
    by (rule ld32_frame) (use n off in \<open>auto simp: memset_apply word_less_nat_alt\<close>)
  show "ld32 (memset m base 0 n) a = 0" if n: "unat (a - base) + 4 \<le> unat n"
  proof -
    have "ld32 (memset m base 0 n) a = ld32 (\<lambda>_. 0) a"
      by (rule ld32_frame) (use n off in \<open>auto simp: memset_apply word_less_nat_alt\<close>)
    then show ?thesis by (simp add: ld32_def)
  qed
qed

lemma below_dist:
  assumes "0 < d" and "d < 2 ^ 32"
  shows "unat (a - (a + of_nat d) :: u32) = 2 ^ 32 - d"
  using unat_uminus_of_nat [OF assms] by simp

definition directory_entry :: "addr \<Rightarrow> nat \<Rightarrow> u32" where
  "directory_entry pd k =
     (if k < 768 then EMPTY_PRESENT (VIRT2PHYS (pd + 4096) + of_nat k * 0x1000)
      else if k = 768 then SY4MB_PAGE else if k = 769 then 0x400000 OR SY4MB_PAGE
      else if k = 1019 then 0xFEC00000 OR SY4MB_PAGE OR SEG_CHD 1 else 0)"

lemma page_directory_table:
  "page_directory_entries pd m =
     st32 (st32 (st32 (table pd 768 (\<lambda>p. EMPTY_PRESENT (VIRT2PHYS (pd + 4 * 1024) + of_nat p * 0x1000)) (memset m pd 0 (kb 4)))
       (pd + 4 * of_nat 1019) (0xFEC00000 OR SY4MB_PAGE OR SEG_CHD 1)) (pd + 4 * of_nat 768) SY4MB_PAGE)
       (pd + 4 * of_nat 769) (0x400000 OR SY4MB_PAGE)"
  unfolding page_directory_entries_def Let_def fill_directory_table by (simp add: SEG_ADR_def)

lemma page_directory_entry:
  assumes k: "k < 1024"
  shows "ld32 (page_directory_entries pd m) (pd + 4 * of_nat k) = directory_entry pd k"
proof -
  let ?pt = "pd + 4 * 1024" and ?a = "pd + 4 * of_nat k"
  let ?m1 = "memset m pd 0 (kb 4)"
  let ?m2 = "table pd 768 (\<lambda>p. EMPTY_PRESENT (VIRT2PHYS ?pt + of_nat p * 0x1000)) ?m1"
  have rel: "unat (?a - pd) = 4 * k"
  proof -
    have "?a - pd = of_nat (4 * k)" by simp
    then show ?thesis using k by (simp only: unat_of_nat) simp
  qed
  have "ld32 (page_directory_entries pd m) ?a = (if k = 769 then 0x400000 OR SY4MB_PAGE else if k = 768 then SY4MB_PAGE
      else if k = 1019 then 0xFEC00000 OR SY4MB_PAGE OR SEG_CHD 1 else ld32 ?m2 ?a)"
    unfolding page_directory_table
    using k entry_dist [of k 769 pd] entry_dist [of 769 k pd] entry_dist [of k 768 pd] entry_dist [of 768 k pd]
      entry_dist [of k 1019 pd] entry_dist [of 1019 k pd]
    by (auto simp: ld32_st32_other simp del: of_nat_numeral)
  also have "ld32 ?m2 ?a = (if k < 768 then EMPTY_PRESENT (VIRT2PHYS ?pt + of_nat k * 0x1000) else 0)"
  proof (cases "k < 768")
    case True
    then show ?thesis by (simp add: table_entry)
  next
    case False
    then have "ld32 ?m2 ?a = ld32 ?m1 ?a" using rel k by (subst ld32_table_outside) simp_all
    also have "\<dots> = 0" using rel k by (subst ld32_memset(2)) (simp_all add: kb_def)
    finally show ?thesis using False by simp
  qed
  finally show ?thesis by (simp add: directory_entry_def)
qed

lemma page_tables_directory:
  assumes k: "k < 1024"
  shows "ld32 (page_tables pd m) (pd + 4 * of_nat k) = directory_entry pd k"
proof -
  let ?pt = "pd + 4 * 1024" and ?a = "pd + 4 * of_nat k" and ?m5 = "page_directory_entries pd m"
  have far: "unat (?a - ?pt) = 2 ^ 32 - (4096 - 4 * k)"
  proof -
    have "?pt = ?a + of_nat (4096 - 4 * k)" using k by (simp add: of_nat_diff)
    then show ?thesis using below_dist [of "4096 - 4 * k" ?a] k by (simp only:) simp
  qed
  have eq: "page_tables pd m = st32 (table ?pt (1024 * 768) (\<lambda>i. EMPTY_PRESENT (of_nat i * 0x1000)) (memset ?m5 ?pt 0 (mb 4))) ?pt EMPTY_PAGE"
    unfolding page_tables_def page_table_entries_def fill_tables_table by (rule refl)
  have apart: "4 \<le> ?a - ?pt" "4 \<le> ?pt - ?a"
  proof -
    show "4 \<le> ?a - ?pt" using far k by (simp add: word_le_nat_alt)
    have "?pt - ?a = of_nat (4096 - 4 * k)" using k by (simp add: of_nat_diff)
    then have "unat (?pt - ?a) = 4096 - 4 * k" using k by (simp only: unat_of_nat) simp
    then show "4 \<le> ?pt - ?a" using k by (simp add: word_le_nat_alt)
  qed
  have "ld32 (page_tables pd m) ?a = ld32 ?m5 ?a"
    unfolding eq using far apart k
    by (subst ld32_st32_other, simp, simp, subst ld32_table_outside, simp, simp, simp, subst ld32_memset(1))
       (simp_all add: mb_def kb_def)
  then show ?thesis by (simp only: page_directory_entry [OF k])
qed

lemma page_tables_entry:
  assumes i: "i < 786432"
  shows "ld32 (page_tables pd m) (pd + 4096 + 4 * of_nat i) =
    (if i = 0 then EMPTY_PAGE else EMPTY_PRESENT (of_nat i * 0x1000))"
proof -
  let ?pt = "pd + 4 * 1024"
  obtain m0 where eq: "page_tables pd m = st32 (table ?pt (1024 * 768) (\<lambda>i. EMPTY_PRESENT (of_nat i * 0x1000)) m0) ?pt EMPTY_PAGE"
    unfolding page_tables_def page_table_entries_def fill_tables_table by blast
  have pt: "pd + 4096 = ?pt" by simp
  show ?thesis
  proof (cases "i = 0")
    case True
    then show ?thesis unfolding eq pt by simp
  next
    case False
    then have "4 \<le> ?pt + 4 * of_nat i - (?pt + 4 * of_nat 0)" "4 \<le> ?pt + 4 * of_nat 0 - (?pt + 4 * of_nat i)"
      using i by (intro entry_dist; simp)+
    then show ?thesis
      unfolding eq pt using False i table_entry [of i "1024 * 768" ?pt] by (subst ld32_st32_other) simp_all
  qed
qed


text \<open>How the entries decode.\<close>

lemma decode_small_page:
  "bit (EMPTY_PRESENT (push_bit 12 w)) 0" "\<not> bit (EMPTY_PRESENT (push_bit 12 w)) 7"
  "EMPTY_PRESENT (push_bit 12 w) AND NOT (mask 12) = push_bit 12 w"
proof -
  have three: "(3 :: u32) = mask 2" by (simp add: mask_eq_exp_minus_1)
  show "bit (EMPTY_PRESENT (push_bit 12 w)) 0" "\<not> bit (EMPTY_PRESENT (push_bit 12 w)) 7"
    by (simp_all add: entry_values three bit_simps)
  show "EMPTY_PRESENT (push_bit 12 w) AND NOT (mask 12) = push_bit 12 w"
    unfolding entry_values three by (rule bit_word_eqI) (auto simp: bit_simps)
qed

lemma times_4k: "(w :: u32) * 0x1000 = push_bit 12 w"
  by (simp add: push_bit_eq_mult)

lemma same_page: "push_bit 12 (drop_bit 12 va) OR (va AND mask 12) = (va :: u32)"
  by (rule bit_word_eqI) (auto simp: bit_simps)

lemma large_page:
  "(push_bit 22 c OR (va AND mask 22) :: u32) = va - push_bit 22 (drop_bit 22 va) + push_bit 22 c"
proof -
  have disj: "push_bit 22 w AND (va AND mask 22) = 0" for w :: u32
    by (rule bit_word_eqI) (auto simp: bit_simps)
  have "push_bit 22 (drop_bit 22 va) OR (va AND mask 22) = va"
    by (rule bit_word_eqI) (auto simp: bit_simps)
  then have "push_bit 22 (drop_bit 22 va) + (va AND mask 22) = va"
    by (simp add: disjunctive_add_eq_or [OF disj])
  then have "va AND mask 22 = va - push_bit 22 (drop_bit 22 va)" by (simp add: algebra_simps)
  then show ?thesis unfolding disjunctive_add_eq_or [OF disj [of c], symmetric] by (simp only: add.commute)
qed

lemma large_entries:
  "bit SY4MB_PAGE 0" "bit SY4MB_PAGE 7" "SY4MB_PAGE AND NOT (mask 22) = push_bit 22 0"
  "bit (0x400000 OR SY4MB_PAGE) 0" "bit (0x400000 OR SY4MB_PAGE) 7"
  "(0x400000 OR SY4MB_PAGE) AND NOT (mask 22) = push_bit 22 1"
  "bit (0xFEC00000 OR SY4MB_PAGE OR SEG_CHD 1) 0" "bit (0xFEC00000 OR SY4MB_PAGE OR SEG_CHD 1) 7"
  "(0xFEC00000 OR SY4MB_PAGE OR SEG_CHD 1) AND NOT (mask 22) = push_bit 22 1019"
  by (simp_all add: entry_values SEG_CHD_def mask_eq_exp_minus_1)

text \<open>The physical address a virtual address is to have.\<close>

definition mapped_to :: "u32 \<Rightarrow> u32 option" where
  "mapped_to va =
     (if unat va < 0x1000 then None
      else if unat va < 0xC0000000 then Some va
      else if unat va < 0xC0800000 then Some (va - KERNEL_VIRTUAL_BASE)
      else if 0xFEC00000 \<le> unat va \<and> unat va < 0xFF000000 then Some va
      else None)"

lemma page_index:
  "(drop_bit 22 va :: u32) = of_nat (unat va div 4194304)" "unat va div 4194304 < 1024"
  "(drop_bit 12 va :: u32) = of_nat (unat va div 4096)"
  "unat va div 4194304 = unat va div 4096 div 1024"
proof -
  show "drop_bit 22 va = of_nat (unat va div 4194304)"
    by (rule unat_eqD, simp only: unat_drop_bit_eq) (simp add: drop_bit_eq_div)
  show "drop_bit 12 va = of_nat (unat va div 4096)"
    by (rule unat_eqD, simp only: unat_drop_bit_eq) (simp add: drop_bit_eq_div)
  show "unat va div 4194304 < 1024"
    using unat_u32_less [of va] by (simp add: div_less_iff_less_mult)
  show "unat va div 4194304 = unat va div 4096 div 1024" by (simp add: div_mult2_eq [symmetric])
qed

lemma walk_tables:
  assumes dir: "\<And>k. k < 1024 \<Longrightarrow> ld32 m (pd + 4 * of_nat k) = directory_entry pd k"
    and ent: "\<And>i. i < 786432 \<Longrightarrow> ld32 m (pd + 4096 + 4 * of_nat i) =
      (if i = 0 then EMPTY_PAGE else EMPTY_PRESENT (of_nat i * 0x1000))"
    and pd: "pd = push_bit 12 q"
  shows "walk m pd va = mapped_to va"
proof -
  let ?k = "unat va div 4194304" and ?i = "unat va div 4096"
  have pde: "ld32 m (pd + 4 * drop_bit 22 va) = directory_entry pd ?k"
    unfolding page_index(1) by (rule dir [OF page_index(2)])
  have big: "push_bit 22 (drop_bit 22 va) = (of_nat ?k * 0x400000 :: u32)"
    unfolding page_index(1) by (simp add: push_bit_eq_mult)
  consider "?k < 768" | "?k = 768" | "?k = 769" | "?k = 1019"
    | "768 < ?k" "?k \<noteq> 769" "?k \<noteq> 1019" by linarith
  then show ?thesis
  proof cases
    case 1
    then have va: "unat va < 0xC0000000" by (simp add: div_less_iff_less_mult)
    have i: "?i < 786432" using va by (simp add: div_less_iff_less_mult)
    let ?base = "q + 1 - push_bit 0 0xC0000 + of_nat ?k"
    have "VIRT2PHYS (pd + 4096) + of_nat ?k * 0x1000 = push_bit 12 ?base"
      by (simp add: VIRT2PHYS_def pd push_bit_eq_mult algebra_simps)
    then have e: "directory_entry pd ?k = EMPTY_PRESENT (push_bit 12 ?base)" using 1 by (simp add: directory_entry_def)
    have low: "drop_bit 12 va AND mask 10 = (of_nat (?i mod 1024) :: u32)"
    proof -
      have "drop_bit 12 va AND mask 10 = (take_bit 10 (of_nat ?i) :: u32)"
        unfolding page_index(3) by (simp add: take_bit_eq_mask)
      also have "\<dots> = of_nat (take_bit 10 ?i)" by (simp add: take_bit_of_nat)
      finally show ?thesis by (simp add: take_bit_eq_mod)
    qed
    have addr: "push_bit 12 ?base + KERNEL_VIRTUAL_BASE + 4 * of_nat (?i mod 1024) = pd + 4096 + 4 * of_nat ?i"
    proof -
      have "(of_nat ?i :: u32) = of_nat (1024 * (?i div 1024) + ?i mod 1024)" by simp
      then have "(of_nat ?i :: u32) = 1024 * of_nat ?k + of_nat (?i mod 1024)"
        unfolding page_index(4) by (simp only: of_nat_add of_nat_mult of_nat_numeral)
      then show ?thesis by (simp add: pd push_bit_eq_mult algebra_simps)
    qed
    have pte: "ld32 m (push_bit 12 ?base + KERNEL_VIRTUAL_BASE + 4 * (drop_bit 12 va AND mask 10)) =
        (if ?i = 0 then EMPTY_PAGE else EMPTY_PRESENT (push_bit 12 (drop_bit 12 va)))"
      unfolding low addr unfolding ent [OF i] unfolding page_index(3) [symmetric] times_4k by (rule refl)
    show ?thesis
      unfolding walk_def Let_def pde e decode_small_page pte
      using va by (simp add: mapped_to_def decode_small_page same_page entry_values(1) bit_1_iff div_eq_0_iff
          del: push_bit_of_nat split: if_split)
  next
    case 2
    then have "0xC0000000 \<le> unat va" "unat va < 0xC0400000" by linarith+
    then show ?thesis
      unfolding walk_def Let_def pde using 2 large_page [of 0 va]
      by (simp add: directory_entry_def large_entries mapped_to_def large_page big del: push_bit_of_nat)
  next
    case 3
    then have "0xC0400000 \<le> unat va" "unat va < 0xC0800000" by linarith+
    then show ?thesis
      unfolding walk_def Let_def pde using 3 large_page [of 1 va]
      by (simp add: directory_entry_def large_entries mapped_to_def large_page big del: push_bit_of_nat)
  next
    case 4
    then have "0xFEC00000 \<le> unat va" "unat va < 0xFF000000" by linarith+
    then show ?thesis
      unfolding walk_def Let_def pde using 4 large_page [of 1019 va]
      by (simp add: directory_entry_def large_entries mapped_to_def large_page big del: push_bit_of_nat)
  next
    case 5
    then have "0xC0800000 \<le> unat va" "unat va < 0xFEC00000 \<or> 0xFF000000 \<le> unat va" by linarith+
    then show ?thesis
      unfolding walk_def Let_def pde using 5 by (auto simp: directory_entry_def mapped_to_def)
  qed
qed


text \<open>The bytes the page directory and the tables take.\<close>

lemma used_pages_bound: "p \<in> used_pages m \<Longrightarrow> p < 2048 * unat (buddy_count m)"
proof -
  assume "p \<in> used_pages m"
  then obtain i j h where p: "p = 2048 * i + j" "i < unat (buddy_count m)" "live (bits m (tree_at i)) h" "j \<in> pages h"
    by (auto simp: used_pages_def)
  then have "j < 2048" by (auto simp: pages_def)
  moreover have "i + 1 \<le> unat (buddy_count m)" using p(2) by simp
  then have "2048 * (i + 1) \<le> 2048 * unat (buddy_count m)" by (intro mult_le_mono) auto
  then have "2048 * i + 2048 \<le> 2048 * unat (buddy_count m)" by simp
  ultimately show ?thesis using p(1) by linarith
qed

lemma ld32_outside_pages:
  assumes eq: "\<forall>x. unat x \<notin> page_bytes (used_pages m') \<longrightarrow> m' x = m x"
    and c: "unat (buddy_count m') = 16" and a: "0xC0000000 \<le> unat a" "unat a + 4 \<le> 2 ^ 32"
  shows "ld32 m' a = ld32 m a"
proof (rule ld32_frame)
  fix j :: nat assume "j < 4"
  then have u: "unat (a + of_nat j) = unat a + j" by (rule off_add [OF a(2)])
  have "unat (a + of_nat j) \<notin> page_bytes (used_pages m')"
  proof
    assume "unat (a + of_nat j) \<in> page_bytes (used_pages m')"
    then obtain p x where p: "unat a + j = page_addr p + x" "p \<in> used_pages m'" "x < 4096"
      unfolding u by (auto simp: page_bytes_def)
    then have "p < 32768" using used_pages_bound [OF p(2)] c by simp
    then show False using p a(1) by (simp add: page_addr_def)
  qed
  then show "m' (a + of_nat j) = m (a + of_nat j)" using eq by blast
qed

lemma page_mask: "(0xFFFFF000 :: u32) = NOT (mask 12)"
  by (simp add: mask_eq_exp_minus_1)

text \<open>The directory and the tables take 0x401000 bytes; nothing else changes.\<close>

lemma page_tables_outside:
  assumes a: "0x401000 \<le> unat (a - pd)"
  shows "page_tables pd m a = m a"
proof -
  let ?pt = "pd + 4 * 1024"
  have off: "unat (a - (pd + of_nat k)) = unat (a - pd) - k" if "k \<le> 4096" for k
  proof -
    have k: "unat (of_nat k :: u32) = k" using that by (simp only: unat_of_nat) simp
    then have "of_nat k \<le> a - pd" using a that by (simp add: word_le_nat_alt)
    then have "unat (a - pd - of_nat k) = unat (a - pd) - k" using k by (simp add: unat_sub)
    moreover have "a - (pd + of_nat k) = a - pd - of_nat k" by simp
    ultimately show ?thesis by (simp only:)
  qed
  have far: "4 \<le> a - (pd + of_nat k)" if "k \<le> 4096" for k
    using off [OF that] a that by (simp add: word_le_nat_alt)
  have pt: "unat (a - ?pt) = unat (a - pd) - 4096" using off [of 4096] by simp
  have far_pt: "4194304 \<le> unat (a - ?pt)" using pt a by linarith
  have m: "memset m' pd 0 (kb 4) a = m' a" "memset m' ?pt 0 (mb 4) a = m' a" for m'
    using a far_pt by (simp_all add: memset_apply kb_def mb_def word_less_nat_alt)
  have "4 \<le> a - ?pt" using pt a by (simp add: word_le_nat_alt)
  then show ?thesis
    unfolding page_tables_def page_table_entries_def page_directory_entries_def Let_def fill_tables_table fill_directory_table
    using far [of 4076] far [of 3072] far [of 3076] a pt m
    by (simp add: st32_other table_outside)
qed

text \<open>
  The memory page_init leaves alone: the image of the kernel, and of the lower 16 MB all that is not
  the directory and the tables as seen at their physical addresses.
\<close>

definition table_low :: "u32 \<Rightarrow> nat" where
  "table_low l_ekernel = unat (page_directory_of l_ekernel) - 0xC0000000"

definition table_alias :: "u32 \<Rightarrow> nat set" where
  "table_alias l_ekernel = {table_low l_ekernel..<table_low l_ekernel + 0x401000}"

definition kept :: "u32 \<Rightarrow> mem \<Rightarrow> mem \<Rightarrow> bool" where
  "kept l_ekernel m m' \<longleftrightarrow>
     (\<forall>x. unat x < 16777216 \<and> unat x \<notin> table_alias l_ekernel \<or> 0xC0000000 \<le> unat x \<and> unat x < unat l_ekernel \<longrightarrow> m' x = m x)"

definition page_init_messages :: "u32 \<Rightarrow> trace" where
  "page_init_messages l_ekernel =
     (let pd = page_directory_of l_ekernel
      in [Printk ''Page directory entries addr: 0x%8X\<newline>'' [pd],
          Printk ''First page table addr:       0x%8X\<newline>'' [pd + 4 * 1024], Load_cr3 (pd - KERNEL_VIRTUAL_BASE)])"

text \<open>The pages page_init writes to are mapped as long as the directory is in the first 4 MB.\<close>

lemma kernel_window: "drop_bit 22 va = (768 :: u32) \<longleftrightarrow> 0xC0000000 \<le> unat va \<and> unat va < 0xC0400000"
proof -
  have "drop_bit 22 va = (768 :: u32) \<longleftrightarrow> unat (drop_bit 22 va) = 768"
    by (auto dest: unat_eqD)
  also have "\<dots> \<longleftrightarrow> unat va div 4194304 = 768" by (simp only: unat_drop_bit_eq) (simp add: drop_bit_eq_div)
  also have "\<dots> \<longleftrightarrow> 0xC0000000 \<le> unat va \<and> unat va < 0xC0400000" 
    using div_mult_mod_eq [of "unat va" 4194304] mod_less_divisor [of 4194304 "unat va"] by linarith
  finally show ?thesis .
qed

lemma page_directory_of:
  assumes "unat l_ekernel < 0xFFFFE000"
  shows "unat (page_directory_of l_ekernel) = (unat l_ekernel + 4096) div 4096 * 4096"
    and "\<exists>q. page_directory_of l_ekernel = push_bit 12 q"
proof -
  have dir12: "page_directory_of l_ekernel = (l_ekernel + of_nat 4096) AND NOT (mask 12)"
    unfolding page_directory_of_def page_mask by simp
  have "unat (l_ekernel + of_nat 4096) = unat l_ekernel + 4096" using assms by (intro unat_add_of_nat) simp
  then show "unat (page_directory_of l_ekernel) = (unat l_ekernel + 4096) div 4096 * 4096"
    unfolding dir12 by (simp only: and_not_mask_unat) simp
  have "page_directory_of l_ekernel = push_bit 12 (drop_bit 12 (l_ekernel + of_nat 4096))"
    unfolding dir12 by (rule bit_word_eqI) (auto simp: bit_simps)
  then show "\<exists>q. page_directory_of l_ekernel = push_bit 12 q" by blast
qed

lemma tables_touched:
  assumes "0xC0000000 \<le> unat pd" and "unat pd \<le> 0xC03FF000"
  shows "touched (walk (page_directory_entries pd m) pd) (pd + 4 * 1024) 1024"
proof -
  have "walk (page_directory_entries pd m) pd (pd + 4 * 1024 + 4096 * of_nat i) \<noteq> None" if "i < 1024" for i
  proof -
    let ?va = "pd + 4 * 1024 + 4096 * of_nat i"
    have "unat (pd + of_nat (4096 + 4096 * i)) = unat pd + (4096 + 4096 * i)" using assms that by (intro unat_add_of_nat) simp
    then have va: "unat ?va = unat pd + 4096 + 4096 * i" by (simp add: algebra_simps)
    let ?k = "unat ?va div 4194304"
    have "768 \<le> ?k" using div_le_mono [of "768 * 4194304" "unat ?va" 4194304] assms va by simp
    moreover have "?k < 770" using assms that va by (intro less_mult_imp_div_less) simp
    ultimately have "?k = 768 \<or> ?k = 769" by linarith
    moreover have "ld32 (page_directory_entries pd m) (pd + 4 * drop_bit 22 ?va) = directory_entry pd ?k"
      unfolding page_index(1) by (rule page_directory_entry [OF page_index(2)])
    ultimately show ?thesis
      unfolding walk_def Let_def by (auto simp: directory_entry_def large_entries simp del: push_bit_of_nat)
  qed
  then show ?thesis by (simp add: touched_def list_all_iff)
qed

lemma page_init_sound:
  assumes lz: "is_bsr lz" and k: "0xC0000000 \<le> unat l_ekernel" "unat l_ekernel < 0xC03FF000"
  shows "\<exists>m'. page_init lz l_ekernel (m, t) = Ret (m', t @ page_init_messages l_ekernel) \<and>
    (\<forall>va. walk m' (page_directory_of l_ekernel) va = mapped_to va) \<and>
    buddy_ok m' \<and> unat (buddy_count m') = 16 \<and> used_pages m' = {0..<4} \<and> kept l_ekernel m m'"
proof -
  let ?pd = "page_directory_of l_ekernel"
  have upd: "unat ?pd = (unat l_ekernel + 4096) div 4096 * 4096" using k by (intro page_directory_of) simp
  obtain q where pdq: "?pd = push_bit 12 q" using page_directory_of(2) [of l_ekernel] k by auto
  have "(unat l_ekernel + 4096) div 4096 < 787456" using k by (intro less_mult_imp_div_less) simp
  then have pd: "0xC0000000 \<le> unat ?pd" "unat ?pd \<le> 0xC03FF000"
    unfolding upd using k by linarith+
  have sz: "0 < unat (mb 128)" "unat (mb 128) \<le> 4269801472" "(unat (mb 128) + 8388607) div 8388608 = 16"
    by (simp_all add: mb_def kb_def)
  obtain m' where m': "init_buddy_system lz (page_tables ?pd m) (mb 128) = Ret m'" "buddy_ok m'"
      "unat (buddy_count m') = 16" "used_pages m' = {0..<4}"
      "\<forall>x. unat x \<notin> page_bytes (used_pages m') \<longrightarrow> m' x = page_tables ?pd m x"
    using init_system_sound [OF lz sz(1,2), of "page_tables ?pd m"] block_pages_12k unfolding sz(3) by auto
  have same: "ld32 m' (?pd + of_nat (4 * n)) = ld32 (page_tables ?pd m) (?pd + of_nat (4 * n))" if "n < 787456" for n
  proof (rule ld32_outside_pages [OF m'(5,3)])
    have "unat (?pd + of_nat (4 * n)) = unat ?pd + 4 * n" using that pd by (intro unat_add_of_nat) simp
    moreover have "unat ?pd + 4 * n + 4 \<le> 2 ^ 32" using pd(2) that by simp
    ultimately show "0xC0000000 \<le> unat (?pd + of_nat (4 * n))" "unat (?pd + of_nat (4 * n)) + 4 \<le> 2 ^ 32"
      using pd(1) by linarith+
  qed
  have dir: "ld32 m' (?pd + 4 * of_nat i) = directory_entry ?pd i" if "i < 1024" for i
    using same [of i] page_tables_directory [OF that, of ?pd m] that by simp
  have ent: "ld32 m' (?pd + 4096 + 4 * of_nat i) = (if i = 0 then EMPTY_PAGE else EMPTY_PRESENT (of_nat i * 0x1000))"
    if "i < 786432" for i
    using same [of "1024 + i"] page_tables_entry [OF that, of ?pd m] that by (simp add: algebra_simps)
  have "walk m' ?pd va = mapped_to va" for va by (rule walk_tables [OF dir ent pdq])
  moreover have "kept l_ekernel m m'"
    unfolding kept_def
  proof (intro allI impI)
    fix x :: addr
    assume "unat x < 16777216 \<and> unat x \<notin> table_alias l_ekernel \<or> 0xC0000000 \<le> unat x \<and> unat x < unat l_ekernel"
    then have x: "unat x < 16777216 \<or> 0xC0000000 \<le> unat x \<and> unat x < unat l_ekernel" by blast
    have "unat x < unat ?pd" "unat ?pd \<le> unat x + 0xC0801000" using x pd upd by linarith+
    then have "0x401000 \<le> unat (x - ?pd)" using pd x by (simp add: unat_sub_if')
    then have "page_tables ?pd m x = m x" by (rule page_tables_outside)
    moreover have "unat x \<notin> page_bytes (used_pages m')"
      using x k unfolding m'(4) by (auto simp: page_bytes_def page_addr_def)
    ultimately show "m' x = m x" using m'(5) by simp
  qed
  moreover have "page_init lz l_ekernel (m, t) = Ret (m', t @ page_init_messages l_ekernel)"
  proof -
    have "touched boot_walk ?pd 1" using pd by (simp add: touched_def boot_walk_def kernel_window)
    moreover have "touched (walk (page_tables ?pd m) ?pd) DYNAMIC_MEMORY_BASE 3"
    proof -
      have "walk (page_tables ?pd m) ?pd va = mapped_to va" for va
        by (rule walk_tables [OF page_tables_directory page_tables_entry pdq])
      then show ?thesis by (simp add: touched_def mapped_to_def upt_rec)
    qed
    ultimately show ?thesis
      using m'(1) tables_touched [OF pd, of m]
      by (simp add: page_init_def page_init_messages_def page_tables_def Let_def)
  qed
  ultimately show ?thesis using m' by blast
qed

lemma page_init_faults:
  assumes "0xC03FF000 \<le> unat l_ekernel" and "unat l_ekernel < 0xFFFFE000"
  shows "page_init lz l_ekernel s = Trap Page_fault"
proof -
  have "unat (page_directory_of l_ekernel) = (unat l_ekernel + 4096) div 4096 * 4096" using assms(2) by (rule page_directory_of)
  moreover have "787456 \<le> (unat l_ekernel + 4096) div 4096"
    using div_le_mono [of "787456 * 4096" "unat l_ekernel + 4096" 4096] assms(1) by simp
  ultimately have "0xC0400000 \<le> unat (page_directory_of l_ekernel)" by linarith
  then have "\<not> touched boot_walk (page_directory_of l_ekernel) 1" by (simp add: touched_def boot_walk_def kernel_window)
  then show ?thesis by (cases s) (simp add: page_init_def Let_def)
qed

text \<open>
  C26: page_init, for a kernel that ends between 0xC0000000 and 0xC03FF000, succeeds and leaves page
  tables that map exactly: page 0 to nothing (so a null pointer faults), the rest of the lower 3 GB to
  itself, the 8 MB from 0xC0000000 on to the first 8 MB of memory, the APIC window at 0xFEC00000 to
  itself, and nothing else; and an allocator for 128 MB that is well formed. For a kernel that ends at
  0xC03FF000 or behind it, it faults: the page behind the kernel, where the directory goes, is not
  mapped by the directory the kernel has been started with, which maps 4 MB only.
\<close>
theorem page_init_maps:
  assumes lz: "is_bsr lz" and k: "0xC0000000 \<le> unat l_ekernel" "unat l_ekernel < 0xFFFFE000"
  shows "if unat l_ekernel < 0xC03FF000 then \<exists>m' t'. page_init lz l_ekernel (m, t) = Ret (m', t') \<and>
      (\<forall>va. walk m' (page_directory_of l_ekernel) va = mapped_to va) \<and>
      buddy_ok m' \<and> unat (buddy_count m') = 16
    else page_init lz l_ekernel (m, t) = Trap Page_fault"
proof (cases "unat l_ekernel < 0xC03FF000")
  case True
  then show ?thesis using page_init_sound [OF lz k(1) True, of m t] by auto
next
  case False
  then show ?thesis using page_init_faults [OF _ k(2)] by simp
qed

theorem page_init_maps_witness:
  "page_init bsr 0xC0400000 (\<lambda>_. 0, []) = Trap Page_fault \<and>
   (\<exists>m' t'. page_init bsr 0xC0212345 (\<lambda>_. 0, []) = Ret (m', t') \<and>
     walk m' 0xC0213000 0x12345678 = Some 0x12345678 \<and> walk m' 0xC0213000 8 = None \<and>
     walk m' 0xC0213000 0xC0212345 = Some 0x212345)"
proof -
  have pd: "page_directory_of 0xC0212345 = 0xC0213000" by (simp add: page_directory_of_def)
  obtain m' t' where r: "page_init bsr 0xC0212345 (\<lambda>_. 0, []) = Ret (m', t')"
    "\<forall>va. walk m' 0xC0213000 va = mapped_to va"
    using page_init_maps [OF is_bsr_bsr, of "0xC0212345" "\<lambda>_. 0" "[]"] unfolding pd by auto
  moreover have "page_init bsr 0xC0400000 (\<lambda>_. 0, []) = Trap Page_fault"
    using page_init_maps [OF is_bsr_bsr, of "0xC0400000" "\<lambda>_. 0" "[]"] by simp
  ultimately show ?thesis by (simp add: mapped_to_def)
qed

end
