(* ===== verification/Acpi.thy ===== *)
theory Acpi
  imports Libc_String Hardware
begin

text \<open>
  The ACPI tables of kernel/arch/x86/acpi.c, with the structures of acpi.h. The firmware's tables are
  read from memory: for each structure there is a record of its fields and a function that reads it at
  an address, in the layout the compiler gives it. The strings the tables are compared with are
  literals of the kernel image, whose addresses are parameters.
\<close>

section \<open>The layout of the tables\<close>

definition ld_bytes :: "mem \<Rightarrow> addr \<Rightarrow> nat \<Rightarrow> u8 list" where
  "ld_bytes m p n = map (\<lambda>i. m (p + of_nat i)) [0..<n]"

text \<open>The packed structure of 20 bytes.\<close>

record rsdp_descriptor =
  rsdp_signature :: "u8 list"
  rsdp_checksum :: u8
  rsdp_oem_id :: "u8 list"
  rsdp_revision :: u8
  rsdt_addr :: addr

definition read_rsdp :: "mem \<Rightarrow> addr \<Rightarrow> rsdp_descriptor" where
  "read_rsdp m p = \<lparr>rsdp_signature = ld_bytes m p 8, rsdp_checksum = m (p + 8), rsdp_oem_id = ld_bytes m (p + 9) 6,
     rsdp_revision = m (p + 15), rsdt_addr = ld32 m (p + 16)\<rparr>"

text \<open>The packed header of 36 bytes every other table starts with.\<close>

record acpi_sdt_header =
  sdt_signature :: "u8 list"
  sdt_length :: u32
  sdt_revision :: u8
  sdt_checksum :: u8
  sdt_oem_id :: "u8 list"
  sdt_oem_table_id :: "u8 list"
  sdt_oem_revision :: u32
  sdt_creator_id :: u32
  sdt_creator_revision :: u32

definition read_sdt :: "mem \<Rightarrow> addr \<Rightarrow> acpi_sdt_header" where
  "read_sdt m p = \<lparr>sdt_signature = ld_bytes m p 4, sdt_length = ld32 m (p + 4), sdt_revision = m (p + 8),
     sdt_checksum = m (p + 9), sdt_oem_id = ld_bytes m (p + 10) 6, sdt_oem_table_id = ld_bytes m (p + 16) 8,
     sdt_oem_revision = ld32 m (p + 24), sdt_creator_id = ld32 m (p + 28), sdt_creator_revision = ld32 m (p + 32)\<rparr>"

text \<open>The entries of struct rsdt lie behind its header.\<close>

definition rsdt_entry :: "mem \<Rightarrow> addr \<Rightarrow> nat \<Rightarrow> addr" where
  "rsdt_entry m rsdt i = ld32 m (rsdt + 36 + 4 * of_nat i)"

text \<open>
  struct madt: the header, then the address of the local APIC at 36, the flags at 40, and at 44 the
  first entry.
\<close>

record madt =
  madt_header :: acpi_sdt_header
  local_controller_adress :: u32
  madt_flags :: u32
  first_entry :: addr

definition read_madt :: "mem \<Rightarrow> addr \<Rightarrow> madt" where
  "read_madt m p = \<lparr>madt_header = read_sdt m p, local_controller_adress = ld32 m (p + 36),
     madt_flags = ld32 m (p + 40), first_entry = p + 44\<rparr>"

record madt_entry_header =
  entry_type :: u8
  entry_length :: u8

definition read_madt_entry_header :: "mem \<Rightarrow> addr \<Rightarrow> madt_entry_header" where
  "read_madt_entry_header m p = \<lparr>entry_type = m p, entry_length = m (p + 1)\<rparr>"

text \<open>The union of the packed entries, by the type in the header.\<close>

datatype madt_entry =
    Madt_entry0 (apic_processor_id: u8) (entry_apic_id: u8) (entry_flags: u32)
  | Madt_entry1 (entry_ioapic_id: u8) (entry_reserved: u8) (entry_ioapic_addr: u32) (global_system_interrupt_base: u32)
  | Madt_entry2 (bus_source: u8) (irq_source: u8) (global_system_interrupt: u32) (entry_flags16: u16)
  | Madt_entry3 (entry_flags16: u16) (global_system_interrupt: u32)
  | Madt_entry4 (apic_processor_id: u8) (entry_flags16: u16) (local_apic_inti: u8)
  | Madt_unknown

definition read_madt_entry :: "mem \<Rightarrow> addr \<Rightarrow> madt_entry" where
  "read_madt_entry m p =
     (let t = entry_type (read_madt_entry_header m p)
      in if t = 0 then Madt_entry0 (m (p + 2)) (m (p + 3)) (ld32 m (p + 4))
         else if t = 1 then Madt_entry1 (m (p + 2)) (m (p + 3)) (ld32 m (p + 4)) (ld32 m (p + 8))
         else if t = 2 then Madt_entry2 (m (p + 2)) (m (p + 3)) (ld32 m (p + 4)) (ld16 m (p + 8))
         else if t = 3 then Madt_entry3 (ld16 m (p + 2)) (ld32 m (p + 4))
         else if t = 4 then Madt_entry4 (m (p + 2)) (ld16 m (p + 3)) (m (p + 5))
         else Madt_unknown)"

lemma read_tables [simp]:
  "rsdt_addr (read_rsdp m p) = ld32 m (p + 16)"
  "sdt_length (read_sdt m p) = ld32 m (p + 4)"
  "madt_header (read_madt m p) = read_sdt m p"
  "first_entry (read_madt m p) = p + 44"
  "entry_type (read_madt_entry_header m p) = m p"
  "entry_length (read_madt_entry_header m p) = m (p + 1)"
  by (simp_all add: read_rsdp_def read_sdt_def read_madt_def read_madt_entry_header_def)

section \<open>Finding the tables\<close>

record acpi =
  rsdp_base :: addr
  sdt_table_header :: addr
  acpi_trace :: trace

definition byte_sum :: "mem \<Rightarrow> addr \<Rightarrow> nat \<Rightarrow> u32" where
  "byte_sum m p n = fold (\<lambda>i s. s + ucast (m (p + of_nat i))) [0..<n] 0"

definition rsdp_at :: "mem \<Rightarrow> addr \<Rightarrow> addr \<Rightarrow> bool" where
  "rsdp_at m sig p \<longleftrightarrow> strncmp m p sig 8 = 0 \<and> byte_sum m p 20 AND 0xFF = 0"

text \<open>The loop runs over the addresses 0xE0000, 0xE0010, ... below 0xFFFFF.\<close>

definition scan_addresses :: "addr list" where
  "scan_addresses = map (\<lambda>i. 0xE0000 + 16 * of_nat i) [0..<8192]"

text \<open>
  When the sum of the table's bytes is wrong, a message is printed and the CPU halted: kmain calls
  find_rsdp before it enables the interrupts, so that hlt is the end.
\<close>

definition find_rsdp :: "mem \<Rightarrow> addr \<Rightarrow> acpi \<Rightarrow> acpi run" where
  "find_rsdp m sig s =
     (let s1 = (case find (rsdp_at m sig) scan_addresses of
                  Some p \<Rightarrow> s\<lparr>acpi_trace := acpi_trace s @ [Printk ''Found valid RSDP table at adress: %08X\<newline>'' [p]],
                             rsdp_base := p\<rparr>
                | None \<Rightarrow> s)
      in if rsdp_base s1 = NULL then Trap Null_deref
         else let r = rsdp_base s1;
              s2 = s1\<lparr>acpi_trace := acpi_trace s1 @ [Printk ''OEM id %c%c%c%c%c%c\<newline>''
                     (map scast (rsdp_oem_id (read_rsdp m r)))]\<rparr>;
              s3 = s2\<lparr>sdt_table_header := rsdt_addr (read_rsdp m r)\<rparr>;
              sum = byte_sum m (sdt_table_header s3) (unat (sdt_length (read_sdt m (sdt_table_header s3))))
         in if sum AND 0xFF \<noteq> 0 then Trap Halted else Ret s3)"

text \<open>The tables the loop of find_rstd_descriptor looks at; the count is the unsigned quotient, read as signed.\<close>

definition rsdt_entries :: "mem \<Rightarrow> addr \<Rightarrow> addr list" where
  "rsdt_entries m rsdt =
     (let entries = (sdt_length (read_sdt m rsdt) - 36) div 4 :: u32 in map (rsdt_entry m rsdt) [0..<nat (sint entries)])"

definition find_rstd_descriptor :: "mem \<Rightarrow> addr \<Rightarrow> acpi \<Rightarrow> addr" where
  "find_rstd_descriptor m signature s =
     (case find (\<lambda>h. strncmp m h signature 4 = 0) (rsdt_entries m (sdt_table_header s)) of
        Some h \<Rightarrow> h | None \<Rightarrow> NULL)"

end
