(* ===== verification/Apic.thy ===== *)
theory Apic
  imports Acpi Interrupts Descriptors Buddy_System
begin

text \<open>
  The local APIC and the I/O APIC of kernel/arch/x86/apic.c. The firmware's table of them is read from
  memory (Acpi); the registers are device registers.
\<close>

section \<open>The I/O APIC\<close>

record apics =
  ioapic_id :: u8
  ioapic_addr :: addr
  apic_freq :: i32
  apic_tick_count :: i32
  irq_handler_set :: bool
  atrace :: trace

definition ioapic_write_reg :: "u8 \<Rightarrow> u32 \<Rightarrow> apics \<Rightarrow> apics" where
  "ioapic_write_reg offset val s =
     s\<lparr>atrace := atrace s @ [Mmio_write8 (ioapic_addr s) offset, Mmio_write (ioapic_addr s + 0x10) val]\<rparr>"

definition ioapic_read_reg :: "hw \<Rightarrow> u8 \<Rightarrow> apics \<Rightarrow> u32 \<times> apics" where
  "ioapic_read_reg hw offset s =
     (let (v, t) = mmio_read hw (ioapic_addr s + 0x10) (atrace s @ [Mmio_write8 (ioapic_addr s) offset])
      in (v, s\<lparr>atrace := t\<rparr>))"

definition IOAPIC_SEG_DEL_MOD :: "u32 \<Rightarrow> u32" where "IOAPIC_SEG_DEL_MOD x = push_bit 8 x"
definition IOAPIC_SEG_DES_MOD :: "u32 \<Rightarrow> u32" where "IOAPIC_SEG_DES_MOD x = push_bit 11 x"
definition IOAPIC_SEG_DEL_STA :: "u32 \<Rightarrow> u32" where "IOAPIC_SEG_DEL_STA x = push_bit 12 x"
definition IOAPIC_SEG_INT_POL :: "u32 \<Rightarrow> u32" where "IOAPIC_SEG_INT_POL x = push_bit 13 x"
definition IOAPIC_SEG_IRR_RO :: "u32 \<Rightarrow> u32" where "IOAPIC_SEG_IRR_RO x = push_bit 14 x"
definition IOAPIC_SEG_TRI_MOD :: "u32 \<Rightarrow> u32" where "IOAPIC_SEG_TRI_MOD x = push_bit 15 x"
definition IOAPIC_SEG_INT_MAS :: "u32 \<Rightarrow> u32" where "IOAPIC_SEG_INT_MAS x = push_bit 16 x"
definition IOAPIC_DEST_FIELD :: "u32 \<Rightarrow> u32" where "IOAPIC_DEST_FIELD x = push_bit 0x17 x"

definition ioapic_register_rte :: "u32 \<Rightarrow> u32 \<Rightarrow> u32 \<Rightarrow> apics \<Rightarrow> apics" where
  "ioapic_register_rte irq cpu lo s =
     ioapic_write_reg (ucast (0x10 + irq * 2 + 1)) (IOAPIC_DEST_FIELD cpu)
       (ioapic_write_reg (ucast (0x10 + irq * 2)) lo s)"

section \<open>The MADT\<close>

text \<open>What the loop body prints for an entry, by its type.\<close>

definition madt_prints :: "madt_entry \<Rightarrow> trace" where
  "madt_prints ent = (case ent of
       Madt_entry0 processor_id id_no fl \<Rightarrow>
         [Printk ''Printing madt of type 0\<newline>'' [], Printk ''  ACPI processor Id   0x%02X\<newline>'' [ucast processor_id],
          Printk ''  ACPI id             0x%02X\<newline>'' [ucast id_no], Printk ''  flags               0x%08X\<newline>'' [fl]]
     | Madt_entry1 id_no reserved a base \<Rightarrow>
         [Printk ''Printing madt of type 1\<newline>'' [], Printk ''  IOAPIC id:          0x%02X\<newline>'' [ucast id_no],
          Printk ''  IOAPIC address      0x%04X\<newline>'' [a], Printk ''  Global SYS INT base 0x%08X\<newline>'' [base]]
     | Madt_entry2 bus irq gsi fl \<Rightarrow>
         [Printk ''Printing madt of type 2\<newline>'' [], Printk ''  Bus source          0x%02X\<newline>'' [ucast bus],
          Printk ''  irq source          0x%02X\<newline>'' [ucast irq], Printk ''  Global SYS INT      0x%08X\<newline>'' [gsi],
          Printk ''  flags               0x%04X\<newline>'' [ucast fl]]
     | Madt_entry3 fl gsi \<Rightarrow>
         [Printk ''Printing madt of type 3\<newline>'' [], Printk ''  Global SYS INT      0x%08X\<newline>'' [gsi],
          Printk ''  flags               0x%04X\<newline>'' [ucast fl]]
     | Madt_entry4 processor_id fl inti \<Rightarrow>
         [Printk ''Printing madt of type 4\<newline>'' [], Printk ''  ACPI processor Id   0x%02X\<newline>'' [ucast processor_id],
          Printk ''  local apic inti#    0x%04X\<newline>'' [ucast inti], Printk ''  flags               0x%02X\<newline>'' [ucast fl]]
     | Madt_unknown \<Rightarrow> [])"

definition madt_entry_step :: "mem \<Rightarrow> addr \<Rightarrow> apics \<Rightarrow> apics" where
  "madt_entry_step m p s =
     (let ent = read_madt_entry m p; s1 = s\<lparr>atrace := atrace s @ madt_prints ent\<rparr>
      in case ent of
           Madt_entry1 id_no _ a _ \<Rightarrow> s1\<lparr>ioapic_addr := a, ioapic_id := id_no\<rparr>
         | _ \<Rightarrow> s1)"

text \<open>An entry of length 0 keeps the loop at the same place for ever.\<close>

partial_function (option) madt_loop :: "mem \<Rightarrow> addr \<Rightarrow> addr \<Rightarrow> apics \<Rightarrow> apics option" where
  "madt_loop m madt_end ent s =
     (if ent < madt_end
      then madt_loop m madt_end (ent + ucast (entry_length (read_madt_entry_header m ent))) (madt_entry_step m ent s)
      else Some s)"

definition parse_madt_table :: "mem \<Rightarrow> addr \<Rightarrow> acpi \<Rightarrow> apics \<Rightarrow> apics run" where
  "parse_madt_table m sig ac s =
     (let descriptor = find_rstd_descriptor m sig ac;
          s1 = s\<lparr>atrace := atrace s @ [Printk ''descriptor = %08X\<newline>'' [descriptor]]\<rparr>
      in if descriptor = NULL then Trap Null_deref
         else let t = read_madt m descriptor; madt_end = descriptor + sdt_length (madt_header t)
           in lift_run (madt_loop m madt_end (first_entry t) s1))"

section \<open>The local APIC\<close>

text \<open>The loop of apic_read_isr reads the registers at 0x180 down to 0x110.\<close>

primrec read_isr_loop :: "(u32 \<Rightarrow> u32) \<Rightarrow> hw \<Rightarrow> nat list \<Rightarrow> trace \<Rightarrow> u32 \<times> trace" where
  "read_isr_loop lz hw [] t = (256, t)"
| "read_isr_loop lz hw (i # is) t =
     (let (reg, t1) = apic_read_reg hw (0x100 + 0x10 * of_nat i) t
      in if reg \<noteq> 0 then (32 * of_nat i + lz reg, t1) else read_isr_loop lz hw is t1)"

definition apic_read_isr :: "(u32 \<Rightarrow> u32) \<Rightarrow> hw \<Rightarrow> trace \<Rightarrow> u32 \<times> trace" where
  "apic_read_isr lz hw t = read_isr_loop lz hw (rev [1..<9]) t"

text \<open>
  The callback works on the trace and on a state w of its own; call is the effect of calling it. The
  vector is left for it in the registers (int_no).
\<close>

definition apic_irq_handler ::
    "(u32 \<Rightarrow> u32) \<Rightarrow> hw \<Rightarrow> (addr \<Rightarrow> u8 \<Rightarrow> addr \<Rightarrow> 'w \<times> trace \<Rightarrow> ('w \<times> trace) run) \<Rightarrow> idts \<Rightarrow> 'w \<times> trace \<Rightarrow> ('w \<times> trace) run" where
  "apic_irq_handler lz hw call s = (\<lambda>(w, t).
     let (isr, t1) = apic_read_isr lz hw t; vector = ucast isr :: u8
     in run_bind (idt_call_irq call (unat vector) vector s (w, t1)) (\<lambda>(w1, t2).
          Ret (w1, irq_eoi True (ucast vector) t2)))"

partial_function (option) pit_wait :: "hw \<Rightarrow> trace \<Rightarrow> (i32 \<times> trace) option" where
  "pit_wait hw t =
     (let (c, t1) = pit_get_current_count hw t; cnt = ucast c :: i32
      in if 10000 \<le> sint cnt then pit_wait hw t1 else Some (cnt, t1))"

definition apic_init_timer :: "hw \<Rightarrow> apics \<Rightarrow> apics run" where
  "apic_init_timer hw s =
     (let initial = 100000000 :: u32;
          masked = 48 OR IOAPIC_SEG_INT_MAS 1 OR push_bit 17 1;
          unmasked_oneshot = 48 OR IOAPIC_SEG_INT_MAS 0 OR push_bit 17 0;
          t1 = apic_write_reg 0x3E0 0x3 (atrace s);
          t2 = apic_write_reg 0x380 initial t1;
          t3 = apic_write_reg 0x320 masked t2;
          t4 = pit_interrupt_in 60000 t3;
          t5 = apic_write_reg 0x320 (masked XOR IOAPIC_SEG_INT_MAS 1) t4
      in run_bind (lift_run (pit_wait hw t5)) (\<lambda>(cnt, t6).
        let t7 = apic_write_reg 0x320 masked t6;
            (test_count, t8) = apic_read_reg hw 0x390 t7;
            t9 = t8 @ [Printk ''count %d\<newline>'' [initial - test_count]]
        in if 60000 - cnt = 0 then Trap Divide_error
           else
             let freq = sdiv32 1193182 (60000 - cnt) * (initial - test_count);
                 t10 = t9 @ [Printk ''APIC freq ~ %d\<newline>'' [freq]];
                 ticks = sdiv32 (freq + 1000000 - 1) 1000000;
                 t11 = t10 @ [Printk ''Target Frequency %d\<newline>'' [ticks]];
                 t12 = apic_write_reg 0x380 0 t11;
                 t13 = apic_write_reg 0x320 unmasked_oneshot t12
             in Ret (s\<lparr>apic_freq := freq, apic_tick_count := ticks,
                       atrace := t13 @ [Printk ''Apic Timer initialization done!\<newline>'' []]\<rparr>)))"

definition apic_timer_interrupt_in :: "u32 \<Rightarrow> apics \<Rightarrow> apics" where
  "apic_timer_interrupt_in us s =
     (let t1 = disable_interrupts (atrace s);
          count = us * apic_tick_count s
      in s\<lparr>atrace := enable_interrupts (apic_write_reg 0x380 count t1)\<rparr>)"

definition apic_timer_get_count :: "hw \<Rightarrow> apics \<Rightarrow> u32 \<times> apics" where
  "apic_timer_get_count hw s =
     (let (v, t) = apic_read_reg hw 0x390 (atrace s) in (v, s\<lparr>atrace := t\<rparr>))"

definition apic_timer_get_tick_count :: "hw \<Rightarrow> apics \<Rightarrow> (u32 \<times> apics) run" where
  "apic_timer_get_tick_count hw s =
     (let (v, s1) = apic_timer_get_count hw s
      in if apic_tick_count s1 = 0 then Trap Divide_error else Ret (v div apic_tick_count s1, s1))"

definition apic_enable :: "hw \<Rightarrow> mem \<Rightarrow> addr \<Rightarrow> acpi \<Rightarrow> apics \<Rightarrow> apics run" where
  "apic_enable hw m sig ac s =
     (let t1 = apic_write_reg 0x0E0 0xFFFFFFFF (atrace s);
          t2 = apic_write_reg 0x0D0 0x10000000 t1;
          (spurious, t3) = apic_read_reg hw 0x0F0 t2;
          t4 = apic_write_reg 0x0F0 (spurious OR 0x100) t3;
          (apic_id, t5) = apic_read_reg hw 0x020 t4;
          t6 = t5 @ [Printk ''APIC id: %08x\<newline>'' [apic_id]]
      in run_bind (parse_madt_table m sig ac (s\<lparr>atrace := t6\<rparr>)) (\<lambda>s1.
        let (version, s2) = ioapic_read_reg hw 0x01 s1;
            s3 = s2\<lparr>atrace := atrace s2 @ [Printk ''IOAPIC Version = 0x%02X\<newline>'' [version AND 0xff],
                   Printk ''IOAPIC Max RT entries = 0x%02x\<newline>'' [drop_bit 16 version AND 0xff]]\<rparr>;
            keyboard_lo = 0x21 OR IOAPIC_SEG_DEL_MOD 0 OR IOAPIC_SEG_DES_MOD 0 OR IOAPIC_SEG_DEL_STA 0
              OR IOAPIC_SEG_INT_POL 0 OR IOAPIC_SEG_IRR_RO 0 OR IOAPIC_SEG_TRI_MOD 0 OR IOAPIC_SEG_INT_MAS 0
        in Ret ((ioapic_register_rte 1 0 keyboard_lo s3)\<lparr>irq_handler_set := True\<rparr>)))"

section \<open>What the walk of the MADT does\<close>

text \<open>The entries from p on, each the length of its second byte behind the one before, up to the end.\<close>

fun madt_at :: "mem \<Rightarrow> addr \<Rightarrow> addr \<Rightarrow> addr list \<Rightarrow> bool" where
  "madt_at m madt_end p [] \<longleftrightarrow> \<not> p < madt_end"
| "madt_at m madt_end p (x # xs) \<longleftrightarrow> x = p \<and> p < madt_end \<and>
     madt_at m madt_end (p + ucast (entry_length (read_madt_entry_header m p))) xs"

lemma madt_loop_entries: "madt_at m madt_end p xs \<Longrightarrow> madt_loop m madt_end p s = Some (fold (madt_entry_step m) xs s)"
proof (induction xs arbitrary: p s)
  case (Cons x xs)
  then show ?case by (subst madt_loop.simps) auto
qed (subst madt_loop.simps, simp)

lemma madt_at_unique: "madt_at m madt_end p xs \<Longrightarrow> madt_at m madt_end p ys \<Longrightarrow> xs = ys"
proof (induction xs arbitrary: p ys)
  case Nil
  then show ?case by (cases ys) auto
next
  case (Cons x xs)
  then show ?case by (cases ys) auto
qed

lemma madt_loop_only: "madt_loop m madt_end p s = Some s' \<Longrightarrow> \<exists>xs. madt_at m madt_end p xs"
proof (rule madt_loop.raw_induct [where P = "\<lambda>m madt_end p s s'. \<exists>xs. madt_at m madt_end p xs", rotated])
  fix rec m madt_end p s s'
  assume IH: "\<And>m madt_end p s s'. rec m madt_end p s = Some s' \<Longrightarrow> \<exists>xs. madt_at m madt_end p xs"
    and eq: "(if p < madt_end then rec m madt_end (p + ucast (entry_length (read_madt_entry_header m p))) (madt_entry_step m p s) else Some s) = Some s'"
  show "\<exists>xs. madt_at m madt_end p xs"
  proof (cases "p < madt_end")
    case True
    then have "rec m madt_end (p + ucast (entry_length (read_madt_entry_header m p))) (madt_entry_step m p s) = Some s'" using eq by simp
    then obtain xs where "madt_at m madt_end (p + ucast (entry_length (read_madt_entry_header m p))) xs" using IH by blast
    then show ?thesis using True by (intro exI [of _ "p # xs"]) simp
  next
    case False
    then show ?thesis by (intro exI [of _ "[]"]) simp
  qed
qed

abbreviation is_ioapic :: "mem \<Rightarrow> addr \<Rightarrow> bool" where
  "is_ioapic m p \<equiv> entry_type (read_madt_entry_header m p) = 1"

lemma madt_step_ioapic:
  "ioapic_addr (madt_entry_step m p s) =
     (if is_ioapic m p then entry_ioapic_addr (read_madt_entry m p) else ioapic_addr s)"
  by (simp add: madt_entry_step_def read_madt_entry_def Let_def)

lemma madt_steps_ioapic:
  "ioapic_addr (fold (madt_entry_step m) xs s) =
     (case rev (filter (is_ioapic m) xs) of [] \<Rightarrow> ioapic_addr s | x # _ \<Rightarrow> entry_ioapic_addr (read_madt_entry m x))"
  by (induction xs rule: rev_induct) (simp_all add: madt_step_ioapic)

text \<open>
  C36: the walk of the MADT. madt_loop returns exactly when the entries of the table, each found by the
  length the one before gives, come to the end of the table after finitely many; it then has visited
  just these entries, in order, and the I/O APIC is the one of the last entry of type 1. A table that
  does not come to its end, for instance one with an entry of length 0, is walked for ever.
\<close>
theorem madt_loop_walks:
  "(madt_loop m madt_end p s = Some s' \<longleftrightarrow> (\<exists>xs. madt_at m madt_end p xs \<and> s' = fold (madt_entry_step m) xs s \<and>
     ioapic_addr s' = (case rev (filter (is_ioapic m) xs) of [] \<Rightarrow> ioapic_addr s | x # _ \<Rightarrow> entry_ioapic_addr (read_madt_entry m x)))) \<and>
   (madt_loop m madt_end p s = None \<longleftrightarrow> (\<nexists>xs. madt_at m madt_end p xs))"
proof (cases "\<exists>xs. madt_at m madt_end p xs")
  case True
  then obtain xs where xs: "madt_at m madt_end p xs" by blast
  then have "madt_at m madt_end p ys \<longleftrightarrow> ys = xs" for ys using madt_at_unique by blast
  then show ?thesis unfolding madt_loop_entries [OF xs, of s] using madt_steps_ioapic [of m xs s] by auto
next
  case False
  then show ?thesis using madt_loop_only [of m madt_end p s] by (cases "madt_loop m madt_end p s") auto
qed

section \<open>The vector in service\<close>

text \<open>
  The registers 0x100 to 0x180 as one word of 288 bits: the in-service registers, in which bit v stands
  for vector v, and behind them the first trigger mode register. The devices answer every read of them
  with the same value.
\<close>

definition service_registers :: "hw \<Rightarrow> 288 word \<Rightarrow> bool" where
  "service_registers hw regs \<longleftrightarrow>
     (\<forall>t. \<forall>i < 9. mmio_in hw t (APIC_LOCATION + (0x100 + 0x10 * of_nat i)) = ucast (drop_bit (32 * i) regs))"

lemma is_bsr_bit:
  assumes "is_bsr lz" and "x \<noteq> 0"
  shows "bit x (unat (lz x))" and "bit x b \<Longrightarrow> b \<le> unat (lz x)" and "unat (lz x) < 32"
proof -
  let ?h = "unat (lz x)"
  have odd: "bit x b \<longleftrightarrow> odd (unat x div 2 ^ b)" for b
    by (simp add: bit_iff_odd [of "unat x", symmetric] bit_unsigned_iff)
  have h: "2 ^ ?h \<le> unat x" "unat x < 2 * 2 ^ ?h" using assms by (auto simp: is_bsr_def)
  then have "unat x div 2 ^ ?h = 1" by (simp add: div_nat_eqI)
  then show "bit x ?h" by (simp add: odd)
  then show "?h < 32" using bit_imp_le_length [of x ?h] by simp
  show "b \<le> ?h" if "bit x b"
  proof (rule ccontr)
    assume "\<not> b \<le> ?h"
    then have "(2::nat) * 2 ^ ?h \<le> 2 ^ b" using power_increasing [of "Suc ?h" b "2::nat"] by simp
    then have "unat x div 2 ^ b = 0" using h(2) by simp
    then show False using that by (simp add: odd)
  qed
qed

lemma find_append: "find P (xs @ ys) = (case find P xs of None \<Rightarrow> find P ys | Some x \<Rightarrow> Some x)"
  by (induction xs) auto

lemma find_highest:
  assumes "P h" and "a \<le> h" and "h < b" and "\<And>x. h < x \<Longrightarrow> x < b \<Longrightarrow> \<not> P x"
  shows "find P (rev [a..<b]) = Some h"
proof -
  have "rev [a..<b] = rev [Suc h..<b] @ h # rev [a..<h]"
    using assms(2,3) upt_add_eq_append [of a h "b - h"] by (simp add: upt_rec [of h b])
  moreover have "find P (rev [Suc h..<b]) = None" using assms(4) by (auto simp: find_None_iff)
  ultimately show ?thesis using assms(1) by (simp add: find_append)
qed

text \<open>Register i holds the bits of the vectors from 32 * i on.\<close>

lemma highest_in_register:
  fixes regs :: "288 word"
  defines "reg \<equiv> (\<lambda>i. ucast (drop_bit (32 * i) regs) :: u32)"
  assumes "is_bsr lz" and "i < 9"
  shows "find (bit regs) (rev [32 * i..<32 * Suc i]) = (if reg i = 0 then None else Some (32 * i + unat (lz (reg i))))"
proof -
  have bits: "bit (reg i) b \<longleftrightarrow> b < 32 \<and> bit regs (32 * i + b)" for b
    using assms(3) by (auto simp: reg_def bit_simps)
  show ?thesis
  proof (cases "reg i = 0")
    case True
    have "\<not> bit regs x" if "32 * i \<le> x" "x < 32 * Suc i" for x
      using bits [of "x - 32 * i"] that True by simp
    then show ?thesis using True by (auto simp: find_None_iff)
  next
    case False
    note lz = is_bsr_bit [OF assms(2) False]
    have "find (bit regs) (rev [32 * i..<32 * Suc i]) = Some (32 * i + unat (lz (reg i)))"
    proof (rule find_highest)
      show "\<not> bit regs x" if "32 * i + unat (lz (reg i)) < x" "x < 32 * Suc i" for x
        using lz(2) [of "x - 32 * i"] bits [of "x - 32 * i"] that by auto
    qed (use lz(1,3) bits in auto)
    then show ?thesis using False by simp
  qed
qed

lemma read_isr_loop_find:
  assumes "is_bsr lz" and "service_registers hw regs" and "n < 9"
  shows "\<exists>reads. read_isr_loop lz hw (rev [1..<Suc n]) t =
      (case find (bit regs) (rev [32..<32 * Suc n]) of Some v \<Rightarrow> of_nat v | None \<Rightarrow> 256, t @ reads) \<and>
    (\<forall>ev \<in> set reads. \<exists>a v. ev = Mmio_read a v)"
  using assms(3)
proof (induction n arbitrary: t)
  case (Suc n)
  let ?reg = "ucast (drop_bit (32 * Suc n) regs) :: u32"
  obtain a where a: "apic_read_reg hw (0x100 + 0x10 * of_nat (Suc n)) t = (?reg, t @ [Mmio_read a ?reg])"
    using assms(2) Suc.prems by (simp add: service_registers_def apic_read_reg_def mmio_read_def Let_def del: of_nat_Suc)
  have split: "rev [32..<32 * Suc (Suc n)] = rev [32 * Suc n..<32 * Suc (Suc n)] @ rev [32..<32 * Suc n]"
    using upt_add_eq_append [of 32 "32 * Suc n" 32] by (simp add: algebra_simps)
  have top: "rev [1..<Suc (Suc n)] = Suc n # rev [1..<Suc n]" by simp
  show ?case
  proof (cases "?reg = 0")
    case True
    then show ?thesis
      using Suc.IH [of "t @ [Mmio_read a ?reg]"] Suc.prems highest_in_register [OF assms(1) Suc.prems, of regs]
      unfolding top split find_append read_isr_loop.simps a by fastforce
  next
    case False
    then show ?thesis
      using highest_in_register [OF assms(1) Suc.prems, of regs]
      unfolding top split find_append read_isr_loop.simps a by auto
  qed
qed simp

text \<open>The vector apic_irq_handler calls: the highest one whose bit is set, truncated to 8 bits.\<close>

definition vector_called :: "288 word \<Rightarrow> nat" where
  "vector_called regs = (case find (bit regs) (rev [32..<288]) of Some v \<Rightarrow> v mod 256 | None \<Rightarrow> 0)"

text \<open>
  C37: the dispatch of apic_irq_handler. On a CPU on which the instruction lzcnt runs as bsr, with the
  registers holding the bits regs, the handler first only reads registers and then calls the callback of
  the highest vector from 32 on whose bit is set in the in-service registers, whatever other vectors are
  in service, with that vector in the registers it passes and with the data it was registered with. When
  the callback has returned, and not before, the interrupt is acknowledged, once at the first PIC and once
  at the local APIC, and once at the second PIC exactly if the vector is above 40 (so not for 40, its line
  0, but for vectors that are not behind it as well). A callback that fails leaves it unacknowledged. A
  bit of the trigger mode register behind the in-service registers counts as one of the vectors 0 to 31,
  and when no bit is set, as at a spurious interrupt, vector 0 is called and acknowledged.
\<close>
theorem apic_irq_handler_dispatches:
  assumes "is_bsr lz" and "service_registers hw regs"
  shows "\<exists>reads. apic_irq_handler lz hw call s (w, t) =
      run_bind (call (callback (irq_handlers s (vector_called regs))) (of_nat (vector_called regs))
          (data (irq_handlers s (vector_called regs))) (w, t @ reads)) (\<lambda>(w', t').
        Ret (w', t' @ (if 40 < vector_called regs then [Outb PIC2_CMD 0x20] else []) @
          [Outb PIC1_CMD 0x20, Mmio_write (APIC_LOCATION + APIC_EOI_REGISTER) 0])) \<and>
    (\<forall>e \<in> set reads. \<exists>a v. e = Mmio_read a v)"
proof -
  define isr :: u32 where "isr = (case find (bit regs) (rev [32..<288]) of Some v \<Rightarrow> of_nat v | None \<Rightarrow> 256)"
  have upto: "[1..<9] = [1..<Suc 8]" "[32..<288] = [32..<32 * Suc 8]" and eight: "(8::nat) < 9"
    by simp_all
  obtain reads where reads: "apic_read_isr lz hw t = (isr, t @ reads)" "\<forall>e \<in> set reads. \<exists>a v. e = Mmio_read a v"
    using read_isr_loop_find [OF assms eight, of t] unfolding apic_read_isr_def isr_def upto by blast
  have isr: "unat isr mod 256 = vector_called regs"
  proof (cases "find (bit regs) (rev [32..<288])")
    case (Some v)
    then have "v \<in> set (rev [32..<288])" by (metis find_Some_iff nth_mem)
    then have "v < 288" unfolding set_rev set_upt by simp
    then have "unat (of_nat v :: u32) = v" by (simp add: unat_of_nat)
    then show ?thesis unfolding isr_def vector_called_def Some by simp
  qed (simp only: isr_def vector_called_def option.case, simp)
  define vector :: u8 where "vector = ucast isr"
  have v: "unat vector = vector_called regs" using isr by (simp add: vector_def unsigned_ucast_eq take_bit_eq_mod)
  then have vec: "vector = of_nat (vector_called regs)" by (simp flip: v)
  have "sint (ucast vector :: i32) = int (vector_called regs)"
  proof -
    have "unat vector < 256" using unsigned_less [of vector, where 'a = nat] by simp
    then have "unat (ucast vector :: i32) = unat vector" by (simp add: unsigned_ucast_eq take_bit_nat_eq_self)
    then show ?thesis using \<open>unat vector < 256\<close> v by (subst sint_eq_unat) simp_all
  qed
  then have "irq_eoi True (ucast vector) t' = t' @ (if 40 < vector_called regs then [Outb PIC2_CMD 0x20] else []) @
      [Outb PIC1_CMD 0x20, Mmio_write (APIC_LOCATION + APIC_EOI_REGISTER) 0]" for t'
    by (simp add: irq_eoi_def apic_write_reg_def Let_def)
  then have "apic_irq_handler lz hw call s (w, t) = run_bind (idt_call_irq call (vector_called regs) (of_nat (vector_called regs)) s (w, t @ reads))
      (\<lambda>(w', t'). Ret (w', t' @ (if 40 < vector_called regs then [Outb PIC2_CMD 0x20] else []) @
        [Outb PIC1_CMD 0x20, Mmio_write (APIC_LOCATION + APIC_EOI_REGISTER) 0]))"
    unfolding apic_irq_handler_def reads(1) Let_def split_conv vector_def [symmetric] v by (simp only: vec)
  then show ?thesis unfolding idt_call_irq_def using reads(2) by blast
qed

text \<open>The timer (vector 48) interrupts the handler of the keyboard (vector 33).\<close>

definition two_in_service :: hw where
  "two_in_service = quiet\<lparr>mmio_in := (\<lambda>t a. if a = APIC_LOCATION + 0x110 then 0x10002 else 0)\<rparr>"

text \<open>A callback that notes in w what it is called with.\<close>

definition noting :: "addr \<Rightarrow> u8 \<Rightarrow> addr \<Rightarrow> (addr \<times> u8 \<times> addr) list \<times> trace \<Rightarrow> ((addr \<times> u8 \<times> addr) list \<times> trace) run" where
  "noting f n d = (\<lambda>(w, t). Ret (w @ [(f, n, d)], t))"

definition timer_idts :: idts where
  "timer_idts = boot_idts\<lparr>irq_handlers := (irq_handlers boot_idts)(48 := \<lparr>data = 7, callback = 0xC0105000\<rparr>)\<rparr>"

theorem apic_irq_handler_dispatches_witness:
  "\<exists>t. apic_irq_handler bsr two_in_service noting timer_idts ([], []) = Ret ([(0xC0105000, 48, 7)], t)"
proof -
  let ?regs = "0x1000200000000 :: 288 word"
  have regs: "list_all (\<lambda>i. (0x100 + 0x10 * of_nat i = (0x110 :: u32)) = (i = 1) \<and>
      ucast (drop_bit (32 * i) ?regs) = (if i = 1 then 0x10002 else 0 :: u32)) [0..<9]"
    by code_simp
  have "service_registers two_in_service ?regs"
    using regs by (auto simp: service_registers_def two_in_service_def list_all_iff)
  moreover have "vector_called ?regs = 48" by code_simp
  ultimately show ?thesis
    using apic_irq_handler_dispatches [OF is_bsr_bsr, of two_in_service ?regs noting timer_idts "[]" "[]"]
    by (auto simp: noting_def timer_idts_def)
qed

end
