(* ===== verification/Pci_Config.thy ===== *)
theory Pci_Config
  imports Hardware
begin

text \<open>
  Access to the PCI configuration space (kernel/drivers/pci/pci.c, configuration mechanism 1), the
  accessors of a device and the search for a capability. A device structure is a record; the number
  of its bus is read through its bus pointer (dev -> bus -> bus) and is a parameter here.
\<close>

section \<open>Structures\<close>

record msix =
  enabled :: u8
  function_mask :: u8
  cap_base :: u32
  max_entries :: u32
  allocated_entries :: u32
  table_addr :: addr
  pba_addr :: addr
  per_vector_masking :: bool
  big_addr :: bool

record pci_dev_resource =
  res_type :: u8
  res_start :: u32
  res_end :: u32

text \<open>dev_addr is where the structure lies; driver is the address of the driver, 0 when there is none.\<close>

record pci_dev =
  dev_addr :: addr
  dev_no :: u8
  dev_func :: u8
  vendor_id :: u16
  device_id :: u16
  subsystem_id :: u16
  base_class :: u8
  sub_class :: u8
  revision :: u8
  header_type :: u8
  capabilities :: u8
  has_msix :: bool
  should_use_msix :: bool
  dev_irq :: u8
  BAR :: "nat \<Rightarrow> u32"
  resources :: "nat \<Rightarrow> pci_dev_resource"
  dev_msix :: msix
  dev_driver :: addr

definition RESOURCE_IO :: u8 where "RESOURCE_IO = 1"
definition RESOURCE_MEM :: u8 where "RESOURCE_MEM = 2"

definition pci_resource_get_base :: "pci_dev \<Rightarrow> nat \<Rightarrow> u32" where
  "pci_resource_get_base d i = res_start (resources d i)"

definition pci_resource_get_end :: "pci_dev \<Rightarrow> nat \<Rightarrow> u32" where
  "pci_resource_get_end d i = res_end (resources d i)"

definition pci_resource_get_legth :: "pci_dev \<Rightarrow> nat \<Rightarrow> u32" where
  "pci_resource_get_legth d i =
     (if pci_resource_get_base d i = 0 then 0
      else if pci_resource_get_end d i = 0 then 0
      else pci_resource_get_end d i - pci_resource_get_base d i)"

section \<open>Configuration space\<close>

text \<open>
  The asserts of pci_config_read_word and pci_config_read_dword test the alignment to 1, which every
  offset has. The port 0xCF8 takes the address, 0xCFC the data.
\<close>

lemma aligned_to_one: "ALIGNED a 1"
  by (simp add: ALIGNED_def)

definition config_address :: "u8 \<Rightarrow> u8 \<Rightarrow> u8 \<Rightarrow> u8 \<Rightarrow> u32" where
  "config_address bus slot func reg =
     0x80000000 OR push_bit 16 (ucast bus) OR push_bit 11 (ucast slot) OR push_bit 8 (ucast func) OR ucast reg"

definition config_read :: "hw \<Rightarrow> u8 \<Rightarrow> u8 \<Rightarrow> u8 \<Rightarrow> u8 \<Rightarrow> trace \<Rightarrow> u32 \<times> trace" where
  "config_read hw bus slot func offset t =
     inl hw 0xCFC (t @ [Outl 0xCF8 (config_address bus slot func (offset AND 0xfc))])"

definition pci_config_read_byte :: "hw \<Rightarrow> u8 \<Rightarrow> u8 \<Rightarrow> u8 \<Rightarrow> u8 \<Rightarrow> trace \<Rightarrow> u8 \<times> trace" where
  "pci_config_read_byte hw bus slot func offset t =
     (let (v, t1) = config_read hw bus slot func offset t
      in (ucast (drop_bit (unat (offset AND 3) * 8) v AND 0xff), t1))"

definition pci_config_read_word :: "hw \<Rightarrow> u8 \<Rightarrow> u8 \<Rightarrow> u8 \<Rightarrow> u8 \<Rightarrow> trace \<Rightarrow> u16 \<times> trace" where
  "pci_config_read_word hw bus slot func offset t =
     (let (v, t1) = config_read hw bus slot func offset t
      in (ucast (drop_bit (unat (offset AND 2) * 8) v AND 0xffff), t1))"

definition pci_config_read_dword :: "hw \<Rightarrow> u8 \<Rightarrow> u8 \<Rightarrow> u8 \<Rightarrow> u8 \<Rightarrow> trace \<Rightarrow> u32 \<times> trace" where
  "pci_config_read_dword hw bus slot func offset t = config_read hw bus slot func offset t"

definition pci_config_write_dword :: "u8 \<Rightarrow> u8 \<Rightarrow> u8 \<Rightarrow> u8 \<Rightarrow> u32 \<Rightarrow> trace \<Rightarrow> trace" where
  "pci_config_write_dword bus slot func offset val t =
     t @ [Outl 0xCF8 (config_address bus slot func (offset AND 0xfc)), Outl 0xCFC val]"

text \<open>The word access keeps bit 1 of the offset in the address as well.\<close>

definition pci_config_write_word :: "u8 \<Rightarrow> u8 \<Rightarrow> u8 \<Rightarrow> u8 \<Rightarrow> u16 \<Rightarrow> trace \<Rightarrow> trace" where
  "pci_config_write_word bus slot func offset val t =
     t @ [Outl 0xCF8 (config_address bus slot func (offset AND 0xfe)), Outs (0xCFC + ucast (offset AND 2)) val]"

definition pci_dev_read_config_byte :: "hw \<Rightarrow> u8 \<Rightarrow> pci_dev \<Rightarrow> u8 \<Rightarrow> trace \<Rightarrow> u8 \<times> trace" where
  "pci_dev_read_config_byte hw bus d offset t =
     (let (tmp, t1) = pci_config_read_byte hw bus (dev_no d) (dev_func d) offset t in (tmp AND 0xff, t1))"

definition pci_dev_read_config_word :: "hw \<Rightarrow> u8 \<Rightarrow> pci_dev \<Rightarrow> u8 \<Rightarrow> trace \<Rightarrow> u16 \<times> trace" where
  "pci_dev_read_config_word hw bus d offset t = pci_config_read_word hw bus (dev_no d) (dev_func d) offset t"

definition pci_dev_read_config_dword :: "hw \<Rightarrow> u8 \<Rightarrow> pci_dev \<Rightarrow> u8 \<Rightarrow> trace \<Rightarrow> u32 \<times> trace" where
  "pci_dev_read_config_dword hw bus d offset t = pci_config_read_dword hw bus (dev_no d) (dev_func d) offset t"

definition pci_dev_write_config_word :: "u8 \<Rightarrow> pci_dev \<Rightarrow> u8 \<Rightarrow> u16 \<Rightarrow> trace \<Rightarrow> trace" where
  "pci_dev_write_config_word bus d offset val t = pci_config_write_word bus (dev_no d) (dev_func d) offset val t"

definition pci_get_status :: "hw \<Rightarrow> u8 \<Rightarrow> pci_dev \<Rightarrow> trace \<Rightarrow> u16 \<times> trace" where
  "pci_get_status hw bus d t = pci_dev_read_config_word hw bus d 0x06 t"

section \<open>Capabilities\<close>

definition pci_find_cap_start :: "hw \<Rightarrow> u8 \<Rightarrow> u8 \<Rightarrow> u8 \<Rightarrow> trace \<Rightarrow> i32 \<times> trace" where
  "pci_find_cap_start hw bus device function t =
     (let (status, t1) = pci_config_read_word hw bus device function 0x06 t
      in if status AND 0x10 = 0 then (0, t1) else (0x34, t1))"

text \<open>The loop of pci_find_cap_next_ttl; the position passed to the accessor is truncated to 8 bits.\<close>

primrec cap_ttl_loop :: "hw \<Rightarrow> u8 \<Rightarrow> u8 \<Rightarrow> u8 \<Rightarrow> u8 \<Rightarrow> nat \<Rightarrow> i32 \<Rightarrow> trace \<Rightarrow> i32 \<times> trace" where
  "cap_ttl_loop hw bus device function cap 0 pos t = (0, t)"
| "cap_ttl_loop hw bus device function cap (Suc ttl) pos t =
     (if sint pos < 0x40 then (0, t)
      else
        let pos1 = pos AND NOT 3;
            (ent, t1) = pci_config_read_word hw bus device function (ucast pos1) t;
            id' = ucast (ent AND 0xff) :: u8
        in if id' = 0xff then (0, t1)
           else if id' = cap then (pos1, t1)
           else cap_ttl_loop hw bus device function cap ttl (ucast (drop_bit 8 ent)) t1)"

definition pci_find_cap_next_ttl ::
    "hw \<Rightarrow> u8 \<Rightarrow> u8 \<Rightarrow> u8 \<Rightarrow> i32 \<Rightarrow> u8 \<Rightarrow> nat \<Rightarrow> trace \<Rightarrow> i32 \<times> trace" where
  "pci_find_cap_next_ttl hw bus device function pos cap ttl t =
     (let (first, t1) = pci_config_read_byte hw bus device function (ucast pos) t
      in cap_ttl_loop hw bus device function cap ttl (ucast first) t1)"

definition PCI_FIND_CAP_TTL :: nat where
  "PCI_FIND_CAP_TTL = 48"

definition pci_find_cap_next :: "hw \<Rightarrow> u8 \<Rightarrow> u8 \<Rightarrow> u8 \<Rightarrow> i32 \<Rightarrow> u8 \<Rightarrow> trace \<Rightarrow> i32 \<times> trace" where
  "pci_find_cap_next hw bus device function pos cap t =
     pci_find_cap_next_ttl hw bus device function pos cap PCI_FIND_CAP_TTL t"

definition pci_dev_find_capability :: "hw \<Rightarrow> u8 \<Rightarrow> pci_dev \<Rightarrow> u8 \<Rightarrow> trace \<Rightarrow> i32 \<times> trace" where
  "pci_dev_find_capability hw bus d cap t =
     (let (pos, t1) = pci_find_cap_start hw bus (dev_no d) (dev_func d) t
      in if pos \<noteq> 0 then pci_find_cap_next hw bus (dev_no d) (dev_func d) pos cap t1 else (pos, t1))"

text \<open>The first I/O resource with a base.\<close>

definition pci_dev_get_iobase :: "pci_dev \<Rightarrow> u32" where
  "pci_dev_get_iobase d =
     (case find (\<lambda>i. res_type (resources d i) = RESOURCE_IO \<and> pci_resource_get_base d i \<noteq> 0) [0..<6] of
        Some i \<Rightarrow> pci_resource_get_base d i | None \<Rightarrow> 0)"

section \<open>The capability list of a device\<close>

text \<open>A device whose configuration space does not change: cfg gives its registers.\<close>

definition answers :: "hw \<Rightarrow> u8 \<Rightarrow> u8 \<Rightarrow> u8 \<Rightarrow> (u8 \<Rightarrow> u32) \<Rightarrow> bool" where
  "answers hw bus slot func cfg \<longleftrightarrow>
     (\<forall>t reg. port_in hw (t @ [Outl 0xCF8 (config_address bus slot func (reg AND 0xfc))]) 0xCFC = cfg (reg AND 0xfc))"

definition config_byte :: "(u8 \<Rightarrow> u32) \<Rightarrow> u8 \<Rightarrow> u8" where
  "config_byte cfg off = ucast (drop_bit (8 * unat (off AND 3)) (cfg (off AND 0xfc)))"

text \<open>The offsets of the capabilities from p on, at most n of them.\<close>

primrec capability_list :: "(u8 \<Rightarrow> u8) \<Rightarrow> nat \<Rightarrow> u8 \<Rightarrow> u8 list" where
  "capability_list b 0 p = []"
| "capability_list b (Suc n) p =
     (if p < 0x40 \<or> b (p AND NOT 3) = 0xff then []
      else (p AND NOT 3) # capability_list b n (b ((p AND NOT 3) + 1)))"

lemma config_reads:
  assumes "answers hw bus slot func cfg"
  shows "config_read hw bus slot func off t = (cfg (off AND 0xfc),
      t @ [Outl 0xCF8 (config_address bus slot func (off AND 0xfc)), io_event.Inl 0xCFC (cfg (off AND 0xfc))])"
    and "fst (pci_config_read_byte hw bus slot func off t) = config_byte cfg off"
proof -
  show read: "config_read hw bus slot func off t = (cfg (off AND 0xfc),
      t @ [Outl 0xCF8 (config_address bus slot func (off AND 0xfc)), io_event.Inl 0xCFC (cfg (off AND 0xfc))])"
    using assms by (simp add: config_read_def inl_def answers_def Let_def)
  show "fst (pci_config_read_byte hw bus slot func off t) = config_byte cfg off"
    by (simp add: pci_config_read_byte_def read config_byte_def mult.commute)
qed

lemma aligned_offset:
  assumes "(p::u8) AND 3 = 0"
  shows "p AND 2 = 0" and "p AND 0xfc = p" and "(p + 1) AND 3 = 1" and "(p + 1) AND 0xfc = p"
proof -
  have m: "(3::u8) = mask 2" "(0xfc::u8) = NOT (mask 2)" "(2::u8) = mask 2 AND NOT (mask 1)"
    by (simp_all add: mask_eq_exp_minus_1)
  have low: "\<not> bit p n" if "n < 2" for n
  proof -
    have "bit (p AND 3) n = bit p n" using that unfolding m by (simp add: bit_simps)
    then show ?thesis by (simp add: assms)
  qed
  have "p AND 1 = 0" using low [of 0] by (simp add: and_one_eq bit_0 even_iff_mod_2_eq_zero)
  then have plus: "p + 1 = p OR 1" by (rule disjunctive_add_eq_or)
  have one: "bit (1::u8) n \<longleftrightarrow> n = 0" for n by (simp add: bit_1_iff)
  show "p AND 2 = 0" unfolding m using low by (auto intro!: bit_word_eqI simp: bit_simps)
  show "p AND 0xfc = p" unfolding m using low by (auto intro!: bit_word_eqI simp: bit_simps)
  show "(p + 1) AND 3 = 1" unfolding plus m using low by (auto intro!: bit_word_eqI simp: bit_simps)
  show "(p + 1) AND 0xfc = p" unfolding plus m using low by (auto intro!: bit_word_eqI simp: bit_simps)
qed

lemma capability_word:
  assumes "answers hw bus slot func cfg" and "p AND 3 = 0"
  obtains ent where "pci_config_read_word hw bus slot func p t = (ent, snd (config_read hw bus slot func p t))"
    and "ucast ent = config_byte cfg p" and "ucast (drop_bit 8 ent) = config_byte cfg (p + 1)"
proof
  let ?ent = "ucast (cfg p) :: u16"
  show "pci_config_read_word hw bus slot func p t = (?ent, snd (config_read hw bus slot func p t))"
    by (simp add: pci_config_read_word_def config_reads(1) [OF assms(1)] aligned_offset [OF assms(2)])
  show "ucast ?ent = config_byte cfg p"
    unfolding config_byte_def aligned_offset(2) [OF assms(2)] assms(2)
    by (rule bit_word_eqI) (simp add: bit_simps)
  show "ucast (drop_bit 8 ?ent) = config_byte cfg (p + 1)"
    unfolding config_byte_def aligned_offset(3,4) [OF assms(2)]
    by (rule bit_word_eqI) (auto simp: bit_simps)
qed

text \<open>The reads leave the device alone: they only select a register and read it.\<close>

definition only_reads :: "trace \<Rightarrow> bool" where
  "only_reads t \<longleftrightarrow> list_all (\<lambda>e. case e of Outl port a \<Rightarrow> port = 0xCF8 | io_event.Inl port v \<Rightarrow> port = 0xCFC | _ \<Rightarrow> False) t"

lemma only_reads_simps [simp]:
  "only_reads []"
  "only_reads (t @ u) \<longleftrightarrow> only_reads t \<and> only_reads u"
  "only_reads (Outl port a # t) \<longleftrightarrow> port = 0xCF8 \<and> only_reads t"
  "only_reads (io_event.Inl port v # t) \<longleftrightarrow> port = 0xCFC \<and> only_reads t"
  by (auto simp: only_reads_def)

lemma config_read_trace:
  obtains u where "snd (config_read hw bus slot func off t) = t @ u" and "only_reads u" and "length u = 2"
  by (simp add: config_read_def inl_def Let_def)

lemma position:
  "sint (ucast (p::u8) :: i32) < 0x40 \<longleftrightarrow> p < 0x40"
  "(ucast p :: i32) AND NOT 3 = ucast (p AND NOT 3)" "(p AND NOT 3) AND 3 = 0"
  "(ucast (ucast (p AND NOT 3) :: i32) :: u8) = p AND NOT 3"
proof -
  have "unat p < 256" using unsigned_less [of p, where 'a = nat] by simp
  then have "unat (ucast p :: i32) = unat p" by (simp add: unsigned_ucast_eq take_bit_nat_eq_self)
  then have "sint (ucast p :: i32) = int (unat p)"
    using \<open>unat p < 256\<close> by (subst sint_eq_unat) simp_all
  moreover have "unat (0x40::u8) = 64" by simp
  ultimately show "sint (ucast (p::u8) :: i32) < 0x40 \<longleftrightarrow> p < 0x40"
    unfolding word_less_nat_alt by (intro iffI; linarith)
  have m: "(3::u8) = mask 2" "(3::i32) = mask 2" by (simp_all add: mask_eq_exp_minus_1)
  show "(ucast p :: i32) AND NOT 3 = ucast (p AND NOT 3)"
    unfolding m by (rule bit_word_eqI) (auto simp: bit_simps dest: bit_imp_le_length)
  show "(p AND NOT 3) AND 3 = 0"
    unfolding m by (rule bit_word_eqI) (auto simp: bit_simps dest: bit_imp_le_length)
  show "(ucast (ucast (p AND NOT 3) :: i32) :: u8) = p AND NOT 3"
    by (rule bit_word_eqI) (auto simp: bit_simps dest: bit_imp_le_length)
qed

lemma cap_ttl_loop_spec:
  assumes "answers hw bus slot func cfg"
  shows "\<exists>u. cap_ttl_loop hw bus slot func cap ttl (ucast p) t =
      (case find (\<lambda>q. config_byte cfg q = cap) (capability_list (config_byte cfg) ttl p) of
         None \<Rightarrow> 0 | Some q \<Rightarrow> ucast q, t @ u) \<and> only_reads u \<and> length u \<le> 2 * ttl"
proof (induction ttl arbitrary: p t)
  case (Suc ttl)
  let ?q = "p AND NOT 3"
  obtain ent where ent: "pci_config_read_word hw bus slot func ?q t = (ent, snd (config_read hw bus slot func ?q t))"
      "ucast ent = config_byte cfg ?q" "ucast (drop_bit 8 ent) = config_byte cfg (?q + 1)"
    by (rule capability_word [OF assms position(3)])
  have next': "(ucast (drop_bit 8 ent) :: i32) = ucast (config_byte cfg (?q + 1))"
    unfolding ent(3) [symmetric] by (rule bit_word_eqI) (auto simp: bit_simps dest: bit_imp_le_length)
  obtain u where u: "snd (config_read hw bus slot func ?q t) = t @ u" "only_reads u" "length u = 2"
    by (rule config_read_trace)
  obtain v where v: "cap_ttl_loop hw bus slot func cap ttl (ucast (config_byte cfg (?q + 1))) (t @ u) =
      (case find (\<lambda>q. config_byte cfg q = cap) (capability_list (config_byte cfg) ttl (config_byte cfg (?q + 1))) of
         None \<Rightarrow> 0 | Some q \<Rightarrow> ucast q, (t @ u) @ v)" "only_reads v" "length v \<le> 2 * ttl"
    using Suc.IH by blast
  show ?case
    unfolding cap_ttl_loop.simps capability_list.simps position(1,2,4) Let_def ent(1) split_conv ucast_low_bytes
      ent(2) u(1) next'
    using u v by (cases "p < 0x40"; cases "config_byte cfg ?q = 0xff"; cases "config_byte cfg ?q = cap") simp_all
qed simp

text \<open>
  C27: Searching a device for a capability. On a device whose configuration registers do not change,
  pci_dev_find_capability returns the offset of the first entry with the requested id among the
  (at most 48) entries of the capability list that starts at offset 0x34, ending at a pointer below
  0x40 or an entry of id 0xff, and 0 when there is none or when the status register has no
  capabilities bit; on the way it only reads, at most 50 registers, so a cyclic list cannot hang it.
\<close>
theorem find_capability_spec:
  assumes "answers hw bus (dev_no d) (dev_func d) cfg"
  shows "\<exists>u. pci_dev_find_capability hw bus d cap t =
      (if \<not> bit (config_byte cfg 6) 4 then 0
       else case find (\<lambda>q. config_byte cfg q = cap) (capability_list (config_byte cfg) 48 (config_byte cfg 0x34)) of
         None \<Rightarrow> 0 | Some q \<Rightarrow> ucast q, t @ u) \<and> only_reads u \<and> length u \<le> 2 * 50"
proof -
  note reads = config_reads [OF assms]
  have status: "pci_config_read_word hw bus (dev_no d) (dev_func d) 6 t =
      (ucast (drop_bit 16 (cfg 4)), snd (config_read hw bus (dev_no d) (dev_func d) 6 t))"
    by (simp add: pci_config_read_word_def reads(1))
  have "(ucast (drop_bit 16 (cfg 4)) :: u16) AND 16 = 0 \<longleftrightarrow> \<not> bit (config_byte cfg 6) 4"
    using bit_iff_and_push_bit_not_eq_0 [of "ucast (drop_bit 16 (cfg 4)) :: u16" 4]
    by (simp add: config_byte_def bit_simps)
  moreover
  let ?t1 = "snd (config_read hw bus (dev_no d) (dev_func d) 6 t)"
  obtain u where u: "?t1 = t @ u" "only_reads u" "length u = 2" by (rule config_read_trace)
  moreover
  obtain v where v: "snd (config_read hw bus (dev_no d) (dev_func d) 0x34 ?t1) = ?t1 @ v" "only_reads v" "length v = 2"
    by (rule config_read_trace)
  obtain w where w: "cap_ttl_loop hw bus (dev_no d) (dev_func d) cap 48 (ucast (config_byte cfg 0x34)) (?t1 @ v) =
      (case find (\<lambda>q. config_byte cfg q = cap) (capability_list (config_byte cfg) 48 (config_byte cfg 0x34)) of
         None \<Rightarrow> 0 | Some q \<Rightarrow> ucast q, (?t1 @ v) @ w)" "only_reads w" "length w \<le> 2 * 48"
    using cap_ttl_loop_spec [OF assms] by blast
  have first: "pci_config_read_byte hw bus (dev_no d) (dev_func d) 0x34 ?t1 = (config_byte cfg 0x34, ?t1 @ v)"
    using reads(2) [of "0x34" ?t1] v(1) by (simp add: pci_config_read_byte_def case_prod_beta Let_def)
  have "pci_find_cap_next_ttl hw bus (dev_no d) (dev_func d) 0x34 cap 48 ?t1 =
      cap_ttl_loop hw bus (dev_no d) (dev_func d) cap 48 (ucast (config_byte cfg 0x34)) (?t1 @ v)"
    by (simp add: pci_find_cap_next_ttl_def first)
  ultimately show ?thesis
    using v(2,3) w
    by (cases "bit (config_byte cfg 6) 4")
      (simp_all add: pci_dev_find_capability_def pci_find_cap_start_def status pci_find_cap_next_def PCI_FIND_CAP_TTL_def)
qed

text \<open>A machine with one device, whose registers are a function of the offset.\<close>

definition device_hw :: "(u8 \<Rightarrow> u32) \<Rightarrow> hw" where
  "device_hw cfg = \<lparr>port_in = (\<lambda>t port. case last t of Outl p a \<Rightarrow> cfg (ucast a) | _ \<Rightarrow> 0), mmio_in = (\<lambda>_ _. 0)\<rparr>"

lemma config_address_reg: "(ucast (config_address bus slot func reg) :: u8) = reg"
proof (rule bit_word_eqI)
  fix n :: nat assume n: "n < LENGTH(8)"
  have "\<not> bit (0x80000000 :: u32) n" using n bit_push_bit_iff [of 31 "1 :: u32" n] by (simp add: bit_1_iff)
  then show "bit (ucast (config_address bus slot func reg) :: u8) n = bit reg n"
    using n by (auto simp: config_address_def bit_simps)
qed

lemma device_answers: "answers (device_hw cfg) bus slot func cfg"
  by (simp add: answers_def device_hw_def config_address_reg)

definition cap_registers :: "u8 \<Rightarrow> u32" where
  "cap_registers r = (if r = 0x04 then 0x00100007 else if r = 0x34 then 0x40
     else if r = 0x40 then 0x5005 else if r = 0x50 then 0x80010011 else 0)"

definition some_device :: pci_dev where
  "some_device = \<lparr>dev_addr = 0x1000, dev_no = 3, dev_func = 0, vendor_id = 0x1AF4, device_id = 0x1003,
     subsystem_id = 3, base_class = 7, sub_class = 0x80, revision = 0, header_type = 0, capabilities = 0x40,
     has_msix = False, should_use_msix = False, dev_irq = 0, BAR = (\<lambda>_. 0),
     resources = (\<lambda>_. \<lparr>res_type = 0, res_start = 0, res_end = 0\<rparr>),
     dev_msix = \<lparr>enabled = 0, function_mask = 0, cap_base = 0, max_entries = 0, allocated_entries = 0,
       table_addr = 0, pba_addr = 0, per_vector_masking = False, big_addr = False\<rparr>, dev_driver = 0\<rparr>"

theorem find_capability_spec_witness:
  "fst (pci_dev_find_capability (device_hw cap_registers) 0 some_device 0x11 []) = 0x50 \<and>
   fst (pci_dev_find_capability (device_hw cap_registers) 0 some_device 0x07 []) = 0"
proof -
  let ?b = "config_byte cap_registers"
  have regs: "?b 6 = 0x10" "?b 0x34 = 0x40" "?b 0x40 = 0x05" "?b 0x41 = 0x50" "?b 0x50 = 0x11" "?b 0x51 = 0"
    by (simp_all add: config_byte_def cap_registers_def)
  have "capability_list ?b 48 0x40 = [0x40, 0x50]"
  proof -
    have "(48::nat) = Suc (Suc (Suc 45))" by simp
    then show ?thesis by (simp only: capability_list.simps) (simp add: regs)
  qed
  then show ?thesis
    using find_capability_spec [of "device_hw cap_registers" 0 some_device, OF device_answers, of "0x11" "[]"]
      find_capability_spec [of "device_hw cap_registers" 0 some_device, OF device_answers, of "0x07" "[]"]
    by (auto simp: regs)
qed

end
