(* ===== verification/Pci_Msi.thy ===== *)
theory Pci_Msi
  imports Pci_Config
begin

text \<open>
  The MSI-X table of a device (kernel/drivers/pci/pci_msi.c): entries of 16 bytes in the device's
  memory, message address at 0, upper address at 4, data at 8, control at 12.
\<close>

definition msi_mm_read :: "hw \<Rightarrow> addr \<Rightarrow> trace \<Rightarrow> u32 \<times> trace" where
  "msi_mm_read hw reg t = mmio_read hw reg t"

definition msi_mm_write :: "addr \<Rightarrow> u32 \<Rightarrow> trace \<Rightarrow> trace" where
  "msi_mm_write reg val t = t @ [Mmio_write reg val]"

definition msi_get_table_reg :: "msix \<Rightarrow> u32 \<Rightarrow> u32 \<Rightarrow> addr" where
  "msi_get_table_reg x vec offset = table_addr x + vec * 16 + offset"

definition msix_mask_vector :: "hw \<Rightarrow> msix \<Rightarrow> u32 \<Rightarrow> trace \<Rightarrow> trace" where
  "msix_mask_vector hw x vec t =
     (let reg = msi_get_table_reg x vec 12; (ctrl, t1) = msi_mm_read hw reg t
      in msi_mm_write reg (ctrl OR 0x1) t1)"

definition msix_unmask_vector :: "hw \<Rightarrow> msix \<Rightarrow> u32 \<Rightarrow> trace \<Rightarrow> trace" where
  "msix_unmask_vector hw x vec t =
     (let reg = msi_get_table_reg x vec 12; (ctrl, t1) = msi_mm_read hw reg t
      in msi_mm_write reg (ctrl AND NOT 0x1) t1)"

definition msix_addr_1_cpu :: "u32 \<Rightarrow> u32" where
  "msix_addr_1_cpu cpu = 0xfee00000 OR push_bit 12 cpu OR push_bit 3 1 OR push_bit 2 0"

definition msix_msg_data_vector :: "u32 \<Rightarrow> u32" where
  "msix_msg_data_vector intr = push_bit 15 0 OR push_bit 8 0 OR intr"

definition msi_redirect_vector :: "hw \<Rightarrow> msix \<Rightarrow> u32 \<Rightarrow> u32 \<Rightarrow> u32 \<Rightarrow> trace \<Rightarrow> trace" where
  "msi_redirect_vector hw x vec cpu intr t =
     (let t1 = msix_mask_vector hw x vec t;
          t2 = msi_mm_write (msi_get_table_reg x vec 0) (msix_addr_1_cpu cpu) t1;
          t3 = msi_mm_write (msi_get_table_reg x vec 4) 0 t2;
          t4 = msi_mm_write (msi_get_table_reg x vec 8) (msix_msg_data_vector intr) t3
      in msix_unmask_vector hw x vec t4)"

text \<open>The search for an entry without a vector; the counter has 16 bits.\<close>

partial_function (option) msi_free_vector :: "hw \<Rightarrow> msix \<Rightarrow> u16 \<Rightarrow> trace \<Rightarrow> (u16 \<times> trace) option" where
  "msi_free_vector hw x vec t =
     (if ucast vec < max_entries x then
        let (v, t1) = msi_mm_read hw (msi_get_table_reg x (ucast vec) 8) t
        in if v AND 0xff = 0 then Some (vec, t1) else msi_free_vector hw x (vec + 1) t1
      else Some (vec, t))"

definition msi_set_vector :: "hw \<Rightarrow> msix \<Rightarrow> u32 \<Rightarrow> u32 \<Rightarrow> trace \<Rightarrow> trace run" where
  "msi_set_vector hw x cpu intr t =
     run_bind (lift_run (msi_free_vector hw x 0 t)) (\<lambda>(vec, t1).
       if ucast vec = max_entries x then Ret t1
       else Ret (msi_redirect_vector hw x (ucast vec) cpu intr t1))"

end
