(* ===== verification/Pci.thy ===== *)
theory Pci
  imports Pci_Msi Paging Slab_System Descriptors
begin

text \<open>
  Enumeration of the PCI bus and the selection of drivers (kernel/drivers/pci/pci.c), with the lists
  of kernel/drivers/device/device_bus.c. A list of devices linked through their self nodes is the
  list of the device records in order (the theory Libc_List shows that dlist_insert_tail appends).
  The callbacks of a driver are functions on the state of the kernel.
\<close>

section \<open>State\<close>

datatype pci_bus = Pci_bus (bus_number: u8) (bus_devices: "pci_dev list") (bus_children: "pci_bus list")

text \<open>
  bus_device_nodes and bus_driver_nodes are the devices and drivers of the device_bus structure of
  the PCI bus, by the addresses of their device and device_driver structures; driver_data is what the
  drivers keep for the devices they have accepted, which the bus does not touch.
\<close>

record 'd pci_world =
  heap :: slabs
  wtrace :: trace
  widt :: idts
  global_bus :: pci_bus
  bus_device_nodes :: "addr list"
  bus_driver_nodes :: "addr list"
  driver_data :: 'd

text \<open>
  What the code takes from its surroundings: the count of leading zeros of the CPU, the devices, the
  page directory, the addresses of adv_irq_common_stub and pci_irq_handler, and where the frame of
  check_device lies.
\<close>

record pci_env =
  env_lz :: "u32 \<Rightarrow> u32"
  env_hw :: hw
  env_pd :: addr
  env_stub :: addr
  env_irq_handler :: addr
  env_frame :: addr

record pci_id =
  pi_vendor :: u16
  pi_device :: u16
  pi_subsystem :: u16
  pi_class :: u8
  pi_sub_class :: u8
  pi_revision :: u8

text \<open>A driver's init returns a structure of its own, which takes over the device, or NULL.\<close>

record 'd pci_driver =
  drv_addr :: addr
  id_list :: "pci_id list"
  drv_match :: "pci_dev \<Rightarrow> 'd pci_world \<Rightarrow> (bool \<times> 'd pci_world) run"
  drv_init :: "pci_dev \<Rightarrow> 'd pci_world \<Rightarrow> (pci_dev option \<times> 'd pci_world) run"
  drv_probe :: "pci_dev \<Rightarrow> 'd pci_world \<Rightarrow> (bool \<times> pci_dev \<times> 'd pci_world) run"
  drv_setup :: "pci_dev \<Rightarrow> 'd pci_world \<Rightarrow> (bool \<times> pci_dev \<times> 'd pci_world) run"
  drv_remove :: "pci_dev \<Rightarrow> 'd pci_world \<Rightarrow> 'd pci_world run"
  drv_ievent :: "(pci_dev \<Rightarrow> 'd pci_world \<Rightarrow> 'd pci_world run) option"

definition on_trace :: "(trace \<Rightarrow> 'a \<times> trace) \<Rightarrow> 'd pci_world \<Rightarrow> 'a \<times> 'd pci_world" where
  "on_trace f w = (let (v, t) = f (wtrace w) in (v, w\<lparr>wtrace := t\<rparr>))"

section \<open>Buses and registration\<close>

definition pci_append_bus :: "pci_bus \<Rightarrow> pci_bus \<Rightarrow> pci_bus" where
  "pci_append_bus node parent =
     Pci_bus (bus_number parent) (bus_devices parent) (bus_children parent @ [node])"

definition bus_register_driver :: "addr \<Rightarrow> 'd pci_world \<Rightarrow> 'd pci_world" where
  "bus_register_driver node w = w\<lparr>bus_driver_nodes := bus_driver_nodes w @ [node]\<rparr>"

definition bus_register_device :: "addr \<Rightarrow> 'd pci_world \<Rightarrow> 'd pci_world" where
  "bus_register_device node w = w\<lparr>bus_device_nodes := bus_device_nodes w @ [node]\<rparr>"

text \<open>The device structure lies at offset 156 of struct pci_dev, the device_driver at 0 of pci_driver.\<close>

definition pci_register_device :: "pci_dev \<Rightarrow> 'd pci_world \<Rightarrow> 'd pci_world" where
  "pci_register_device d w =
     (let w1 = bus_register_device (dev_addr d + 156) w; b = global_bus w1
      in w1\<lparr>global_bus := Pci_bus (bus_number b) (bus_devices b @ [d]) (bus_children b)\<rparr>)"

definition pci_register_driver :: "'d pci_driver \<Rightarrow> 'd pci_driver list \<times> 'd pci_world \<Rightarrow> 'd pci_driver list \<times> 'd pci_world" where
  "pci_register_driver drv = (\<lambda>(drivers, w). (drivers @ [drv], bus_register_driver (drv_addr drv) w))"

text \<open>register_bus stands for register_device_bus, whose definition in device_bus.c does not fit its use.\<close>

definition pci_init :: "(u32 \<Rightarrow> u32) \<Rightarrow> ('d pci_world \<Rightarrow> 'd pci_world run) \<Rightarrow> 'd pci_world \<Rightarrow> 'd pci_world run" where
  "pci_init lz register_bus w =
     run_bind (kzmalloc lz 36 (heap w)) (\<lambda>(h, a).
       if a = NULL then Trap Null_deref
       else register_bus (w\<lparr>heap := h, global_bus := Pci_bus 0 [] []\<rparr>))"

section \<open>Matching drivers\<close>

text \<open>
  The id list ends with an entry whose vendor, device and subsystem are 0; without one the search
  runs past the array.
\<close>

definition match_id :: "pci_id \<Rightarrow> pci_dev \<Rightarrow> bool" where
  "match_id it d =
     (if pi_vendor it \<noteq> 0xffff \<and> pi_vendor it \<noteq> vendor_id d then False
      else if pi_device it \<noteq> 0xffff \<and> pi_device it \<noteq> device_id d then False
      else if pi_subsystem it \<noteq> 0xffff \<and> pi_subsystem it \<noteq> subsystem_id d then False
      else if pi_class it \<noteq> 0xff \<and> pi_class it \<noteq> base_class d then False
      else if pi_sub_class it \<noteq> 0xff \<and> pi_sub_class it \<noteq> sub_class d then False
      else if pi_revision it \<noteq> 0xff \<and> pi_revision it \<noteq> revision d then False
      else True)"

primrec match_ids :: "pci_dev \<Rightarrow> pci_id list \<Rightarrow> bool run" where
  "match_ids d [] = Trap Out_of_bounds"
| "match_ids d (it # its) =
     (if pi_vendor it \<noteq> 0 \<or> pi_device it \<noteq> 0 \<or> pi_subsystem it \<noteq> 0
      then if match_id it d then Ret True else match_ids d its
      else Ret False)"

definition match_dri_dev :: "'d pci_driver \<Rightarrow> pci_dev \<Rightarrow> bool run" where
  "match_dri_dev drv d = match_ids d (id_list drv)"

text \<open>
  pci_find_driver continues behind the driver found last; the argument is the list of the drivers
  that are left, and the result the driver and those behind it.
\<close>

primrec pci_find_driver :: "'d pci_driver list \<Rightarrow> pci_dev \<Rightarrow> ('d pci_driver \<times> 'd pci_driver list) option run" where
  "pci_find_driver [] d = Ret None"
| "pci_find_driver (drv # rest) d =
     run_bind (match_dri_dev drv d) (\<lambda>found.
       if found then Ret (Some (drv, rest)) else pci_find_driver rest d)"

section \<open>Interrupts and MSI-X\<close>

text \<open>The driver a device points to is found by its address.\<close>

definition pci_irq_handler :: "'d pci_driver list \<Rightarrow> pci_dev \<Rightarrow> 'd pci_world \<Rightarrow> 'd pci_world run" where
  "pci_irq_handler drivers d w =
     (if dev_driver d = NULL then Ret w
      else case find (\<lambda>drv. drv_addr drv = dev_driver d) drivers of
          None \<Rightarrow> Trap Out_of_bounds
        | Some drv \<Rightarrow> (case drv_ievent drv of None \<Rightarrow> Ret w | Some f \<Rightarrow> f d w))"

definition setup_vector :: "pci_env \<Rightarrow> pci_dev \<Rightarrow> 'd pci_world \<Rightarrow> 'd pci_world run" where
  "setup_vector e d w =
     (let irq = get_next_irq (widt w);
          w1 = w\<lparr>widt := subscribe_irq (env_stub e) irq (env_irq_handler e) (dev_addr d) (widt w)\<rparr>
      in run_bind (msi_set_vector (env_hw e) (dev_msix d) 0 (of_nat irq) (wtrace w1)) (\<lambda>t. Ret (w1\<lparr>wtrace := t\<rparr>)))"

primrec setup_vectors :: "pci_env \<Rightarrow> pci_dev \<Rightarrow> nat \<Rightarrow> 'd pci_world \<Rightarrow> 'd pci_world run" where
  "setup_vectors e d 0 w = Ret w"
| "setup_vectors e d (Suc n) w = run_bind (setup_vector e d w) (setup_vectors e d n)"

definition pci_setup_msix :: "pci_env \<Rightarrow> pci_dev \<Rightarrow> 'd pci_world \<Rightarrow> 'd pci_world run" where
  "pci_setup_msix e d w = setup_vectors e d (unat (max_entries (dev_msix d))) w"

definition pci_dev_check_msix_capability :: "pci_env \<Rightarrow> pci_dev \<Rightarrow> 'd pci_world \<Rightarrow> bool \<times> pci_dev \<times> 'd pci_world" where
  "pci_dev_check_msix_capability e d w =
     (let (pos, w1) = on_trace (pci_dev_find_capability (env_hw e) (bus_number (global_bus w)) d 0x11) w
      in if pos = 0 then (False, d\<lparr>has_msix := False\<rparr>, w1)
         else (True, d\<lparr>has_msix := True, dev_msix := (dev_msix d)\<lparr>cap_base := pos\<rparr>\<rparr>, w1))"

text \<open>
  The count of entries is (mctrl && 0x7ff) + 1, that is 1 or 2. The structures table_offset and
  pba_offset name one of the six resources; a number above 5 reads past them.
\<close>

definition map_region :: "pci_env \<Rightarrow> addr \<Rightarrow> 'd pci_world \<Rightarrow> 'd pci_world run" where
  "map_region e a w =
     run_bind (mmap (env_lz e) (env_pd e) a 1 (smem (heap w))) (\<lambda>m. Ret (w\<lparr>heap := (heap w)\<lparr>smem := m\<rparr>\<rparr>))"

definition pci_dev_setup_msix :: "pci_env \<Rightarrow> pci_dev \<Rightarrow> 'd pci_world \<Rightarrow> (pci_dev \<times> 'd pci_world) run" where
  "pci_dev_setup_msix e d w =
     (let bus = bus_number (global_bus w); pos = ucast (cap_base (dev_msix d)) :: u8;
          (mctrl, w1) = on_trace (pci_dev_read_config_word (env_hw e) bus d (pos + 2)) w;
          entries = (if mctrl \<noteq> 0 then 1 else 0) + 1;
          (toff, w2) = on_trace (pci_dev_read_config_dword (env_hw e) bus d (pos + 4)) w1;
          (pbaoff, w3) = on_trace (pci_dev_read_config_dword (env_hw e) bus d (pos + 8)) w2;
          toff_bar = unat (toff AND 0x07); pbaoff_bar = unat (pbaoff AND 0x07)
      in if 6 \<le> toff_bar \<or> 6 \<le> pbaoff_bar then Trap Out_of_bounds
         else
           let x = (dev_msix d)\<lparr>allocated_entries := 0, max_entries := entries,
                 per_vector_masking := bit mctrl 8, big_addr := bit mctrl 7,
                 table_addr := pci_resource_get_base d toff_bar + (toff AND NOT 0x07),
                 pba_addr := pci_resource_get_base d pbaoff_bar + (pbaoff AND NOT 0x07),
                 enabled := 1, function_mask := (if bit mctrl 14 then 1 else 0)\<rparr>
           in run_bind (map_region e (table_addr x) w3) (\<lambda>w4.
                run_bind (map_region e (pba_addr x) w4) (\<lambda>w5.
                  let mctrl' = (mctrl AND NOT (push_bit 14 1)) OR push_bit 15 1
                  in Ret (d\<lparr>dev_msix := x\<rparr>,
                       w5\<lparr>wtrace := pci_dev_write_config_word bus d (pos + 2) mctrl' (wtrace w5)\<rparr>))))"

definition pci_msix_enable :: "pci_env \<Rightarrow> pci_dev \<Rightarrow> 'd pci_world \<Rightarrow> 'd pci_world" where
  "pci_msix_enable e d w =
     (let bus = bus_number (global_bus w); pos = ucast (cap_base (dev_msix d)) :: u8;
          (mctrl, w1) = on_trace (pci_dev_read_config_word (env_hw e) bus d (pos + 2)) w
      in w1\<lparr>wtrace := pci_dev_write_config_word bus d (pos + 2) (mctrl AND NOT (push_bit 14 1)) (wtrace w1)\<rparr>)"

section \<open>Setting up a device\<close>

definition driver_try_setup :: "pci_env \<Rightarrow> 'd pci_driver \<Rightarrow> pci_dev \<Rightarrow> 'd pci_world \<Rightarrow> (pci_dev option \<times> 'd pci_world) run" where
  "driver_try_setup e drv d w =
     run_bind (drv_match drv d w) (\<lambda>(matches, w1).
       if \<not> matches then Ret (None, w1)
       else run_bind (drv_init drv d w1) (\<lambda>(new_dev, w2).
         case new_dev of None \<Rightarrow> Ret (None, w2)
         | Some nd \<Rightarrow>
             run_bind (drv_probe drv (nd\<lparr>dev_driver := drv_addr drv\<rparr>) w2) (\<lambda>(probed, nd1, w3).
               if \<not> probed then run_bind (drv_remove drv nd1 w3) (\<lambda>w4. Ret (None, w4))
               else run_bind (if has_msix d \<and> enabled (dev_msix d) \<noteq> 0 then pci_setup_msix e nd1 w3 else Ret w3) (\<lambda>w4.
                 run_bind (drv_setup drv nd1 w4) (\<lambda>(ok, nd2, w5).
                   if \<not> ok then run_bind (drv_remove drv nd2 w5) (\<lambda>w6. Ret (None, w6))
                   else Ret (Some nd2, w5))))))"

lemma pci_find_driver_shorter:
  "pci_find_driver ds d = Ret (Some (drv, rest)) \<Longrightarrow> length rest < length ds"
  by (induction ds) (auto simp: run_bind_eq_Ret split: if_splits intro: less_SucI)

text \<open>The loop over the matching drivers, until one accepts the device.\<close>

function try_drivers :: "pci_env \<Rightarrow> 'd pci_driver list \<Rightarrow> pci_dev \<Rightarrow> 'd pci_world \<Rightarrow> (pci_dev option \<times> 'd pci_world) run" where
  "try_drivers e drivers d w =
     run_bind (pci_find_driver drivers d) (\<lambda>found.
       case found of None \<Rightarrow> Ret (None, w)
       | Some (drv, rest) \<Rightarrow>
           run_bind (driver_try_setup e drv d w) (\<lambda>(nd, w1).
             case nd of Some d' \<Rightarrow> Ret (Some d', w1) | None \<Rightarrow> try_drivers e rest d w1))"
  by pat_completeness auto
termination
  by (relation "measure (\<lambda>(e, drivers, d, w). length drivers)") (auto dest: pci_find_driver_shorter)

declare try_drivers.simps [simp del]

section \<open>Enumeration\<close>

definition pci_size :: "u32 \<Rightarrow> u32 \<Rightarrow> u32" where
  "pci_size base m = (let size' = base AND m in size' AND NOT (size' - 1))"

definition BASE_ADDRESS_MEM_MASK :: u32 where "BASE_ADDRESS_MEM_MASK = NOT 0x0F"
definition BASE_ADDRESS_IO_MASK :: u32 where "BASE_ADDRESS_IO_MASK = NOT 0x03"

text \<open>
  One base address register. The size is read back at the offset given by the value of the register,
  truncated to 8 bits, not at the register's own offset.
\<close>

definition read_bar :: "hw \<Rightarrow> u8 \<Rightarrow> u8 \<Rightarrow> u8 \<Rightarrow> nat \<Rightarrow> pci_dev \<times> trace \<Rightarrow> pci_dev \<times> trace" where
  "read_bar hw bus device function i = (\<lambda>(d, t).
     let (bar, t1) = pci_config_read_dword hw bus device function (0x10 + of_nat i * 4) t;
         d1 = d\<lparr>BAR := (BAR d)(i := bar)\<rparr>
     in if bar = 0 then (d1, t1)
        else
          let t2 = pci_config_write_dword bus device function (ucast bar) 0xffffffff t1;
              (len, t3) = pci_config_read_dword hw bus device function (ucast bar) t2;
              r = (if bit bar 0 then
                     let base = bar AND BASE_ADDRESS_IO_MASK
                     in \<lparr>res_type = RESOURCE_IO, res_start = base,
                         res_end = base + pci_size len (BASE_ADDRESS_IO_MASK AND 0xffff)\<rparr>
                   else
                     let base = bar AND BASE_ADDRESS_MEM_MASK
                     in \<lparr>res_type = RESOURCE_MEM, res_start = base,
                         res_end = base + pci_size len BASE_ADDRESS_MEM_MASK\<rparr>)
          in (d1\<lparr>resources := (resources d1)(i := r)\<rparr>, t3))"

text \<open>
  The identification of the device and the command register, whose value is truncated to 8 bits
  before it is written back.
\<close>

definition read_header :: "hw \<Rightarrow> u8 \<Rightarrow> u8 \<Rightarrow> u8 \<Rightarrow> pci_dev \<Rightarrow> trace \<Rightarrow> pci_dev \<times> trace" where
  "read_header hw bus device function ldev t =
     (let (lclass, t1) = pci_config_read_word hw bus device function 0x0a t;
          base = ucast (drop_bit 8 lclass AND 0x00ff) :: u8; sub = ucast (lclass AND 0x00ff) :: u8;
          (vendor, t2) = pci_config_read_word hw bus device function 0x00 t1;
          (device', t3) = pci_config_read_word hw bus device function 0x02 t2;
          (subsystem, t4) = pci_config_read_word hw bus device function 0x2e t3;
          (cap, t5) = pci_config_read_word hw bus device function 0x34 t4;
          (rev, t6) = pci_config_read_word hw bus device function 0x08 t5;
          (cmd0, t7) = pci_config_read_dword hw bus device function 0x04 t6;
          cmd = (ucast cmd0 :: u8) OR (0x04 OR 0x02 OR 0x01);
          t8 = pci_config_write_dword bus device function 0x04 (ucast cmd) t7;
          (cmd1, t9) = pci_config_read_dword hw bus device function 0x04 t8
      in (ldev\<lparr>dev_no := device, dev_func := function, vendor_id := vendor, device_id := device',
            base_class := base, sub_class := sub, subsystem_id := subsystem,
            revision := ucast (rev AND 0x00ff), capabilities := ucast (cap AND 0x00ff)\<rparr>,
          t9 @ [Printk ''cmd PCI %p\<newline>'' [ucast (ucast cmd1 :: u8)],
                Printk ''   Vendor id 0x%04x\<newline>'' [ucast vendor],
                Printk ''   Device id 0x%04x\<newline>'' [ucast device'],
                Printk ''   Class base 0x%0x\<newline>   class sub 0x%0x\<newline>'' [ucast base, ucast sub],
                Printk ''   Revision 0x%0x\<newline>'' [ucast (ucast rev :: u8)]]))"

text \<open>A device without a driver is copied to the heap (struct pci_dev has 176 bytes).\<close>

definition check_function ::
    "pci_env \<Rightarrow> 'd pci_driver list \<Rightarrow> u8 \<Rightarrow> u8 \<Rightarrow> u8 \<Rightarrow> pci_dev \<Rightarrow> 'd pci_world \<Rightarrow> (pci_dev \<times> 'd pci_world) run" where
  "check_function e drivers bus device function ldev w =
     (let (d1, w1) = on_trace (\<lambda>t. fold (read_bar (env_hw e) bus device function) [0..<6]
            (read_header (env_hw e) bus device function ldev t)) w;
          (msix_cap, d2, w2) = pci_dev_check_msix_capability e d1 w1
      in run_bind (if msix_cap then pci_dev_setup_msix e d2 w2 else Ret (d2, w2)) (\<lambda>(d3, w3).
           run_bind (try_drivers e drivers d3 w3) (\<lambda>(accepted, w4).
             let new_device = (case accepted of Some nd \<Rightarrow> nd | None \<Rightarrow> d3)
             in if dev_driver new_device = NULL
                then run_bind (kzmalloc (env_lz e) 176 (heap w4)) (\<lambda>(h, a).
                  if a = NULL then Trap Null_deref
                  else Ret (d3, pci_register_device (d3\<lparr>dev_addr := a\<rparr>) (w4\<lparr>heap := h\<rparr>)))
                else Ret (d3, pci_register_device new_device w4))))"

definition zero_dev :: "addr \<Rightarrow> pci_dev" where
  "zero_dev a = \<lparr>dev_addr = a, dev_no = 0, dev_func = 0, vendor_id = 0, device_id = 0,
     subsystem_id = 0, base_class = 0, sub_class = 0, revision = 0, header_type = 0, capabilities = 0,
     has_msix = False, should_use_msix = False, dev_irq = 0, BAR = (\<lambda>_. 0),
     resources = (\<lambda>_. \<lparr>res_type = 0, res_start = 0, res_end = 0\<rparr>),
     dev_msix = \<lparr>enabled = 0, function_mask = 0, cap_base = 0, max_entries = 0, allocated_entries = 0,
       table_addr = 0, pba_addr = 0, per_vector_masking = False, big_addr = False\<rparr>, dev_driver = 0\<rparr>"

text \<open>
  The remaining functions of a multifunction device. Its vendor is compared with 0x80, not with
  0xffff; halt waits for the next interrupt and returns. One structure on the stack serves all of
  them.
\<close>

primrec check_functions ::
    "pci_env \<Rightarrow> 'd pci_driver list \<Rightarrow> u8 \<Rightarrow> u8 \<Rightarrow> nat list \<Rightarrow> pci_dev \<times> 'd pci_world \<Rightarrow> (pci_dev \<times> 'd pci_world) run" where
  "check_functions e drivers bus device [] r = Ret r"
| "check_functions e drivers bus device (f # fs) r =
     (let (ldev, w) = r; (v, w1) = on_trace (pci_config_read_word (env_hw e) bus device (of_nat f) 0x00) w
      in run_bind
           (if v \<noteq> 0x80
            then check_function e drivers bus device (of_nat f) ldev (w1\<lparr>wtrace := wtrace w1 @
                   [Printk ''Additional functions for single pci device FOUND!! WARNING NOT SUPPORTED'' [], Hlt]\<rparr>)
            else Ret (ldev, w1))
           (check_functions e drivers bus device fs))"

definition check_device :: "pci_env \<Rightarrow> 'd pci_driver list \<Rightarrow> u8 \<Rightarrow> u8 \<Rightarrow> 'd pci_world \<Rightarrow> 'd pci_world run" where
  "check_device e drivers bus device w =
     (let (vendor, w1) = on_trace (pci_config_read_word (env_hw e) bus device 0 0x00) w
      in if vendor = 0xffff then Ret w1
         else run_bind (check_function e drivers bus device 0 (zero_dev (env_frame e)) w1) (\<lambda>(ldev, w2).
           let (header, w3) = on_trace (pci_config_read_word (env_hw e) bus device 0 0x0d) w2
           in if header AND 0x80 \<noteq> 0
              then run_bind (check_functions e drivers bus device [1..<8] (ldev, w3)) (\<lambda>(_, w4). Ret w4)
              else Ret w3))"

primrec check_devices :: "pci_env \<Rightarrow> 'd pci_driver list \<Rightarrow> u8 \<Rightarrow> nat list \<Rightarrow> 'd pci_world \<Rightarrow> 'd pci_world run" where
  "check_devices e drivers bus [] w = Ret w"
| "check_devices e drivers bus (d # ds) w =
     run_bind (check_device e drivers bus (of_nat d) w) (check_devices e drivers bus ds)"

definition walk_bus :: "pci_env \<Rightarrow> 'd pci_driver list \<Rightarrow> u8 \<Rightarrow> 'd pci_world \<Rightarrow> 'd pci_world run" where
  "walk_bus e drivers bus w =
     (let b = global_bus w
      in check_devices e drivers bus [0..<32]
           (w\<lparr>global_bus := Pci_bus bus (bus_devices b) (bus_children b)\<rparr>))"

fun print_pci :: "pci_bus \<Rightarrow> nat \<Rightarrow> trace" where
  "print_pci (Pci_bus b ds cs) append' =
     replicate append' (Printk '' '' []) @ [Printk ''bus 0x%02x: '' [ucast b]] @
     map (\<lambda>d. Printk ''->(0x%p venodor:0x%4x device:0x%4x) 0x%02x%02x subsystem 0x%04x:''
       [dev_addr d, ucast (vendor_id d), ucast (device_id d), ucast (base_class d), ucast (sub_class d),
        ucast (subsystem_id d)]) ds @
     [Printk ''\<newline>'' []] @ concat (map (\<lambda>c. print_pci c (append' + 1)) cs)"

primrec enum_functions :: "pci_env \<Rightarrow> 'd pci_driver list \<Rightarrow> nat list \<Rightarrow> 'd pci_world \<Rightarrow> 'd pci_world run" where
  "enum_functions e drivers [] w = Ret w"
| "enum_functions e drivers (f # fs) w =
     (let (vendor, w1) = on_trace (pci_config_read_word (env_hw e) 0 0 (of_nat f) 0x00) w
      in if vendor \<noteq> 0xffff then Ret w1
         else run_bind (walk_bus e drivers (of_nat f) w1) (enum_functions e drivers fs))"

definition pci_enum :: "pci_env \<Rightarrow> 'd pci_driver list \<Rightarrow> 'd pci_world \<Rightarrow> 'd pci_world run" where
  "pci_enum e drivers w =
     (let (header, w1) = on_trace (pci_config_read_word (env_hw e) 0 0 0 0x0d) w
      in run_bind (if header AND 0x80 = 0 then walk_bus e drivers 0 w1 else enum_functions e drivers [0..<8] w1)
           (\<lambda>w2. Ret (w2\<lparr>wtrace := wtrace w2 @ print_pci (global_bus w2) 0\<rparr>)))"

section \<open>Looking devices up\<close>

text \<open>
  A position in the list of devices is the rest of the list, NULL the empty one. The loop of
  pci_lookup_device_next advances once more before it looks at the first device.
\<close>

definition pci_lookup_device_start :: "'d pci_world \<Rightarrow> pci_dev list" where
  "pci_lookup_device_start w = bus_devices (global_bus w)"

definition pci_lookup_device_next :: "pci_dev list \<Rightarrow> u16 \<Rightarrow> pci_dev list run" where
  "pci_lookup_device_next it vendor =
     (case it of [] \<Rightarrow> Trap Null_deref
      | _ # it1 \<Rightarrow> (case it1 of [] \<Rightarrow> Trap Null_deref
          | _ # it2 \<Rightarrow> Ret (dropWhile (\<lambda>d. vendor_id d \<noteq> vendor) it2)))"

definition pci_lookup_device :: "'d pci_world \<Rightarrow> u16 \<Rightarrow> pci_dev list run" where
  "pci_lookup_device w vendor = pci_lookup_device_next (pci_lookup_device_start w) vendor"

section \<open>What enumeration finds\<close>

abbreviation ids :: "pci_dev \<Rightarrow> u8 \<times> u8 \<times> u16 \<times> u16" where
  "ids d \<equiv> (dev_no d, dev_func d, vendor_id d, device_id d)"

lemma on_trace_bus [simp]: "global_bus (snd (on_trace f w)) = global_bus w"
  by (simp add: on_trace_def case_prod_beta Let_def)

text \<open>A driver that leaves the list of devices and the identity of the device alone.\<close>

definition keeps_bus :: "'d pci_driver \<Rightarrow> bool" where
  "keeps_bus drv \<longleftrightarrow>
     (\<forall>d w x w'. drv_match drv d w = Ret (x, w') \<longrightarrow> global_bus w' = global_bus w) \<and>
     (\<forall>d w w'. drv_init drv d w = Ret (None, w') \<longrightarrow> global_bus w' = global_bus w) \<and>
     (\<forall>d w nd w'. drv_init drv d w = Ret (Some nd, w') \<longrightarrow> global_bus w' = global_bus w \<and> ids nd = ids d) \<and>
     (\<forall>d w x d' w'. drv_probe drv d w = Ret (x, d', w') \<longrightarrow> global_bus w' = global_bus w \<and> ids d' = ids d) \<and>
     (\<forall>d w x d' w'. drv_setup drv d w = Ret (x, d', w') \<longrightarrow> global_bus w' = global_bus w \<and> ids d' = ids d) \<and>
     (\<forall>d w w'. drv_remove drv d w = Ret w' \<longrightarrow> global_bus w' = global_bus w)"

lemma setup_vectors_bus: "setup_vectors e d n w = Ret w' \<Longrightarrow> global_bus w' = global_bus w"
  by (induction n arbitrary: w) (auto simp: run_bind_eq_Ret setup_vector_def Let_def)

lemma msix_bus:
  "pci_dev_check_msix_capability e d w = (c, d', w') \<Longrightarrow> global_bus w' = global_bus w \<and> ids d' = ids d"
  "pci_dev_setup_msix e d w = Ret (d', w') \<Longrightarrow> global_bus w' = global_bus w \<and> ids d' = ids d"
  by (auto simp: pci_dev_check_msix_capability_def pci_dev_setup_msix_def map_region_def case_prod_beta Let_def
      run_bind_eq_Ret split: if_splits)

lemma keeps_busD:
  assumes "keeps_bus drv"
  shows "drv_match drv d w = Ret (x, w') \<Longrightarrow> global_bus w' = global_bus w"
    and "drv_init drv d w = Ret (None, w') \<Longrightarrow> global_bus w' = global_bus w"
    and "drv_init drv d w = Ret (Some nd, w') \<Longrightarrow> global_bus w' = global_bus w \<and> ids nd = ids d"
    and "drv_probe drv d w = Ret (x, d', w') \<Longrightarrow> global_bus w' = global_bus w \<and> ids d' = ids d"
    and "drv_setup drv d w = Ret (x, d', w') \<Longrightarrow> global_bus w' = global_bus w \<and> ids d' = ids d"
    and "drv_remove drv d w = Ret w' \<Longrightarrow> global_bus w' = global_bus w"
  using assms by (auto simp: keeps_bus_def)

lemma driver_try_setup_bus:
  assumes "keeps_bus drv" and "driver_try_setup e drv d w = Ret (r, w')"
  shows "global_bus w' = global_bus w \<and> (\<forall>nd. r = Some nd \<longrightarrow> ids nd = ids d)"
proof -
  let ?Q = "\<lambda>(r, w'). global_bus w' = global_bus w \<and> (\<forall>nd. r = Some nd \<longrightarrow> ids nd = ids d)"
  have "ensures (driver_try_setup e drv d w) ?Q"
    unfolding driver_try_setup_def pci_setup_msix_def
    by (intro ensures_intros)
      (auto dest!: keeps_busD [OF assms(1)] setup_vectors_bus split: if_splits)
  then show ?thesis using assms(2) by (auto dest: ensuresD)
qed

lemma pci_find_driver_set:
  "pci_find_driver ds d = Ret (Some (drv, rest)) \<Longrightarrow> drv \<in> set ds \<and> set rest \<subseteq> set ds"
  by (induction ds) (auto simp: run_bind_eq_Ret split: if_splits)

lemma try_drivers_bus:
  assumes "\<forall>drv \<in> set drivers. keeps_bus drv"
  shows "ensures (try_drivers e drivers d w) (\<lambda>(r, w'). global_bus w' = global_bus w \<and> (\<forall>nd. r = Some nd \<longrightarrow> ids nd = ids d))"
  using assms
proof (induction e drivers d w rule: try_drivers.induct)
  case (1 e drivers d w)
  show ?case
    unfolding try_drivers.simps [of e drivers]
  proof (intro ensures_intros)
    fix found x drv rest step nd w1
    assume found: "pci_find_driver drivers d = Ret found" "found = Some x" "x = (drv, rest)"
      and step: "driver_try_setup e drv d w = Ret step" "step = (nd, w1)"
    have in_set: "keeps_bus drv" "\<forall>drv \<in> set rest. keeps_bus drv"
      using pci_find_driver_set [of drivers d drv rest] found "1.prems" by auto
    note first = driver_try_setup_bus [OF in_set(1) step(1) [unfolded step(2)]]
    {
      assume "nd = None"
      then show "ensures (try_drivers e rest d w1)
          (\<lambda>(r, w'). global_bus w' = global_bus w \<and> (\<forall>nd. r = Some nd \<longrightarrow> ids nd = ids d))"
        using "1.IH" [OF found(1,2) found(3) [symmetric] step(1) step(2) [symmetric] _ in_set(2)] first by simp
    }
    fix d' assume "nd = Some d'"
    then show "ensures (Ret (Some d', w1))
        (\<lambda>(r, w'). global_bus w' = global_bus w \<and> (\<forall>nd. r = Some nd \<longrightarrow> ids nd = ids d))"
      using first by simp
  qed simp
qed

lemma read_bar_ids: "ids (fst (read_bar hw bus device function i p)) = ids (fst p)"
  by (simp add: read_bar_def case_prod_beta Let_def)

lemma read_bars_ids: "ids (fst (fold (read_bar hw bus device function) is p)) = ids (fst p)"
  by (induction "is" arbitrary: p) (simp_all add: read_bar_ids)

text \<open>The first register of every slot: the vendor in the low half, the device in the high half.\<close>

definition slot_ids :: "hw \<Rightarrow> u8 \<Rightarrow> (nat \<Rightarrow> u32) \<Rightarrow> bool" where
  "slot_ids hw bus reg \<longleftrightarrow>
     (\<forall>t. \<forall>slot < 32. port_in hw (t @ [Outl 0xCF8 (config_address bus (of_nat slot) 0 0)]) 0xCFC = reg slot)"

lemma slot_ids_read:
  assumes "slot_ids hw bus reg" and "slot < 32"
  shows "fst (pci_config_read_word hw bus (of_nat slot) 0 0 t) = ucast (reg slot)"
    and "fst (pci_config_read_word hw bus (of_nat slot) 0 2 t) = ucast (drop_bit 16 (reg slot))"
  using assms by (simp_all add: slot_ids_def pci_config_read_word_def config_read_def inl_def case_prod_beta Let_def)

lemma read_header_ids:
  assumes "slot_ids hw bus reg" and "slot < 32"
  shows "ids (fst (read_header hw bus (of_nat slot) 0 ldev t)) =
    (of_nat slot, 0, ucast (reg slot), ucast (drop_bit 16 (reg slot)))"
  by (simp add: read_header_def case_prod_beta Let_def slot_ids_read [OF assms])

definition found_in_slot :: "(nat \<Rightarrow> u32) \<Rightarrow> nat \<Rightarrow> u8 \<times> u8 \<times> u16 \<times> u16" where
  "found_in_slot reg slot = (of_nat slot, 0, ucast (reg slot), ucast (drop_bit 16 (reg slot)))"

definition occupied :: "(nat \<Rightarrow> u32) \<Rightarrow> nat \<Rightarrow> bool" where
  "occupied reg slot \<longleftrightarrow> (ucast (reg slot) :: u16) \<noteq> 0xffff"

text \<open>The devices found at the functions from 1 on are not function 0.\<close>

abbreviation first_functions :: "pci_dev list \<Rightarrow> pci_dev list" where
  "first_functions ds \<equiv> filter (\<lambda>d. dev_func d = 0) ds"

text \<open>
  What the bus asks of its drivers, and what it promises for such drivers: whichever of them accept or
  reject a device, the devices registered are those that are there.
\<close>

locale bus_drivers =
  fixes drivers :: "'d pci_driver list"
  assumes keeps: "drv \<in> set drivers \<Longrightarrow> keeps_bus drv"
begin

lemma accepted_bus:
  "try_drivers e drivers d w = Ret (r, w') \<Longrightarrow>
    global_bus w' = global_bus w \<and> (\<forall>nd. r = Some nd \<longrightarrow> ids nd = ids d)"
  using ensuresD [OF try_drivers_bus] keeps by fastforce

lemma check_function_bus:
  "ensures (check_function e drivers bus device function ldev w)
    (\<lambda>(_, w'). \<exists>d. bus_devices (global_bus w') = bus_devices (global_bus w) @ [d] \<and>
       ids d = ids (fst (read_header (env_hw e) bus device function ldev (wtrace w))))"
proof -
  let ?header = "read_header (env_hw e) bus device function ldev"
  let ?read = "\<lambda>t. fold (read_bar (env_hw e) bus device function) [0..<6] (?header t)"
  obtain d1 w1 where 1: "on_trace ?read w = (d1, w1)" by (rule prod.exhaust)
  have "d1 = fst (?read (wtrace w))" "w1 = snd (on_trace ?read w)"
    using 1 by (simp_all add: on_trace_def case_prod_beta Let_def)
  then have d1: "ids d1 = ids (fst (?header (wtrace w)))" "global_bus w1 = global_bus w"
    by (simp_all only: read_bars_ids on_trace_bus)
  show ?thesis
    unfolding check_function_def 1 Let_def split_conv d1(1) [symmetric]
    using d1(2)
    by (intro ensures_intros)
      (auto dest!: msix_bus accepted_bus simp: pci_register_device_def bus_register_device_def Let_def
        split: if_splits option.splits)
qed

lemma check_functions_bus:
  assumes "\<forall>f \<in> set fs. (of_nat f :: u8) \<noteq> 0"
  shows "ensures (check_functions e drivers bus device fs (ldev, w))
    (\<lambda>(_, w'). \<exists>new. bus_devices (global_bus w') = bus_devices (global_bus w) @ new \<and> first_functions new = [])"
  using assms
proof (induction fs arbitrary: ldev w)
  case (Cons f fs)
  let ?read = "pci_config_read_word (env_hw e) bus device (of_nat f) 0x00"
  obtain v w1 where 1: "on_trace ?read w = (v, w1)" by (rule prod.exhaust)
  then have w1: "global_bus w1 = global_bus w" using on_trace_bus [of ?read w] by simp
  let ?w2 = "w1\<lparr>wtrace := wtrace w1 @ [Printk ''Additional functions for single pci device FOUND!! WARNING NOT SUPPORTED'' [], Hlt]\<rparr>"
  have step: "ensures (if v \<noteq> 0x80 then check_function e drivers bus device (of_nat f) ldev ?w2 else Ret (ldev, w1))
      (\<lambda>(_, w'). \<exists>new. bus_devices (global_bus w') = bus_devices (global_bus w) @ new \<and> first_functions new = [])"
  proof (cases "v = 0x80")
    case False
    have "dev_func (fst (read_header (env_hw e) bus device (of_nat f) ldev (wtrace ?w2))) = of_nat f"
      by (simp add: read_header_def case_prod_beta Let_def)
    then show ?thesis
      using False w1 Cons.prems ensuresD [OF check_function_bus [of e bus device "of_nat f" ldev ?w2]]
      by (fastforce simp: ensures_def)
  qed (simp add: w1)
  show ?case
    unfolding check_functions.simps Let_def split_conv 1
  proof (rule ensures_bind)
    fix r assume r: "(if v \<noteq> 0x80 then check_function e drivers bus device (of_nat f) ldev ?w2 else Ret (ldev, w1)) = Ret r"
    obtain ldev' w' where p: "r = (ldev', w')" by (cases r)
    obtain new where new: "bus_devices (global_bus w') = bus_devices (global_bus w) @ new" "first_functions new = []"
      using ensuresD [OF step r] p by auto
    have "ensures (check_functions e drivers bus device fs (ldev', w'))
        (\<lambda>(_, w''). \<exists>more. bus_devices (global_bus w'') = bus_devices (global_bus w') @ more \<and> first_functions more = [])"
      using Cons by simp
    then show "ensures (check_functions e drivers bus device fs r)
        (\<lambda>(_, w'). \<exists>new. bus_devices (global_bus w') = bus_devices (global_bus w) @ new \<and> first_functions new = [])"
      unfolding ensures_def p using new by fastforce
  qed
qed simp

lemma check_device_bus:
  assumes "slot_ids (env_hw e) bus reg" and "slot < 32"
  shows "ensures (check_device e drivers bus (of_nat slot) w)
    (\<lambda>w'. \<exists>new. bus_devices (global_bus w') = bus_devices (global_bus w) @ new \<and>
      map ids (first_functions new) = (if occupied reg slot then [found_in_slot reg slot] else []))"
proof -
  let ?read = "pci_config_read_word (env_hw e) bus (of_nat slot) 0 0"
  obtain v w1 where 1: "on_trace ?read w = (v, w1)" by (rule prod.exhaust)
  have "v = fst (?read (wtrace w))" "w1 = snd (on_trace ?read w)"
    using 1 by (simp_all add: on_trace_def case_prod_beta Let_def)
  then have v: "v = 0xffff \<longleftrightarrow> \<not> occupied reg slot" "global_bus w1 = global_bus w"
    by (simp_all only: occupied_def slot_ids_read [OF assms] on_trace_bus not_not)
  have first: "\<exists>d. bus_devices (global_bus w2) = bus_devices (global_bus w) @ [d] \<and> ids d = found_in_slot reg slot"
    if "check_function e drivers bus (of_nat slot) 0 ldev w1 = Ret (ldev', w2)" for ldev ldev' w2
    using ensuresD [OF check_function_bus that] v(2)
    by (simp add: read_header_ids [OF assms] found_in_slot_def)
  have rest: "\<exists>new. bus_devices (global_bus w') = bus_devices (global_bus w2) @ new \<and> first_functions new = []"
    if "on_trace g w2 = (h, w3)" "check_functions e drivers bus (of_nat slot) [1..<8] (ldev, w3) = Ret (ldev', w')"
    for g :: "trace \<Rightarrow> u16 \<times> trace" and h w2 w3 w' ldev ldev'
  proof -
    have "\<forall>f \<in> set [1..<8]. (of_nat f :: u8) \<noteq> 0" by code_simp
    from ensuresD [OF check_functions_bus [OF this] that(2)] show ?thesis
      using on_trace_bus [of g w2] that(1) by simp
  qed
  have none: "global_bus w3 = global_bus w2" if "on_trace g w2 = (h, w3)" for g :: "trace \<Rightarrow> u16 \<times> trace" and h w2 w3
    using on_trace_bus [of g w2] that by simp
  show ?thesis
    unfolding check_device_def 1 Let_def split_conv
    using v
    by (intro ensures_intros) (fastforce dest: first rest none simp: ensures_def found_in_slot_def)+
qed

lemma walk_bus_finds:
  assumes "slot_ids (env_hw e) bus reg" and "walk_bus e drivers bus w = Ret w'"
  shows "\<exists>new. bus_devices (global_bus w') = bus_devices (global_bus w) @ new \<and>
    map ids (first_functions new) = map (found_in_slot reg) (filter (occupied reg) [0..<32])"
proof -
  have "ensures (check_devices e drivers bus slots w)
    (\<lambda>w'. \<exists>new. bus_devices (global_bus w') = bus_devices (global_bus w) @ new \<and>
      map ids (first_functions new) = map (found_in_slot reg) (filter (occupied reg) slots))"
    if "\<forall>slot \<in> set slots. slot < 32" for slots w
    using that
  proof (induction slots arbitrary: w)
    case (Cons slot slots)
    then have "slot < 32" by simp
    show ?case
      unfolding check_devices.simps
    proof (rule ensures_bind)
      fix w1 assume "check_device e drivers bus (of_nat slot) w = Ret w1"
      then obtain new where new: "bus_devices (global_bus w1) = bus_devices (global_bus w) @ new"
          "map ids (first_functions new) = (if occupied reg slot then [found_in_slot reg slot] else [])"
        using ensuresD [OF check_device_bus [OF assms(1) \<open>slot < 32\<close>]] by blast
      have "ensures (check_devices e drivers bus slots w1)
          (\<lambda>w'. \<exists>new. bus_devices (global_bus w') = bus_devices (global_bus w1) @ new \<and>
            map ids (first_functions new) = map (found_in_slot reg) (filter (occupied reg) slots))"
        using Cons by simp
      then show "ensures (check_devices e drivers bus slots w1)
          (\<lambda>w'. \<exists>new. bus_devices (global_bus w') = bus_devices (global_bus w) @ new \<and>
            map ids (first_functions new) = map (found_in_slot reg) (filter (occupied reg) (slot # slots)))"
        unfolding ensures_def using new by (fastforce simp: split: if_splits)
    qed
  qed simp
  from ensuresD [OF this [of "[0..<32]"] assms(2) [unfolded walk_bus_def Let_def]] show ?thesis by simp
qed

end

section \<open>Devices without a driver\<close>

lemma read_bar_driver: "dev_driver (fst (read_bar hw bus device function i p)) = dev_driver (fst p)"
  by (simp add: read_bar_def case_prod_beta Let_def)

lemma read_bars_driver: "dev_driver (fst (fold (read_bar hw bus device function) is p)) = dev_driver (fst p)"
  by (induction "is" arbitrary: p) (simp_all add: read_bar_driver)

lemma on_trace_heap [simp]: "heap (snd (on_trace f w)) = heap w"
  by (simp add: on_trace_def case_prod_beta Let_def)

text \<open>
  A slot whose device has no capabilities and no further functions, and whose ids no driver names.
\<close>

definition plain_slot :: "pci_env \<Rightarrow> 'd pci_driver list \<Rightarrow> u8 \<Rightarrow> (nat \<Rightarrow> u32) \<Rightarrow> nat \<Rightarrow> bool" where
  "plain_slot e drivers bus reg slot \<longleftrightarrow>
     (\<forall>t. fst (pci_config_read_word (env_hw e) bus (of_nat slot) 0 0x06 t) AND 0x10 = 0 \<and>
        fst (pci_config_read_word (env_hw e) bus (of_nat slot) 0 0x0d t) AND 0x80 = 0) \<and>
     (\<forall>d. ids d = found_in_slot reg slot \<longrightarrow> pci_find_driver drivers d = Ret None)"

text \<open>Room for n more devices without a driver (struct pci_dev takes 23 slabs) in the slab node of page p.\<close>

definition room :: "nat \<Rightarrow> nat \<Rightarrow> slabs \<Rightarrow> bool" where
  "room p n h \<longleftrightarrow> page_addr p + 4160 < 2 ^ 31 \<and> (\<exists>u. packed p u h \<and> u + 23 * n \<le> 503)"

lemma room_kzmalloc:
  assumes "room p (Suc n) h"
  obtains h' a where "kzmalloc lz 176 h = Ret (h', a)" and "a \<noteq> NULL" and "room p n h'"
proof -
  obtain u where u: "page_addr p + 4160 < 2 ^ 31" "packed p u h" "u + 23 * Suc n \<le> 503"
    using assms by (auto simp: room_def)
  obtain h' where "kzmalloc lz 176 h = Ret (h', slab_addr p u)" "slab_addr p u \<noteq> NULL" "packed p (u + 23) h'"
    using kzmalloc_packed [of 176 p u h lz] u by auto
  moreover from this have "room p n h'" using u by (auto simp: room_def)
  ultimately show thesis using that by blast
qed

lemma plain_check_function:
  assumes "plain_slot e drivers bus reg slot" and ids: "slot_ids (env_hw e) bus reg" "slot < 32"
    and w: "bus_number (global_bus w) = bus" "room p (Suc n) (heap w)"
  shows "\<exists>r w'. check_function e drivers bus (of_nat slot) 0 (zero_dev a) w = Ret (r, w') \<and>
    bus_number (global_bus w') = bus \<and> room p n (heap w')"
proof -
  let ?read = "\<lambda>t. fold (read_bar (env_hw e) bus (of_nat slot) 0) [0..<6] (read_header (env_hw e) bus (of_nat slot) 0 (zero_dev a) t)"
  obtain d1 w1 where 1: "on_trace ?read w = (d1, w1)" by (rule prod.exhaust)
  then have "d1 = fst (?read (wtrace w))" "w1 = snd (on_trace ?read w)"
    by (simp_all add: on_trace_def case_prod_beta Let_def)
  then have d1: "ids d1 = found_in_slot reg slot" "dev_driver d1 = NULL"
    and w1: "global_bus w1 = global_bus w" "heap w1 = heap w"
    by (simp_all only: read_bars_ids read_bars_driver read_header_ids [OF ids] found_in_slot_def on_trace_bus on_trace_heap)
      (simp add: read_header_def case_prod_beta Let_def zero_dev_def)
  have none: "pci_find_driver drivers d = Ret None" if "ids d = found_in_slot reg slot" for d
    using assms(1) that by (simp add: plain_slot_def)
  have dev: "dev_no d1 = of_nat slot" "dev_func d1 = 0" using d1(1) by (simp_all add: found_in_slot_def)
  obtain w2 where check: "pci_dev_check_msix_capability e d1 w1 = (False, d1\<lparr>has_msix := False\<rparr>, w2)"
      and w2: "global_bus w2 = global_bus w" "heap w2 = heap w"
  proof
    let ?find = "pci_dev_find_capability (env_hw e) (bus_number (global_bus w1)) d1 0x11"
    have "fst (?find t) = 0" for t
      using assms(1) w(1) by (simp add: pci_dev_find_capability_def pci_find_cap_start_def plain_slot_def dev w1 case_prod_beta Let_def)
    then show "pci_dev_check_msix_capability e d1 w1 = (False, d1\<lparr>has_msix := False\<rparr>, snd (on_trace ?find w1))"
      by (simp add: pci_dev_check_msix_capability_def on_trace_def case_prod_beta Let_def)
    show "global_bus (snd (on_trace ?find w1)) = global_bus w" "heap (snd (on_trace ?find w1)) = heap w" using w1 by simp_all
  qed
  have rejected: "try_drivers e drivers (d1\<lparr>has_msix := False\<rparr>) w2 = Ret (None, w2)"
    using none [of "d1\<lparr>has_msix := False\<rparr>"] d1(1) by (simp add: try_drivers.simps)
  obtain h' b where h': "kzmalloc (env_lz e) 176 (heap w2) = Ret (h', b)" "b \<noteq> NULL" "room p n h'"
    using room_kzmalloc w(2) w2(2) by metis
  show ?thesis
    unfolding check_function_def 1 Let_def split_conv check
    using h' w(1) w2(1) d1(2) by (simp add: rejected pci_register_device_def bus_register_device_def Let_def)
qed

lemma plain_check_device:
  assumes ids: "slot_ids (env_hw e) bus reg" "slot < 32" and plain: "occupied reg slot \<Longrightarrow> plain_slot e drivers bus reg slot"
    and w: "bus_number (global_bus w) = bus" "room p (n + (if occupied reg slot then 1 else 0)) (heap w)"
  shows "\<exists>w'. check_device e drivers bus (of_nat slot) w = Ret w' \<and> bus_number (global_bus w') = bus \<and> room p n (heap w')"
proof -
  let ?read = "pci_config_read_word (env_hw e) bus (of_nat slot) 0 0"
  obtain v w1 where 1: "on_trace ?read w = (v, w1)" by (rule prod.exhaust)
  have "v = fst (?read (wtrace w))" "w1 = snd (on_trace ?read w)"
    using 1 by (simp_all add: on_trace_def case_prod_beta Let_def)
  then have v: "v = 0xffff \<longleftrightarrow> \<not> occupied reg slot" and w1: "global_bus w1 = global_bus w" "heap w1 = heap w"
    by (simp_all only: occupied_def slot_ids_read [OF ids] on_trace_bus on_trace_heap not_not)
  show ?thesis
  proof (cases "occupied reg slot")
    case False
    then show ?thesis using v w w1 by (simp add: check_device_def 1)
  next
    case True
    obtain r w2 where f: "check_function e drivers bus (of_nat slot) 0 (zero_dev (env_frame e)) w1 = Ret (r, w2)"
        "bus_number (global_bus w2) = bus" "room p n (heap w2)"
      using plain_check_function [OF plain [OF True] ids, of w1 p n "env_frame e"] w w1 True by auto
    let ?read_type = "pci_config_read_word (env_hw e) bus (of_nat slot) 0 0x0d"
    obtain h w3 where 3: "on_trace ?read_type w2 = (h, w3)" by (rule prod.exhaust)
    then have "h = fst (?read_type (wtrace w2))" "w3 = snd (on_trace ?read_type w2)"
      by (simp_all add: on_trace_def case_prod_beta Let_def)
    then have "h AND 0x80 = 0" "global_bus w3 = global_bus w2" "heap w3 = heap w2"
      using plain [OF True] by (simp_all only: plain_slot_def on_trace_bus on_trace_heap)
    then show ?thesis using v True f(2,3) by (simp add: check_device_def 1 f(1) 3)
  qed
qed

lemma plain_check_devices:
  assumes "slot_ids (env_hw e) bus reg" and "\<forall>slot \<in> set slots. slot < 32 \<and> (occupied reg slot \<longrightarrow> plain_slot e drivers bus reg slot)"
    and "bus_number (global_bus w) = bus" and "room p (n + length (filter (occupied reg) slots)) (heap w)"
  shows "\<exists>w'. check_devices e drivers bus slots w = Ret w' \<and> room p n (heap w')"
  using assms(2-4)
proof (induction slots arbitrary: w)
  case (Cons slot slots)
  obtain w1 where "check_device e drivers bus (of_nat slot) w = Ret w1" "bus_number (global_bus w1) = bus"
      "room p (n + length (filter (occupied reg) slots)) (heap w1)"
    using plain_check_device [OF assms(1), of slot drivers w p "n + length (filter (occupied reg) slots)"] Cons.prems
    by (auto split: if_splits)
  then show ?case using Cons by simp
qed simp

text \<open>
  C28: Enumeration. Let the first register of each of the 32 slots of a bus not change and the
  drivers leave the device list and the identity of the device they are given alone. A walk of the
  bus that returns has appended devices to the list of which exactly one is function 0 of each slot
  whose vendor is not 0xffff, in slot order and with the vendor and device ids read from it, whichever
  drivers accept or reject the devices and whatever further functions a slot claims to have. The walk
  does return when each of these devices is one without capabilities, further functions and a
  driver that names it, and the slab node has room for their structures.
\<close>
theorem walk_bus_enumerates:
  assumes "\<forall>drv \<in> set drivers. keeps_bus drv" and "slot_ids (env_hw e) bus reg"
  shows "(\<forall>w'. walk_bus e drivers bus w = Ret w' \<longrightarrow>
      (\<exists>new. bus_devices (global_bus w') = bus_devices (global_bus w) @ new \<and>
        map ids (first_functions new) = map (found_in_slot reg) (filter (occupied reg) [0..<32]))) \<and>
    ((\<forall>slot < 32. occupied reg slot \<longrightarrow> plain_slot e drivers bus reg slot) \<and>
      room p (length (filter (occupied reg) [0..<32])) (heap w) \<longrightarrow> (\<exists>w'. walk_bus e drivers bus w = Ret w'))"
proof (intro conjI impI allI)
  fix w' assume "walk_bus e drivers bus w = Ret w'"
  moreover have "bus_drivers drivers" using assms(1) by unfold_locales simp
  ultimately show "\<exists>new. bus_devices (global_bus w') = bus_devices (global_bus w) @ new \<and>
      map ids (first_functions new) = map (found_in_slot reg) (filter (occupied reg) [0..<32])"
    using bus_drivers.walk_bus_finds assms(2) by blast
next
  assume plain: "(\<forall>slot < 32. occupied reg slot \<longrightarrow> plain_slot e drivers bus reg slot) \<and>
    room p (length (filter (occupied reg) [0..<32])) (heap w)"
  then have slots: "\<forall>slot \<in> set [0..<32]. slot < 32 \<and> (occupied reg slot \<longrightarrow> plain_slot e drivers bus reg slot)" by simp
  let ?w = "w\<lparr>global_bus := Pci_bus bus (bus_devices (global_bus w)) (bus_children (global_bus w))\<rparr>"
  show "\<exists>w'. walk_bus e drivers bus w = Ret w'"
    using plain_check_devices [OF assms(2) slots, of ?w p 0] plain by (auto simp: walk_bus_def Let_def)
qed

text \<open>A machine with one device in slot 3, and a driver that takes every device.\<close>

definition slot3_hw :: hw where
  "slot3_hw = \<lparr>port_in = (\<lambda>t port. case last t of
       Outl p a \<Rightarrow> if (ucast a :: u8) \<noteq> 0 then 0
         else if a = config_address 0 3 0 0 then 0x10031AF4 else 0xFFFFFFFF
     | _ \<Rightarrow> 0), mmio_in = (\<lambda>_ _. 0)\<rparr>"

definition slot3_env :: pci_env where
  "slot3_env = \<lparr>env_lz = bsr, env_hw = slot3_hw, env_pd = 0, env_stub = 0, env_irq_handler = 0, env_frame = 0\<rparr>"

definition take_all :: "unit pci_driver" where
  "take_all = \<lparr>drv_addr = 0xC0200000,
     id_list = [\<lparr>pi_vendor = 0xffff, pi_device = 0xffff, pi_subsystem = 0xffff, pi_class = 0xff,
       pi_sub_class = 0xff, pi_revision = 0xff\<rparr>],
     drv_match = (\<lambda>d w. Ret (True, w)), drv_init = (\<lambda>d w. Ret (Some d, w)),
     drv_probe = (\<lambda>d w. Ret (True, d, w)), drv_setup = (\<lambda>d w. Ret (True, d, w)),
     drv_remove = (\<lambda>d w. Ret w), drv_ievent = None\<rparr>"

definition slot3_world :: "unit pci_world" where
  "slot3_world = \<lparr>heap = \<lparr>smem = (\<lambda>_. 0), free_list = 0\<rparr>, wtrace = [], widt = boot_idts,
     global_bus = Pci_bus 0 [] [], bus_device_nodes = [], bus_driver_nodes = [], driver_data = ()\<rparr>"

abbreviation slot3_reg :: "nat \<Rightarrow> u32" where
  "slot3_reg slot \<equiv> (if slot = 3 then 0x10031AF4 else 0xFFFFFFFF)"

lemma slot3_ids: "slot_ids slot3_hw 0 slot3_reg"
proof -
  have "list_all (\<lambda>s. config_address 0 (of_nat s) 0 0 = config_address 0 3 0 0 \<longleftrightarrow> s = 3) [0..<32]"
    by code_simp
  then show ?thesis
    by (simp add: slot_ids_def slot3_hw_def list_all_iff config_address_reg)
qed

lemma slot3_zero:
  "reg AND 0xfc \<noteq> 0 \<Longrightarrow> fst (config_read slot3_hw bus slot func reg t) = 0"
  by (simp add: config_read_def inl_def slot3_hw_def config_address_reg Let_def)

lemma slot3_check_device:
  assumes "slot < 32"
  obtains w' where "check_device slot3_env [take_all] 0 (of_nat slot) w = Ret w'"
proof -
  note vendor = slot_ids_read [OF slot3_ids assms]
  show thesis
  proof (cases "slot = 3")
    case False
    then have "fst (pci_config_read_word slot3_hw 0 (of_nat slot) 0 0 t) = 0xffff" for t
      using vendor by simp
    then show thesis
      using that by (simp add: check_device_def on_trace_def slot3_env_def case_prod_beta Let_def)
  next
    case True
    have "fst (pci_config_read_word slot3_hw 0 3 0 0 t) = 0x1AF4" for t
      using vendor True by simp
    moreover have "fst (pci_config_read_word slot3_hw 0 3 0 0x0d t) = 0"
        "fst (pci_config_read_word slot3_hw bus s f 6 t) = 0" for t bus s f
      by (simp_all add: pci_config_read_word_def slot3_zero case_prod_beta Let_def)
    ultimately show thesis
      using that True
      by (simp add: check_device_def check_function_def on_trace_def slot3_env_def case_prod_beta Let_def
          pci_dev_check_msix_capability_def pci_dev_find_capability_def pci_find_cap_start_def
          try_drivers.simps match_dri_dev_def take_all_def match_id_def driver_try_setup_def)
  qed
qed

lemma slot3_plain: "slot < 32 \<Longrightarrow> occupied slot3_reg slot \<Longrightarrow> plain_slot slot3_env [] 0 slot3_reg slot"
  by (simp add: plain_slot_def slot3_env_def pci_config_read_word_def slot3_zero case_prod_beta Let_def)

theorem walk_bus_enumerates_witness:
  "(\<exists>w' d. walk_bus slot3_env [take_all] 0 slot3_world = Ret w' \<and>
     first_functions (bus_devices (global_bus w')) = [d] \<and> ids d = (3, 0, 0x1AF4, 0x1003)) \<and>
   (\<exists>h w'. walk_bus slot3_env [] 0 (slot3_world\<lparr>heap := h\<rparr>) = Ret w')"
proof -
  have "\<exists>w'. check_devices slot3_env [take_all] 0 slots w = Ret w'" if "\<forall>s \<in> set slots. s < 32" for slots w
    using that
  proof (induction slots arbitrary: w)
    case (Cons slot slots)
    obtain w1 where "check_device slot3_env [take_all] 0 (of_nat slot) w = Ret w1"
      using slot3_check_device [of slot w] Cons.prems by auto
    then show ?case using Cons by simp
  qed simp
  then obtain w' where w': "walk_bus slot3_env [take_all] 0 slot3_world = Ret w'"
    unfolding walk_bus_def Let_def by (metis atLeastLessThan_iff set_upt)
  have reg: "slot_ids (env_hw slot3_env) 0 slot3_reg" using slot3_ids by (simp add: slot3_env_def)
  have "keeps_bus take_all" by (simp add: keeps_bus_def take_all_def)
  then have keeps: "\<forall>drv \<in> set [take_all]. keeps_bus drv" by simp
  have slots: "filter (occupied slot3_reg) [0..<32] = [3]"
    by code_simp
  obtain new where "bus_devices (global_bus w') = bus_devices (global_bus slot3_world) @ new"
      "map ids (first_functions new) = map (found_in_slot slot3_reg) [3]"
    using walk_bus_enumerates [OF keeps reg, of slot3_world] w' unfolding slots by blast
  then have first: "\<exists>d. first_functions (bus_devices (global_bus w')) = [d] \<and> ids d = (3, 0, 0x1AF4, 0x1003)"
    by (auto simp: slot3_world_def found_in_slot_def)
  obtain p h where "packed p 2 h" "page_addr p + 4160 < 2 ^ 31" using packed_heap by blast
  then have "room p (length [3 :: nat]) h" by (auto simp: room_def)
  moreover have "\<forall>slot < 32. occupied slot3_reg slot \<longrightarrow> plain_slot slot3_env ([] :: unit pci_driver list) 0 slot3_reg slot" using slot3_plain by blast
  ultimately have "\<exists>w'. walk_bus slot3_env [] 0 (slot3_world\<lparr>heap := h\<rparr>) = Ret w'"
    using walk_bus_enumerates [OF _ reg, of "[]" "slot3_world\<lparr>heap := h\<rparr>" p] unfolding slots by simp
  with first show ?thesis using w' by blast
qed

end
