(* ===== verification/Rbtree.thy ===== *)
theory Rbtree
  imports Prelude
begin

text \<open>
  The red-black trees of libc/rbtree.c: nodes with a word that holds the address of the parent and
  the colour in bit 0, and two child pointers. The store maps addresses to nodes; insertion is
  shown to turn the pointer structure of a red-black tree into that of a red-black tree with the
  new node at its place.
\<close>

section \<open>Nodes\<close>

record rb_node =
  rb_word :: u32
  rb_left :: addr
  rb_right :: addr

record rbs =
  nodes :: "addr \<Rightarrow> rb_node"
  rb_root :: addr

definition RB_BLACK :: u32 where "RB_BLACK = 1"
definition RB_RED :: u32 where "RB_RED = 0"

definition RB_GET_PARENT :: "rbs \<Rightarrow> addr \<Rightarrow> addr" where
  "RB_GET_PARENT s n = rb_word (nodes s n) AND NOT 1"

definition RB_GET_COLOR :: "rbs \<Rightarrow> addr \<Rightarrow> u32" where
  "RB_GET_COLOR s n = rb_word (nodes s n) AND 1"

definition set_word :: "addr \<Rightarrow> u32 \<Rightarrow> rbs \<Rightarrow> rbs" where
  "set_word n v s = s\<lparr>nodes := (nodes s)(n := (nodes s n)\<lparr>rb_word := v\<rparr>)\<rparr>"

definition set_left :: "addr \<Rightarrow> addr \<Rightarrow> rbs \<Rightarrow> rbs" where
  "set_left n v s = s\<lparr>nodes := (nodes s)(n := (nodes s n)\<lparr>rb_left := v\<rparr>)\<rparr>"

definition set_right :: "addr \<Rightarrow> addr \<Rightarrow> rbs \<Rightarrow> rbs" where
  "set_right n v s = s\<lparr>nodes := (nodes s)(n := (nodes s n)\<lparr>rb_right := v\<rparr>)\<rparr>"

definition RB_SET_COLOR :: "addr \<Rightarrow> u32 \<Rightarrow> rbs \<Rightarrow> rbs" where
  "RB_SET_COLOR n c s = set_word n ((rb_word (nodes s n) AND NOT 1) OR c) s"

definition RB_SET_PARENT :: "addr \<Rightarrow> addr \<Rightarrow> rbs \<Rightarrow> rbs" where
  "RB_SET_PARENT n p s = set_word n ((rb_word (nodes s n) AND 1) OR p) s"

definition RB_SET_PARENT_COLOR :: "addr \<Rightarrow> addr \<Rightarrow> u32 \<Rightarrow> rbs \<Rightarrow> rbs" where
  "RB_SET_PARENT_COLOR n p c s = set_word n (p OR c) s"

section \<open>Linking a node\<close>

text \<open>The pointer the new node is stored through: the root, or a child field of a node.\<close>

datatype rb_link = Link_root | Link_left addr | Link_right addr

fun store_link :: "rb_link \<Rightarrow> addr \<Rightarrow> rbs \<Rightarrow> rbs" where
  "store_link Link_root v s = s\<lparr>rb_root := v\<rparr>"
| "store_link (Link_left a) v s = set_left a v s"
| "store_link (Link_right a) v s = set_right a v s"

definition rb_link_node :: "addr \<Rightarrow> addr \<Rightarrow> rb_link \<Rightarrow> rbs \<Rightarrow> rbs" where
  "rb_link_node new parent link s =
     (let s1 = store_link link new s;
          s2 = s1\<lparr>nodes := (nodes s1)(new := \<lparr>rb_word = 0, rb_left = 0, rb_right = 0\<rparr>)\<rparr>
      in RB_SET_PARENT_COLOR new parent RB_RED s2)"

section \<open>Insertion\<close>

definition set_parent_if :: "addr \<Rightarrow> addr \<Rightarrow> rbs \<Rightarrow> rbs" where
  "set_parent_if n p s = (if n \<noteq> NULL then RB_SET_PARENT n p s else s)"

text \<open>Case 3: the uncle is red.\<close>

definition recolor :: "addr \<Rightarrow> addr \<Rightarrow> addr \<Rightarrow> rbs \<Rightarrow> rbs" where
  "recolor tmp parent gparent s =
     RB_SET_COLOR gparent RB_RED (RB_SET_COLOR parent RB_BLACK (RB_SET_COLOR tmp RB_BLACK s))"

text \<open>Case 4, below a left child and below a right child.\<close>

definition case4_left :: "addr \<Rightarrow> addr \<Rightarrow> addr \<Rightarrow> rbs \<Rightarrow> rbs" where
  "case4_left node parent gparent s =
     (let tmp = rb_left (nodes s node);
          s1 = set_right parent tmp (set_left node parent s);
          s2 = RB_SET_PARENT parent node (set_parent_if tmp parent s1)
      in RB_SET_PARENT node gparent (set_left gparent node s2))"

definition case4_right :: "addr \<Rightarrow> addr \<Rightarrow> addr \<Rightarrow> rbs \<Rightarrow> rbs" where
  "case4_right node parent gparent s =
     (let tmp = rb_right (nodes s node);
          s1 = set_left parent tmp (set_right node parent s);
          s2 = RB_SET_PARENT parent node (set_parent_if tmp parent s1)
      in RB_SET_PARENT node gparent (set_right gparent node s2))"

text \<open>The end of both rotations: the new top takes the place of the old one.\<close>

definition replace_top :: "addr \<Rightarrow> addr \<Rightarrow> rbs \<Rightarrow> rbs" where
  "replace_top gparent parent s =
     (let s1 = RB_SET_COLOR gparent RB_RED (RB_SET_COLOR parent RB_BLACK s);
          old = RB_GET_PARENT s1 gparent;
          s2 = RB_SET_PARENT parent old (RB_SET_PARENT gparent parent s1)
      in if old \<noteq> NULL then
           if rb_left (nodes s2 old) = gparent then set_left old parent s2
           else if rb_right (nodes s2 old) = gparent then set_right old parent s2
           else s2
         else s2\<lparr>rb_root := parent\<rparr>)"

definition case5_left :: "addr \<Rightarrow> addr \<Rightarrow> addr \<Rightarrow> rbs \<Rightarrow> rbs" where
  "case5_left tmp parent gparent s =
     replace_top gparent parent
       (set_parent_if tmp gparent (set_left gparent tmp (set_right parent gparent s)))"

definition case5_right :: "addr \<Rightarrow> addr \<Rightarrow> addr \<Rightarrow> rbs \<Rightarrow> rbs" where
  "case5_right tmp parent gparent s =
     replace_top gparent parent
       (set_parent_if tmp gparent (set_right gparent tmp (set_left parent gparent s)))"

definition rotate_left_case :: "addr \<Rightarrow> addr \<Rightarrow> addr \<Rightarrow> rbs \<Rightarrow> rbs" where
  "rotate_left_case node parent gparent s =
     (if node = rb_right (nodes s parent) then
        let s1 = case4_left node parent gparent s
        in case5_left (rb_right (nodes s1 node)) node gparent s1
      else case5_left (rb_right (nodes s parent)) parent gparent s)"

definition rotate_right_case :: "addr \<Rightarrow> addr \<Rightarrow> addr \<Rightarrow> rbs \<Rightarrow> rbs" where
  "rotate_right_case node parent gparent s =
     (if node = rb_left (nodes s parent) then
        let s1 = case4_right node parent gparent s
        in case5_right (rb_left (nodes s1 node)) node gparent s1
      else case5_right (rb_left (nodes s parent)) parent gparent s)"

text \<open>The loop; a red parent without a parent of its own is dereferenced through NULL.\<close>

partial_function (option) rb_loop :: "addr \<Rightarrow> addr \<Rightarrow> rbs \<Rightarrow> rbs run" where
  "rb_loop node parent s =
     (if parent = NULL then Ret (RB_SET_COLOR node RB_BLACK s)
      else if RB_GET_COLOR s parent = RB_BLACK then Ret s
      else
        let gparent = RB_GET_PARENT s parent
        in if gparent = NULL then Trap Null_deref
           else if parent \<noteq> rb_right (nodes s gparent) then
             let tmp = rb_right (nodes s gparent)
             in if tmp \<noteq> NULL \<and> RB_GET_COLOR s tmp = RB_RED
                then let s1 = recolor tmp parent gparent s in rb_loop gparent (RB_GET_PARENT s1 gparent) s1
                else Ret (rotate_left_case node parent gparent s)
           else
             let tmp = rb_left (nodes s gparent)
             in if tmp \<noteq> NULL \<and> RB_GET_COLOR s tmp = RB_RED
                then let s1 = recolor tmp parent gparent s in rb_loop gparent (RB_GET_PARENT s1 gparent) s1
                else Ret (rotate_right_case node parent gparent s))"

definition rbtree_insert :: "addr \<Rightarrow> rbs \<Rightarrow> rbs run" where
  "rbtree_insert node s = (if node = NULL then Trap Null_deref else rb_loop node (RB_GET_PARENT s node) s)"

section \<open>The tree a store holds\<close>

datatype rbcolor = Red | Black

datatype rbt = Tip | Bin rbt addr rbcolor rbt

fun colbit :: "rbcolor \<Rightarrow> u32" where
  "colbit Red = RB_RED"
| "colbit Black = RB_BLACK"

primrec addrs :: "rbt \<Rightarrow> addr list" where
  "addrs Tip = []"
| "addrs (Bin l a c r) = addrs l @ a # addrs r"

definition node_addr :: "addr \<Rightarrow> bool" where
  "node_addr a \<longleftrightarrow> a \<noteq> 0 \<and> \<not> bit a 0"

primrec rep :: "(addr \<Rightarrow> rb_node) \<Rightarrow> addr \<Rightarrow> addr \<Rightarrow> rbt \<Rightarrow> bool" where
  "rep h par p Tip \<longleftrightarrow> p = 0"
| "rep h par p (Bin l a c r) \<longleftrightarrow> p = a \<and> rb_word (h a) = par OR colbit c \<and>
     rep h a (rb_left (h a)) l \<and> rep h a (rb_right (h a)) r"

text \<open>
  A position in a tree: the frames from the hole up to the root, each with the node above, its
  colour and the other subtree.
\<close>

datatype rbframe = In_left addr rbcolor rbt | In_right rbt addr rbcolor

type_synonym position = "rbframe list"

fun plug :: "rbt \<Rightarrow> position \<Rightarrow> rbt" where
  "plug t [] = t"
| "plug t (In_left a c r # ctx) = plug (Bin t a c r) ctx"
| "plug t (In_right l a c # ctx) = plug (Bin l a c t) ctx"

fun above :: "position \<Rightarrow> addr" where
  "above [] = 0"
| "above (In_left a c r # ctx) = a"
| "above (In_right l a c # ctx) = a"

fun repc :: "(addr \<Rightarrow> rb_node) \<Rightarrow> addr \<Rightarrow> addr \<Rightarrow> position \<Rightarrow> bool" where
  "repc h root p [] \<longleftrightarrow> root = p"
| "repc h root p (In_left a c r # ctx) \<longleftrightarrow> rb_left (h a) = p \<and> rb_word (h a) = above ctx OR colbit c \<and>
     rep h a (rb_right (h a)) r \<and> repc h root a ctx"
| "repc h root p (In_right l a c # ctx) \<longleftrightarrow> rb_right (h a) = p \<and> rb_word (h a) = above ctx OR colbit c \<and>
     rep h a (rb_left (h a)) l \<and> repc h root a ctx"

fun frame_addrs :: "position \<Rightarrow> addr list" where
  "frame_addrs [] = []"
| "frame_addrs (In_left a c r # ctx) = a # addrs r @ frame_addrs ctx"
| "frame_addrs (In_right l a c # ctx) = a # addrs l @ frame_addrs ctx"

definition holds :: "rbs \<Rightarrow> rbt \<Rightarrow> position \<Rightarrow> bool" where
  "holds s t ctx \<longleftrightarrow> (\<exists>p. rep (nodes s) (above ctx) p t \<and> repc (nodes s) (rb_root s) p ctx) \<and>
     distinct (addrs t @ frame_addrs ctx) \<and> (\<forall>a \<in> set (addrs t @ frame_addrs ctx). node_addr a)"

lemma rep_upd [simp]: "x \<notin> set (addrs t) \<Longrightarrow> rep (h(x := v)) par p t = rep h par p t"
  by (induction t arbitrary: par p) auto

lemma repc_upd [simp]: "x \<notin> set (frame_addrs ctx) \<Longrightarrow> repc (h(x := v)) root p ctx = repc h root p ctx"
  by (induction h root p ctx rule: repc.induct) auto

lemma words [simp]:
  assumes "\<not> bit par 0"
  shows "(par OR colbit c) AND 1 = colbit c" and "(par OR colbit c) AND - 2 = par"
    and "(colbit c AND 1) = colbit c" and "par AND - 2 = par"
proof -
  have p1: "par AND - 2 = par" "par AND 1 = 0"
  proof -
    show "par AND 1 = 0" using assms by (simp add: and_one_eq bit_0 even_iff_mod_2_eq_zero)
    show "par AND - 2 = par"
    proof (rule bit_word_eqI)
      fix n show "bit (par AND - 2) n = bit par n" if "n < LENGTH(32)"
        unfolding bit.compl_one [symmetric] using assms that by (cases "n = 0") (simp_all add: bit_and_iff bit_not_iff bit_1_iff)
    qed
  qed
  have c1: "colbit c AND 1 = colbit c" "colbit c AND - 2 = 0"
    by (cases c; simp add: RB_RED_def RB_BLACK_def)+
  show "(par OR colbit c) AND 1 = colbit c" "(par OR colbit c) AND - 2 = par"
    "(colbit c AND 1) = colbit c" "par AND - 2 = par"
    by (simp_all add: bit.conj_disj_distrib2 p1 c1)
qed

lemma above_even: "holds s t ctx \<Longrightarrow> \<not> bit (above ctx) 0"
  by (cases ctx rule: above.cases) (auto simp: holds_def node_addr_def)

lemma colbit_simps [simp]: "colbit c = RB_BLACK \<longleftrightarrow> c = Black" "colbit c = RB_RED \<longleftrightarrow> c = Red"
  by (cases c; simp add: RB_RED_def RB_BLACK_def)+

section \<open>One step of the loop on the tree\<close>

lemma set_parent_eq: "RB_SET_PARENT n p s = set_word n (p OR (rb_word (nodes s n) AND 1)) s"
  by (simp add: RB_SET_PARENT_def or.commute)

lemmas rb_ops = set_word_def set_left_def set_right_def RB_SET_COLOR_def set_parent_eq set_parent_if_def
  RB_GET_PARENT_def RB_GET_COLOR_def

lemma rep_pointer:
  assumes "rep h par q t" and "g \<notin> set (addrs t)" and "g \<noteq> 0"
  shows "q \<noteq> g"
  using assms by (cases t) auto

lemma holdsE:
  assumes "holds s t ctx"
  obtains p where "rep (nodes s) (above ctx) p t" and "repc (nodes s) (rb_root s) p ctx"
    and "distinct (addrs t)" and "distinct (frame_addrs ctx)" and "set (addrs t) \<inter> set (frame_addrs ctx) = {}"
    and "\<And>a. a \<in> set (addrs t) \<Longrightarrow> node_addr a" and "\<And>a. a \<in> set (frame_addrs ctx) \<Longrightarrow> node_addr a"
    and "\<not> bit (above ctx) 0"
  using assms above_even [OF assms] unfolding holds_def by auto

lemma recolored [simp]:
  "((w::u32) AND - 2 OR RB_BLACK) AND 1 = RB_BLACK" "(w AND - 2 OR RB_RED) AND 1 = RB_RED"
  "(w AND - 2 OR RB_BLACK) AND - 2 = w AND - 2" "(w AND - 2 OR RB_RED) AND - 2 = w AND - 2"
proof -
  have "w AND - 2 AND 1 = 0" for w :: u32
    unfolding and.assoc by simp
  then show "((w::u32) AND - 2 OR RB_BLACK) AND 1 = RB_BLACK" "(w AND - 2 OR RB_RED) AND 1 = RB_RED"
    "(w AND - 2 OR RB_BLACK) AND - 2 = w AND - 2" "(w AND - 2 OR RB_RED) AND - 2 = w AND - 2"
    by (simp_all add: bit.conj_disj_distrib2 RB_BLACK_def RB_RED_def and.assoc)
qed

lemmas words_const [simp] = words(1,2) [where c = Red, unfolded colbit.simps] words(1,2) [where c = Black, unfolded colbit.simps]

lemma replace_top_eq:
  assumes "p \<noteq> g" and "rb_word (nodes s g) = old OR colbit c" and "\<not> bit old 0"
  shows "replace_top g p s =
    (let s2 = s\<lparr>nodes := (nodes s)(p := (nodes s p)\<lparr>rb_word := old OR RB_BLACK\<rparr>, g := (nodes s g)\<lparr>rb_word := p OR RB_RED\<rparr>)\<rparr>
     in if old \<noteq> NULL then
          if rb_left (nodes s2 old) = g then set_left old p s2
          else if rb_right (nodes s2 old) = g then set_right old p s2
          else s2
        else s2\<lparr>rb_root := p\<rparr>)"
proof -
  have set: "RB_SET_PARENT p old (RB_SET_PARENT g p (RB_SET_COLOR g RB_RED (RB_SET_COLOR p RB_BLACK s))) =
      s\<lparr>nodes := (nodes s)(p := (nodes s p)\<lparr>rb_word := old OR RB_BLACK\<rparr>, g := (nodes s g)\<lparr>rb_word := p OR RB_RED\<rparr>)\<rparr>"
    using assms(1) by (simp add: rb_ops fun_upd_twist)
  have get: "RB_GET_PARENT (RB_SET_COLOR g RB_RED (RB_SET_COLOR p RB_BLACK s)) g = old"
    using assms by (simp add: rb_ops)
  show ?thesis
    unfolding replace_top_def Let_def get set ..
qed

lemma replace_top_holds:
  assumes ctx: "repc (nodes s) (rb_root s) g ctx" "g \<notin> set (frame_addrs ctx)" "p \<notin> set (frame_addrs ctx)"
      "distinct (frame_addrs ctx)" "\<And>a. a \<in> set (frame_addrs ctx) \<Longrightarrow> node_addr a"
    and nodes: "p \<noteq> g" "node_addr p" "node_addr g" "rb_word (nodes s g) = above ctx OR colbit c"
      "\<not> bit (above ctx) 0"
  shows "repc (nodes (replace_top g p s)) (rb_root (replace_top g p s)) p ctx \<and>
    nodes (replace_top g p s) p = (nodes s p)\<lparr>rb_word := above ctx OR RB_BLACK\<rparr> \<and>
    nodes (replace_top g p s) g = (nodes s g)\<lparr>rb_word := p OR RB_RED\<rparr> \<and>
    (\<forall>x. x \<noteq> p \<longrightarrow> x \<noteq> g \<longrightarrow> x \<notin> set (frame_addrs ctx) \<longrightarrow> nodes (replace_top g p s) x = nodes s x)"
proof (cases ctx rule: above.cases)
  case 1
  then show ?thesis
    using assms by (simp add: replace_top_eq [OF nodes(1,4,5)])
next
  case (2 a c' r ctx')
  then have "a \<noteq> g" "a \<noteq> p" using ctx by auto
  then show ?thesis
    using 2 assms by (simp add: replace_top_eq [OF nodes(1,4,5)] rb_ops Let_def node_addr_def)
next
  case (3 l a c' ctx')
  then have "rb_left (nodes s a) \<noteq> g"
    using ctx nodes(3) rep_pointer [of "nodes s" a "rb_left (nodes s a)" l g] by (auto simp: node_addr_def)
  moreover have "a \<noteq> g" "a \<noteq> p" using 3 ctx by auto
  ultimately show ?thesis
    using 3 assms by (simp add: replace_top_eq [OF nodes(1,4,5)] rb_ops Let_def node_addr_def)
qed

lemma rep_cong:
  assumes "rep h par p t" and "\<And>x. x \<in> set (addrs t) \<Longrightarrow> h' x = h x"
  shows "rep h' par p t"
  using assms by (induction t arbitrary: par p) auto

lemma repc_cong:
  assumes "repc h root p ctx" and "\<And>x. x \<in> set (frame_addrs ctx) \<Longrightarrow> h' x = h x"
  shows "repc h' root p ctx"
  using assms by (induction h root p ctx rule: repc.induct) (auto intro: rep_cong)

text \<open>Nothing but the nodes of the tree is written.\<close>

definition untouched :: "rbs \<Rightarrow> rbs \<Rightarrow> addr set \<Rightarrow> bool" where
  "untouched s s' A \<longleftrightarrow> (\<forall>x. x \<notin> A \<longrightarrow> nodes s' x = nodes s x)"

abbreviation all_addrs :: "rbt \<Rightarrow> position \<Rightarrow> addr set" where
  "all_addrs t ctx \<equiv> set (addrs t) \<union> set (frame_addrs ctx)"

lemma holdsI:
  assumes "rep (nodes s) (above ctx) p t" and "repc (nodes s) (rb_root s) p ctx"
    and "distinct (addrs t)" and "distinct (frame_addrs ctx)" and "set (addrs t) \<inter> set (frame_addrs ctx) = {}"
    and "\<And>a. a \<in> set (addrs t) \<Longrightarrow> node_addr a" and "\<And>a. a \<in> set (frame_addrs ctx) \<Longrightarrow> node_addr a"
  shows "holds s t ctx"
  using assms by (auto simp: holds_def)

lemma case5_left_holds:
  assumes "holds s (Bin (Bin a p Red b) g Black u) ctx"
  defines "s' \<equiv> case5_left (rb_right (nodes s p)) p g s"
  shows "holds s' (Bin a p Black (Bin b g Red u)) ctx"
    and "untouched s s' (all_addrs (Bin (Bin a p Red b) g Black u) ctx)"
proof -
  from assms(1) obtain q where rep: "rep (nodes s) (above ctx) q (Bin (Bin a p Red b) g Black u)"
      and ctx: "repc (nodes s) (rb_root s) q ctx" "distinct (frame_addrs ctx)"
        "\<And>x. x \<in> set (frame_addrs ctx) \<Longrightarrow> node_addr x" "\<not> bit (above ctx) 0"
      and d: "distinct (addrs (Bin (Bin a p Red b) g Black u))" "set (addrs (Bin (Bin a p Red b) g Black u)) \<inter> set (frame_addrs ctx) = {}"
      and n: "\<And>x. x \<in> set (addrs (Bin (Bin a p Red b) g Black u)) \<Longrightarrow> node_addr x"
    by (rule holdsE) blast
  let ?tmp = "rb_right (nodes s p)"
  let ?s1 = "set_parent_if ?tmp g (set_left g ?tmp (set_right p g s))"
  have neq: "p \<noteq> g" "g \<noteq> p" using d by auto
  have h1: "rep (nodes ?s1) g ?tmp b" "nodes ?s1 p = (nodes s p)\<lparr>rb_right := g\<rparr>"
    "nodes ?s1 g = (nodes s g)\<lparr>rb_left := ?tmp\<rparr>" "rep (nodes ?s1) p (rb_left (nodes s p)) a"
    "rep (nodes ?s1) g (rb_right (nodes s g)) u" "repc (nodes ?s1) (rb_root ?s1) g ctx"
    using rep ctx d n neq by (cases b; auto simp: rb_ops node_addr_def)+
  have out: "nodes ?s1 x = nodes s x" if "x \<notin> set (addrs (Bin (Bin a p Red b) g Black u))" for x
    using rep that by (cases b; auto simp: rb_ops)
  have s': "s' = replace_top g p ?s1" by (simp add: s'_def case5_left_def)
  have w: "rb_word (nodes ?s1 g) = above ctx OR colbit Black" using h1(3) rep by simp
  have "repc (nodes s') (rb_root s') p ctx" and p: "nodes s' p = (nodes s p)\<lparr>rb_right := g, rb_word := above ctx OR RB_BLACK\<rparr>"
    and g: "nodes s' g = (nodes s g)\<lparr>rb_left := ?tmp, rb_word := p OR RB_RED\<rparr>"
    and other: "\<And>x. x \<noteq> p \<Longrightarrow> x \<noteq> g \<Longrightarrow> x \<notin> set (frame_addrs ctx) \<Longrightarrow> nodes s' x = nodes ?s1 x"
    unfolding s' using replace_top_holds [OF h1(6) _ _ ctx(2,3) neq(1) _ _ w ctx(4)] d(2) n h1(2,3) by auto
  moreover have same: "nodes s' x = nodes ?s1 x" if "x \<in> set (addrs a) \<union> set (addrs b) \<union> set (addrs u)" for x
    by (rule other) (use that d in auto)
  have "rep (nodes s') p (rb_left (nodes s p)) a" "rep (nodes s') g ?tmp b" "rep (nodes s') g (rb_right (nodes s g)) u"
    by (rule rep_cong [OF h1(4) same] rep_cong [OF h1(1) same] rep_cong [OF h1(5) same]; simp)+
  ultimately have "rep (nodes s') (above ctx) p (Bin a p Black (Bin b g Red u))"
    by simp
  then show "holds s' (Bin a p Black (Bin b g Red u)) ctx"
    using d n ctx(2,3) \<open>repc (nodes s') (rb_root s') p ctx\<close> by (intro holdsI) auto
  show "untouched s s' (all_addrs (Bin (Bin a p Red b) g Black u) ctx)"
    using other out by (simp add: untouched_def)
qed

lemma case4_left_holds:
  assumes "holds s (Bin (Bin a p Red (Bin b n Red c)) g Black u) ctx"
  defines "s' \<equiv> case4_left n p g s"
  shows "holds s' (Bin (Bin (Bin a p Red b) n Red c) g Black u) ctx"
    and "untouched s s' (all_addrs (Bin (Bin a p Red (Bin b n Red c)) g Black u) ctx)"
proof -
  let ?t = "Bin (Bin a p Red (Bin b n Red c)) g Black u"
  from assms(1) obtain q where rep: "rep (nodes s) (above ctx) q ?t"
      and ctx: "repc (nodes s) (rb_root s) q ctx" "distinct (frame_addrs ctx)"
        "\<And>x. x \<in> set (frame_addrs ctx) \<Longrightarrow> node_addr x" "\<not> bit (above ctx) 0"
      and d: "distinct (addrs ?t)" "set (addrs ?t) \<inter> set (frame_addrs ctx) = {}"
      and ok: "\<And>x. x \<in> set (addrs ?t) \<Longrightarrow> node_addr x"
    by (rule holdsE) blast
  have neq: "p \<noteq> g" "g \<noteq> p" "n \<noteq> g" "g \<noteq> n" "n \<noteq> p" "p \<noteq> n" using d by auto
  have even: "\<not> bit p 0" "\<not> bit n 0" "\<not> bit g 0" using ok by (auto simp: node_addr_def)
  let ?tmp = "rb_left (nodes s n)"
  let ?s1 = "set_parent_if ?tmp p (set_right p ?tmp (set_left n p s))"
  have fields: "q = g" "rb_left (nodes s g) = p" "rb_right (nodes s p) = n" "rb_word (nodes s g) = above ctx OR RB_BLACK"
    "rb_word (nodes s p) = g OR RB_RED" "rb_word (nodes s n) = p OR RB_RED"
    and sub: "rep (nodes s) n ?tmp b" "rep (nodes s) p (rb_left (nodes s p)) a" "rep (nodes s) n (rb_right (nodes s n)) c"
    "rep (nodes s) g (rb_right (nodes s g)) u"
    using rep by auto
  have b: "rep (nodes ?s1) p ?tmp b"
    using sub(1) d ok neq by (cases b) (auto simp: rb_ops node_addr_def)
  have tmp: "?tmp = 0 \<or> ?tmp \<in> set (addrs b)" using sub(1) by (cases b) auto
  have s1: "nodes ?s1 x = ((nodes s)(n := (nodes s n)\<lparr>rb_left := p\<rparr>, p := (nodes s p)\<lparr>rb_right := ?tmp\<rparr>)) x" if "x \<notin> set (addrs b)" for x
    using tmp that neq by (auto simp: rb_ops)
  have s': "nodes s' = (nodes ?s1)(p := (nodes s p)\<lparr>rb_right := ?tmp, rb_word := n OR RB_RED\<rparr>, g := (nodes s g)\<lparr>rb_left := n\<rparr>,
      n := (nodes s n)\<lparr>rb_left := p, rb_word := g OR RB_RED\<rparr>)" "rb_root s' = rb_root s"
  proof -
    have "nodes ?s1 p = (nodes s p)\<lparr>rb_right := ?tmp\<rparr>" "nodes ?s1 g = nodes s g" "nodes ?s1 n = (nodes s n)\<lparr>rb_left := p\<rparr>"
      using s1 [of p] s1 [of g] s1 [of n] d neq by auto
    then show "nodes s' = (nodes ?s1)(p := (nodes s p)\<lparr>rb_right := ?tmp, rb_word := n OR RB_RED\<rparr>, g := (nodes s g)\<lparr>rb_left := n\<rparr>,
        n := (nodes s n)\<lparr>rb_left := p, rb_word := g OR RB_RED\<rparr>)"
      using neq fields even
      by (simp add: s'_def case4_left_def Let_def set_parent_eq set_word_def set_left_def)
    show "rb_root s' = rb_root s"
      by (simp add: s'_def case4_left_def Let_def rb_ops)
  qed
  have same: "nodes s' x = nodes s x" if "x \<notin> set (addrs b)" "x \<noteq> p" "x \<noteq> g" "x \<noteq> n" for x
    using that s1 [of x] by (simp add: s')
  have "rep (nodes s') p ?tmp b" using b d by (auto simp: s')
  moreover have "rep (nodes s') p (rb_left (nodes s p)) a" "rep (nodes s') n (rb_right (nodes s n)) c"
      "rep (nodes s') g (rb_right (nodes s g)) u"
    by (rule rep_cong [OF sub(2)] rep_cong [OF sub(3)] rep_cong [OF sub(4)], rule same; use d in auto)+
  ultimately have "rep (nodes s') (above ctx) q (Bin (Bin (Bin a p Red b) n Red c) g Black u)"
    using neq fields by (simp add: s')
  moreover have "repc (nodes s') (rb_root s') q ctx"
    using repc_cong [OF ctx(1)] same d by (auto simp: s'(2))
  ultimately show "holds s' (Bin (Bin (Bin a p Red b) n Red c) g Black u) ctx"
    using d ok ctx(2,3) by (intro holdsI) auto
  show "untouched s s' (all_addrs ?t ctx)"
    using same by (simp add: untouched_def)
qed

section \<open>Mirror images\<close>

definition mirror_node :: "rb_node \<Rightarrow> rb_node" where
  "mirror_node n = n\<lparr>rb_left := rb_right n, rb_right := rb_left n\<rparr>"

lemma mirror_node [simp]: "mirror_node (mirror_node n) = n"
  by (simp add: mirror_node_def)

lemma mirror_node_inj [simp]: "mirror_node n = mirror_node n' \<longleftrightarrow> n = n'"
  by (metis mirror_node)

definition mirror :: "rbs \<Rightarrow> rbs" where
  "mirror s = s\<lparr>nodes := (\<lambda>a. mirror_node (nodes s a))\<rparr>"

primrec mirror_tree :: "rbt \<Rightarrow> rbt" where
  "mirror_tree Tip = Tip"
| "mirror_tree (Bin l a c r) = Bin (mirror_tree r) a c (mirror_tree l)"

fun mirror_frame :: "rbframe \<Rightarrow> rbframe" where
  "mirror_frame (In_left a c r) = In_right (mirror_tree r) a c"
| "mirror_frame (In_right l a c) = In_left a c (mirror_tree l)"

lemma mirror_mirror [simp]: "mirror (mirror s) = s" "mirror_tree (mirror_tree t) = t" "mirror_frame (mirror_frame f) = f"
proof -
  show t: "mirror_tree (mirror_tree t) = t" for t by (induction t) simp_all
  show "mirror_frame (mirror_frame f) = f" by (cases f) (simp_all add: t)
qed (simp add: mirror_def)

lemma mirror_fields [simp]:
  "rb_word (nodes (mirror s) a) = rb_word (nodes s a)" "rb_left (nodes (mirror s) a) = rb_right (nodes s a)"
  "rb_right (nodes (mirror s) a) = rb_left (nodes s a)" "rb_root (mirror s) = rb_root s"
  by (simp_all add: mirror_def mirror_node_def)

lemma mirror_addrs [simp]: "set (addrs (mirror_tree t)) = set (addrs t)" "distinct (addrs (mirror_tree t)) = distinct (addrs t)"
proof -
  have "addrs (mirror_tree t) = rev (addrs t)" by (induction t) simp_all
  then show "set (addrs (mirror_tree t)) = set (addrs t)" "distinct (addrs (mirror_tree t)) = distinct (addrs t)"
    by simp_all
qed

lemma mirror_position [simp]:
  "above (map mirror_frame ctx) = above ctx" "set (frame_addrs (map mirror_frame ctx)) = set (frame_addrs ctx)"
  "distinct (frame_addrs (map mirror_frame ctx)) = distinct (frame_addrs ctx)"
  by (induction ctx rule: frame_addrs.induct) auto

lemma mirror_rep [simp]: "rep (nodes (mirror s)) par p (mirror_tree t) = rep (nodes s) par p t"
  by (induction t arbitrary: par p) auto

lemma mirror_repc [simp]: "repc (nodes (mirror s)) root p (map mirror_frame ctx) = repc (nodes s) root p ctx"
  by (induction "nodes s" root p ctx rule: repc.induct) auto

lemma mirror_holds: "holds (mirror s) (mirror_tree t) (map mirror_frame ctx) = holds s t ctx"
  by (simp add: holds_def)

lemma mirror_untouched: "untouched (mirror s) (mirror s') A = untouched s s' A"
  by (simp add: untouched_def mirror_def)

lemma mirror_ops:
  "mirror (set_word n v s) = set_word n v (mirror s)" "mirror (set_left n v s) = set_right n v (mirror s)"
  "mirror (set_right n v s) = set_left n v (mirror s)" "mirror (RB_SET_PARENT n v s) = RB_SET_PARENT n v (mirror s)"
  "mirror (RB_SET_COLOR n v s) = RB_SET_COLOR n v (mirror s)" "mirror (set_parent_if n v s) = set_parent_if n v (mirror s)"
  "RB_GET_PARENT (mirror s) n = RB_GET_PARENT s n" "mirror (s\<lparr>rb_root := v\<rparr>) = (mirror s)\<lparr>rb_root := v\<rparr>"
  by (simp_all add: mirror_def mirror_node_def rb_ops fun_eq_iff)

lemma replace_top_old:
  "RB_GET_PARENT (RB_SET_COLOR g RB_RED (RB_SET_COLOR p RB_BLACK s)) g = RB_GET_PARENT s g"
  "rb_left (nodes (RB_SET_COLOR n c s) x) = rb_left (nodes s x)" "rb_right (nodes (RB_SET_COLOR n c s) x) = rb_right (nodes s x)"
  "rb_left (nodes (RB_SET_PARENT n c s) x) = rb_left (nodes s x)" "rb_right (nodes (RB_SET_PARENT n c s) x) = rb_right (nodes s x)"
  by (simp_all add: rb_ops)

lemma mirror_replace_top:
  assumes "RB_GET_PARENT s g \<noteq> NULL \<Longrightarrow> rb_left (nodes s (RB_GET_PARENT s g)) \<noteq> rb_right (nodes s (RB_GET_PARENT s g))"
  shows "mirror (replace_top g p s) = replace_top g p (mirror s)"
  using assms
  by (auto simp: replace_top_def Let_def replace_top_old mirror_ops)

lemma mirror_case4: "mirror (case4_left n p g (mirror s)) = case4_right n p g s"
  by (simp add: case4_left_def case4_right_def mirror_ops Let_def)

lemma mirror_case5:
  assumes "old = RB_GET_PARENT s g" "old \<noteq> NULL \<Longrightarrow> rb_left (nodes s old) \<noteq> rb_right (nodes s old)"
    and "old \<noteq> p" "old \<noteq> g" "p \<noteq> g" "tmp \<noteq> g"
  shows "mirror (case5_left tmp p g (mirror s)) = case5_right tmp p g s"
proof -
  let ?s1 = "set_parent_if tmp g (set_right g tmp (set_left p g s))"
  have "RB_GET_PARENT ?s1 g = old" "rb_left (nodes ?s1 old) = rb_left (nodes s old)" "rb_right (nodes ?s1 old) = rb_right (nodes s old)"
    using assms by (simp_all add: rb_ops)
  then have "mirror (replace_top g p ?s1) = replace_top g p (mirror ?s1)"
    using assms(2) by (intro mirror_replace_top) simp
  then have "mirror (replace_top g p (mirror ?s1)) = replace_top g p ?s1"
    by (metis mirror_mirror(1))
  then show ?thesis
    by (simp add: case5_left_def case5_right_def mirror_ops)
qed

lemma case4_right_holds:
  assumes "holds s (Bin u g Black (Bin (Bin c n Red b) p Red a)) ctx"
  defines "s' \<equiv> case4_right n p g s"
  shows "holds s' (Bin u g Black (Bin c n Red (Bin b p Red a))) ctx"
    and "untouched s s' (all_addrs (Bin u g Black (Bin (Bin c n Red b) p Red a)) ctx)"
proof -
  have s': "s' = mirror (case4_left n p g (mirror s))" by (simp add: s'_def mirror_case4)
  have "holds (mirror s) (Bin (Bin (mirror_tree a) p Red (Bin (mirror_tree b) n Red (mirror_tree c))) g Black (mirror_tree u))
      (map mirror_frame ctx)"
    using assms(1) mirror_holds [of s "Bin u g Black (Bin (Bin c n Red b) p Red a)" ctx] by simp
  note left = case4_left_holds [OF this]
  show "holds s' (Bin u g Black (Bin c n Red (Bin b p Red a))) ctx"
    using left(1) mirror_holds [of s' "Bin u g Black (Bin c n Red (Bin b p Red a))" ctx] by (simp add: s')
  show "untouched s s' (all_addrs (Bin u g Black (Bin (Bin c n Red b) p Red a)) ctx)"
    using left(2) mirror_untouched [of s s'] by (simp add: s' ac_simps insert_commute Un_commute)
qed

lemma case5_right_holds:
  assumes "holds s (Bin u g Black (Bin b p Red a)) ctx"
  defines "s' \<equiv> case5_right (rb_left (nodes s p)) p g s"
  shows "holds s' (Bin (Bin u g Red b) p Black a) ctx"
    and "untouched s s' (all_addrs (Bin u g Black (Bin b p Red a)) ctx)"
proof -
  from assms(1) obtain q where rep: "rep (nodes s) (above ctx) q (Bin u g Black (Bin b p Red a))"
      and ctx: "repc (nodes s) (rb_root s) q ctx" "\<not> bit (above ctx) 0"
      and d: "distinct (addrs (Bin u g Black (Bin b p Red a)))" "set (addrs (Bin u g Black (Bin b p Red a))) \<inter> set (frame_addrs ctx) = {}"
      and ok: "\<And>x. x \<in> set (addrs (Bin u g Black (Bin b p Red a))) \<Longrightarrow> node_addr x"
    by (rule holdsE) blast
  have g: "g \<noteq> 0" "p \<noteq> 0" "p \<noteq> g" using ok d by (auto simp: node_addr_def)
  have "rb_word (nodes s g) = above ctx OR colbit Black" "q = g" using rep by simp_all
  then have parent: "RB_GET_PARENT s g = above ctx" using ctx(2) by (simp add: RB_GET_PARENT_def)
  have children: "rb_left (nodes s (above ctx)) \<noteq> rb_right (nodes s (above ctx))" if "above ctx \<noteq> NULL"
  proof (cases ctx rule: above.cases)
    case (2 x c r ctx')
    then show ?thesis
      using ctx(1) d(2) g(1) \<open>q = g\<close> rep_pointer [of "nodes s" x "rb_right (nodes s x)" r g] by auto
  next
    case (3 l x c ctx')
    then show ?thesis
      using ctx(1) d(2) g(1) \<open>q = g\<close> rep_pointer [of "nodes s" x "rb_left (nodes s x)" l g] by auto
  qed (use that in simp)
  have "above ctx = 0 \<or> above ctx \<in> set (frame_addrs ctx)" by (cases ctx rule: above.cases) simp_all
  then have old: "above ctx \<noteq> p" "above ctx \<noteq> g" using d(2) g by auto
  have "rb_left (nodes s p) \<noteq> g"
    using rep d(1) g(1) rep_pointer [of "nodes s" p "rb_left (nodes s p)" b g] by auto
  note old = parent [symmetric] children old g(3) this
  have s': "s' = mirror (case5_left (rb_right (nodes (mirror s) p)) p g (mirror s))"
    by (simp add: s'_def mirror_case5 [OF old])
  have "holds (mirror s) (Bin (Bin (mirror_tree a) p Red (mirror_tree b)) g Black (mirror_tree u)) (map mirror_frame ctx)"
    using assms(1) mirror_holds [of s "Bin u g Black (Bin b p Red a)" ctx] by simp
  note left = case5_left_holds [OF this]
  show "holds s' (Bin (Bin u g Red b) p Black a) ctx"
    using left(1) mirror_holds [of s' "Bin (Bin u g Red b) p Black a" ctx] by (simp add: s')
  show "untouched s s' (all_addrs (Bin u g Black (Bin b p Red a)) ctx)"
    using left(2) mirror_untouched [of s s'] by (simp add: s' ac_simps insert_commute Un_commute)
qed

section \<open>The red-black invariant\<close>

fun rbcolour :: "rbt \<Rightarrow> rbcolor" where
  "rbcolour Tip = Black"
| "rbcolour (Bin l a c r) = c"

primrec bh :: "rbt \<Rightarrow> nat" where
  "bh Tip = 0"
| "bh (Bin l a c r) = (if c = Black then bh l + 1 else bh l)"

text \<open>No red node has a red child, and all paths have the same number of black nodes.\<close>

primrec balanced :: "rbt \<Rightarrow> bool" where
  "balanced Tip = True"
| "balanced (Bin l a c r) \<longleftrightarrow> balanced l \<and> balanced r \<and> bh l = bh r \<and>
     (c = Red \<longrightarrow> rbcolour l = Black \<and> rbcolour r = Black)"

fun black_above :: "position \<Rightarrow> bool" where
  "black_above [] = False"
| "black_above (In_left a c r # ctx) = (c = Black)"
| "black_above (In_right l a c # ctx) = (c = Black)"

text \<open>The surroundings of a hole that takes a subtree of black height k.\<close>

fun position_ok :: "position \<Rightarrow> nat \<Rightarrow> bool" where
  "position_ok [] k = True"
| "position_ok (In_left a c r # ctx) k \<longleftrightarrow> balanced r \<and> bh r = k \<and>
     (c = Red \<longrightarrow> rbcolour r = Black \<and> black_above ctx) \<and> position_ok ctx (if c = Black then k + 1 else k)"
| "position_ok (In_right l a c # ctx) k \<longleftrightarrow> balanced l \<and> bh l = k \<and>
     (c = Red \<longrightarrow> rbcolour l = Black \<and> black_above ctx) \<and> position_ok ctx (if c = Black then k + 1 else k)"

definition fits :: "rbt \<Rightarrow> position \<Rightarrow> bool" where
  "fits t ctx \<longleftrightarrow> balanced t \<and> position_ok ctx (bh t) \<and> (rbcolour t = Red \<longrightarrow> black_above ctx)"

definition rb_tree :: "rbt \<Rightarrow> bool" where
  "rb_tree t \<longleftrightarrow> balanced t \<and> rbcolour t = Black"

lemma neq_colour [simp]: "c \<noteq> Red \<longleftrightarrow> c = Black" "c \<noteq> Black \<longleftrightarrow> c = Red"
  by (cases c; simp)+

lemma fits_top: "fits t [] \<longleftrightarrow> rb_tree t"
  by (auto simp: fits_def rb_tree_def)

lemma fits_up:
  "fits (Bin t a c r) ctx \<longleftrightarrow> fits t (In_left a c r # ctx)"
  "fits (Bin l a c t) ctx \<longleftrightarrow> fits t (In_right l a c # ctx)"
  by (cases c; auto simp: fits_def)+

lemma fits_plug: "fits t ctx \<longleftrightarrow> rb_tree (plug t ctx)"
  by (induction t ctx rule: plug.induct) (simp_all add: fits_top flip: fits_up)

lemma holds_up:
  "holds s (Bin t a c r) ctx \<longleftrightarrow> holds s t (In_left a c r # ctx)"
  "holds s (Bin l a c t) ctx \<longleftrightarrow> holds s t (In_right l a c # ctx)"
  by (auto simp: holds_def)

lemma holds_plug: "holds s t ctx \<longleftrightarrow> holds s (plug t ctx) []"
  by (induction t ctx rule: plug.induct) (simp_all flip: holds_up)

lemma addrs_plug: "addrs t = addrs t' \<Longrightarrow> addrs (plug t ctx) = addrs (plug t' ctx)"
  by (induction t ctx arbitrary: t' rule: plug.induct) auto

lemma set_addrs_plug: "set (addrs (plug t ctx)) = all_addrs t ctx"
  by (induction t ctx rule: plug.induct) auto

section \<open>The loop restores the invariant\<close>

lemma uncle_red:
  assumes "rep (nodes s) par q t" and "\<not> bit par 0" and "\<And>a. a \<in> set (addrs t) \<Longrightarrow> node_addr a"
  shows "(q \<noteq> NULL \<and> RB_GET_COLOR s q = RB_RED) \<longleftrightarrow> rbcolour t = Red"
  using assms by (cases t) (auto simp: RB_GET_COLOR_def node_addr_def)

lemma recolor_holds:
  assumes "holds s (Bin (Bin l a Red r) g Black (Bin l' b Red r')) ctx"
    and "recolor x y g s = s' \<and> {x, y} = {a, b}"
  shows "holds s' (Bin (Bin l a Black r) g Red (Bin l' b Black r')) ctx"
    and "untouched s s' {a, b, g}"
proof -
  let ?t = "Bin (Bin l a Red r) g Black (Bin l' b Red r')"
  from assms(1) obtain q where rep: "rep (nodes s) (above ctx) q ?t"
      and ctx: "repc (nodes s) (rb_root s) q ctx" "distinct (frame_addrs ctx)"
        "\<And>x. x \<in> set (frame_addrs ctx) \<Longrightarrow> node_addr x" "\<not> bit (above ctx) 0"
      and d: "distinct (addrs ?t)" "set (addrs ?t) \<inter> set (frame_addrs ctx) = {}"
      and ok: "\<And>x. x \<in> set (addrs ?t) \<Longrightarrow> node_addr x"
    by (rule holdsE) blast
  have neq: "a \<noteq> g" "g \<noteq> a" "b \<noteq> g" "g \<noteq> b" "a \<noteq> b" "b \<noteq> a" using d by auto
  have even: "\<not> bit a 0" "\<not> bit b 0" "\<not> bit g 0" using ok by (auto simp: node_addr_def)
  have s': "s' = s\<lparr>nodes := (nodes s)(a := (nodes s a)\<lparr>rb_word := g OR RB_BLACK\<rparr>, b := (nodes s b)\<lparr>rb_word := g OR RB_BLACK\<rparr>,
      g := (nodes s g)\<lparr>rb_word := above ctx OR RB_RED\<rparr>)\<rparr>"
    using assms(2) rep neq even ctx(4)
    by (auto simp: recolor_def rb_ops doubleton_eq_iff fun_upd_twist)
  show "holds s' (Bin (Bin l a Black r) g Red (Bin l' b Black r')) ctx"
    using rep ctx d ok neq by (intro holdsI) (auto simp: s')
  show "untouched s s' {a, b, g}"
    by (simp add: s' untouched_def)
qed

lemma untouched_trans: "untouched s s1 A \<Longrightarrow> untouched s1 s2 B \<Longrightarrow> A \<union> B \<subseteq> C \<Longrightarrow> untouched s s2 C"
  unfolding untouched_def by (metis Un_iff subsetD)

text \<open>Where the loop stands: a red node whose surroundings are in order but for a red parent.\<close>

definition stands :: "rbs \<Rightarrow> rbt \<Rightarrow> addr \<Rightarrow> rbt \<Rightarrow> position \<Rightarrow> bool" where
  "stands s l n r ctx \<longleftrightarrow> holds s (Bin l n Red r) ctx \<and> balanced (Bin l n Red r) \<and> position_ok ctx (bh (Bin l n Red r))"

text \<open>What the loop achieves from there.\<close>

definition repaired :: "rbs \<Rightarrow> rbt \<Rightarrow> position \<Rightarrow> rbs run \<Rightarrow> bool" where
  "repaired s t ctx result \<longleftrightarrow>
     (\<exists>s' t'. result = Ret s' \<and> holds s' t' [] \<and> rb_tree t' \<and> addrs t' = addrs (plug t ctx) \<and>
        untouched s s' (all_addrs t ctx))"

lemma repairedI:
  assumes "holds s' t' ctx'" and "fits t' ctx'" and "addrs (plug t' ctx') = addrs (plug t ctx)"
    and "untouched s s' (all_addrs t ctx)"
  shows "repaired s t ctx (Ret s')"
  using assms unfolding repaired_def holds_plug [of s' t' ctx'] fits_plug by blast

lemma parent_facts:
  assumes "holds s t ctx" and "ctx \<noteq> []"
  shows "above ctx \<noteq> NULL" and "RB_GET_COLOR s (above ctx) = RB_BLACK \<longleftrightarrow> black_above ctx"
    and "RB_GET_PARENT s (above ctx) = above (tl ctx)"
proof -
  from assms(2) show "above ctx \<noteq> NULL"
    using assms(1) by (cases ctx rule: above.cases) (auto simp: holds_def node_addr_def)
  obtain c where w: "rb_word (nodes s (above ctx)) = above (tl ctx) OR colbit c" "black_above ctx \<longleftrightarrow> c = Black"
    using assms by (cases ctx rule: above.cases) (auto simp: holds_def)
  have "\<not> bit (above (tl ctx)) 0"
  proof -
    have "above (tl ctx) = 0 \<or> node_addr (above (tl ctx))"
      using assms by (cases ctx rule: above.cases; cases "tl ctx" rule: above.cases) (auto simp: holds_def)
    then show ?thesis by (auto simp: node_addr_def)
  qed
  then show "RB_GET_COLOR s (above ctx) = RB_BLACK \<longleftrightarrow> black_above ctx" "RB_GET_PARENT s (above ctx) = above (tl ctx)"
    using w by (simp_all add: RB_GET_COLOR_def RB_GET_PARENT_def)
qed

lemma loop_done:
  assumes "stands s l n r ctx" and "ctx = [] \<or> black_above ctx"
  shows "repaired s (Bin l n Red r) ctx (rb_loop n (above ctx) s)"
proof (cases "ctx = []")
  case True
  have h: "holds s (Bin l n Red r) []" and b: "balanced (Bin l n Red r)"
    using assms True by (simp_all add: stands_def)
  have "holds (RB_SET_COLOR n RB_BLACK s) (Bin l n Black r) []"
    using h by (auto simp: holds_def RB_SET_COLOR_def set_word_def RB_RED_def)
  moreover have "fits (Bin l n Black r) []" using b by (simp add: fits_def)
  moreover have "untouched s (RB_SET_COLOR n RB_BLACK s) (all_addrs (Bin l n Red r) [])"
    by (simp add: untouched_def RB_SET_COLOR_def set_word_def)
  ultimately show ?thesis
    unfolding True by (subst rb_loop.simps) (simp add: repairedI)
next
  case False
  with assms have h: "holds s (Bin l n Red r) ctx" "fits (Bin l n Red r) ctx" "black_above ctx"
    by (auto simp: stands_def fits_def)
  have "rb_loop n (above ctx) s = Ret s"
    using parent_facts [OF h(1) False] h(3) by (subst rb_loop.simps) simp
  then show ?thesis using repairedI [OF h(1,2)] by (simp add: untouched_def)
qed

lemma recolor_step:
  assumes h: "holds s (Bin (Bin a p Red b) g Black (Bin a' x Red b')) up"
    and bal: "balanced (Bin a p Black b)" "balanced (Bin a' x Black b')" "bh a = bh a'" "position_ok up (Suc (bh a))"
    and s1: "recolor y z g s = s1 \<and> {y, z} = {p, x}"
    and IH: "\<And>s l n r. stands s l n r up \<Longrightarrow> repaired s (Bin l n Red r) up (rb_loop n (above up) s)"
  shows "repaired s (Bin (Bin a p Red b) g Black (Bin a' x Red b')) up (rb_loop g (RB_GET_PARENT s1 g) s1)"
proof -
  let ?t = "Bin (Bin a p Red b) g Black (Bin a' x Red b')"
  note s1_holds = recolor_holds [OF h s1]
  have "stands s1 (Bin a p Black b) g (Bin a' x Black b') up"
    using s1_holds(1) bal by (simp add: stands_def)
  then have "repaired s1 (Bin (Bin a p Black b) g Red (Bin a' x Black b')) up (rb_loop g (above up) s1)"
    by (rule IH)
  moreover have "RB_GET_PARENT s1 g = above up"
    using s1_holds(1) above_even [OF s1_holds(1)] by (auto simp: RB_GET_PARENT_def holds_def RB_RED_def)
  ultimately obtain s' t' where "rb_loop g (RB_GET_PARENT s1 g) s1 = Ret s'" "holds s' t' []" "rb_tree t'"
      "addrs t' = addrs (plug (Bin (Bin a p Black b) g Red (Bin a' x Black b')) up)"
      "untouched s1 s' (all_addrs ?t up)"
    by (auto simp: repaired_def)
  moreover have "untouched s s' (all_addrs ?t up)"
    by (rule untouched_trans [OF s1_holds(2) \<open>untouched s1 s' _\<close>]) auto
  ultimately show ?thesis
    using addrs_plug [of "Bin (Bin a p Black b) g Red (Bin a' x Black b')" ?t up] by (auto simp: repaired_def)
qed

lemma node_fields:
  assumes "holds s (Bin a p c b) ctx"
  shows "p \<noteq> NULL" and "RB_GET_COLOR s p = colbit c" and "RB_GET_PARENT s p = above ctx"
  using assms above_even [OF assms] by (auto simp: holds_def node_addr_def RB_GET_COLOR_def RB_GET_PARENT_def)

lemma red_not_black [simp]: "RB_RED \<noteq> RB_BLACK" "RB_BLACK \<noteq> RB_RED"
  by (simp_all add: RB_RED_def RB_BLACK_def)

text \<open>A red parent that is the left child of its parent, with the node on either side.\<close>

lemma loop_left:
  assumes h: "holds s (Bin (Bin a p Red b) g Black u) up"
    and bal: "balanced a" "balanced b" "balanced u" "bh a = bh u" "bh b = bh u" "position_ok up (Suc (bh u))"
    and node: "a = Bin l n Red r \<and> rbcolour b = Black \<or> b = Bin l n Red r \<and> rbcolour a = Black"
    and IH: "\<And>s l n r. stands s l n r up \<Longrightarrow> repaired s (Bin l n Red r) up (rb_loop n (above up) s)"
  shows "repaired s (Bin (Bin a p Red b) g Black u) up (rb_loop n p s)"
proof -
  let ?t = "Bin (Bin a p Red b) g Black u"
  have "holds s (Bin a p Red b) (In_left g Black u # up)" using h by (simp add: holds_up)
  note parent = node_fields [OF this]
  from h obtain q where rep: "rep (nodes s) (above up) q ?t" and d: "distinct (addrs ?t)"
      and ok: "\<And>x. x \<in> set (addrs ?t) \<Longrightarrow> node_addr x"
    by (rule holdsE) blast
  let ?tmp = "rb_right (nodes s g)"
  have "n \<in> set (addrs ?t)" using node by auto
  then have g: "g \<noteq> NULL" "\<not> bit g 0" "p \<noteq> 0" "n \<noteq> 0" using ok [of n] ok [of p] ok [of g] by (auto simp: node_addr_def)
  have tmp: "rep (nodes s) g ?tmp u" using rep by simp
  then have "p \<noteq> ?tmp" using rep_pointer [of "nodes s" g ?tmp u p] d g by auto
  have red: "(?tmp \<noteq> NULL \<and> RB_GET_COLOR s ?tmp = RB_RED) \<longleftrightarrow> rbcolour u = Red"
    using uncle_red [OF tmp g(2)] ok by simp
  show ?thesis
  proof (cases "rbcolour u")
    case Red
    then obtain a' x b' where u: "u = Bin a' x Red b'" by (cases u) auto
    have "?tmp = x" using tmp u by simp
    then have "rb_loop n p s = rb_loop g (RB_GET_PARENT (recolor x p g s) g) (recolor x p g s)"
      using parent g red \<open>p \<noteq> ?tmp\<close> Red by (subst rb_loop.simps) (simp add: Let_def)
    moreover have "repaired s ?t up (rb_loop g (RB_GET_PARENT (recolor x p g s) g) (recolor x p g s))"
      unfolding u by (rule recolor_step [OF h [unfolded u] _ _ _ _ _ IH, of x p]) (use bal u node in auto)
    ultimately show ?thesis by simp
  next
    case Black
    then have loop: "rb_loop n p s = Ret (rotate_left_case n p g s)"
      using parent g red \<open>p \<noteq> ?tmp\<close> by (subst rb_loop.simps) (auto simp: Let_def)
    show ?thesis
    proof (cases "n = rb_right (nodes s p)")
      case False
      then have a: "a = Bin l n Red r" "rbcolour b = Black" using node rep by auto
      have "rotate_left_case n p g s = case5_left (rb_right (nodes s p)) p g s"
        using False by (simp add: rotate_left_case_def)
      then show ?thesis
        unfolding loop using case5_left_holds [OF h] bal a Black
        by (intro repairedI [of _ "Bin a p Black (Bin b g Red u)" up]) (auto simp: fits_def intro: addrs_plug)
    next
      case True
      have b: "b = Bin l n Red r" "rbcolour a = Black"
        using node True d rep rep_pointer [of "nodes s" p "rb_right (nodes s p)" b n] g by auto
      let ?s1 = "case4_left n p g s"
      note s1 = case4_left_holds [OF h [unfolded b]]
      have "rotate_left_case n p g s = case5_left (rb_right (nodes ?s1 n)) n g ?s1"
        using True by (simp add: rotate_left_case_def Let_def)
      moreover note s2 = case5_left_holds [OF s1(1)]
      moreover have "untouched s (case5_left (rb_right (nodes ?s1 n)) n g ?s1) (all_addrs ?t up)"
        by (rule untouched_trans [OF s1(2) s2(2)]) (auto simp: b)
      ultimately show ?thesis
        unfolding loop using bal b Black
        by (intro repairedI [of _ "Bin (Bin a p Red l) n Black (Bin r g Red u)" up]) (auto simp: fits_def intro: addrs_plug)
    qed
  qed
qed

lemma loop_right:
  assumes h: "holds s (Bin u g Black (Bin b p Red a)) up"
    and bal: "balanced a" "balanced b" "balanced u" "bh a = bh u" "bh b = bh u" "position_ok up (Suc (bh u))"
    and node: "a = Bin l n Red r \<and> rbcolour b = Black \<or> b = Bin l n Red r \<and> rbcolour a = Black"
    and IH: "\<And>s l n r. stands s l n r up \<Longrightarrow> repaired s (Bin l n Red r) up (rb_loop n (above up) s)"
  shows "repaired s (Bin u g Black (Bin b p Red a)) up (rb_loop n p s)"
proof -
  let ?t = "Bin u g Black (Bin b p Red a)"
  have "holds s (Bin b p Red a) (In_right u g Black # up)" using h by (simp only: holds_up(2))
  note parent = node_fields [OF this]
  from h obtain q where rep: "rep (nodes s) (above up) q ?t" and d: "distinct (addrs ?t)"
      and ok: "\<And>x. x \<in> set (addrs ?t) \<Longrightarrow> node_addr x"
    by (rule holdsE) blast
  let ?tmp = "rb_left (nodes s g)"
  have "n \<in> set (addrs ?t)" using node by auto
  then have g: "g \<noteq> NULL" "\<not> bit g 0" "p \<noteq> 0" "n \<noteq> 0" using ok [of n] ok [of p] ok [of g] by (auto simp: node_addr_def)
  have tmp: "rep (nodes s) g ?tmp u" and "p = rb_right (nodes s g)" using rep by simp_all
  have red: "(?tmp \<noteq> NULL \<and> RB_GET_COLOR s ?tmp = RB_RED) \<longleftrightarrow> rbcolour u = Red"
    using uncle_red [OF tmp g(2)] ok by simp
  show ?thesis
  proof (cases "rbcolour u")
    case Red
    then obtain a' x b' where u: "u = Bin a' x Red b'" by (cases u) auto
    have "?tmp = x" using tmp u by simp
    then have "rb_loop n p s = rb_loop g (RB_GET_PARENT (recolor x p g s) g) (recolor x p g s)"
      using parent g red \<open>p = _\<close> Red by (subst rb_loop.simps) (simp add: Let_def)
    moreover have "repaired s ?t up (rb_loop g (RB_GET_PARENT (recolor x p g s) g) (recolor x p g s))"
      unfolding u by (rule recolor_step [OF h [unfolded u] _ _ _ _ _ IH, of x p]) (use bal u node in auto)
    ultimately show ?thesis by simp
  next
    case Black
    then have loop: "rb_loop n p s = Ret (rotate_right_case n p g s)"
      using parent g red \<open>p = _\<close> by (subst rb_loop.simps) (auto simp: Let_def)
    show ?thesis
    proof (cases "n = rb_left (nodes s p)")
      case False
      then have a: "a = Bin l n Red r" "rbcolour b = Black" using node rep by auto
      have "rotate_right_case n p g s = case5_right (rb_left (nodes s p)) p g s"
        using False by (simp add: rotate_right_case_def)
      then show ?thesis
        unfolding loop using case5_right_holds [OF h] bal a Black
        by (intro repairedI [of _ "Bin (Bin u g Red b) p Black a" up]) (auto simp: fits_def intro: addrs_plug)
    next
      case True
      have b: "b = Bin l n Red r" "rbcolour a = Black"
        using node True d rep rep_pointer [of "nodes s" p "rb_left (nodes s p)" b n] g by auto
      let ?s1 = "case4_right n p g s"
      note s1 = case4_right_holds [OF h [unfolded b]]
      have "rotate_right_case n p g s = case5_right (rb_left (nodes ?s1 n)) n g ?s1"
        using True by (simp add: rotate_right_case_def Let_def)
      moreover note s2 = case5_right_holds [OF s1(1)]
      moreover have "untouched s (case5_right (rb_left (nodes ?s1 n)) n g ?s1) (all_addrs ?t up)"
        by (rule untouched_trans [OF s1(2) s2(2)]) (auto simp: b)
      ultimately show ?thesis
        unfolding loop using bal b Black
        by (intro repairedI [of _ "Bin (Bin u g Red l) n Black (Bin r p Red a)" up]) (auto simp: fits_def intro: addrs_plug)
    qed
  qed
qed

lemma rb_loop_repairs:
  "stands s l n r ctx \<Longrightarrow> repaired s (Bin l n Red r) ctx (rb_loop n (above ctx) s)"
proof (induction "length ctx" arbitrary: s l n r ctx rule: less_induct)
  case less
  show ?case
  proof (cases "ctx = [] \<or> black_above ctx")
    case True
    then show ?thesis using loop_done [OF less.prems] by blast
  next
    case False
    then obtain f ctx' where ctx: "ctx = f # ctx'" "\<not> black_above (f # ctx')" by (cases ctx) auto
    from less.prems have h: "holds s (Bin l n Red r) (f # ctx')" and bal: "balanced (Bin l n Red r)"
      and pos: "position_ok (f # ctx') (bh l)"
      by (auto simp: stands_def ctx(1))
    have "black_above ctx'" using pos ctx(2) by (cases f) auto
    then obtain f' up where ctx': "ctx' = f' # up" by (cases ctx') auto
    have IH: "repaired s (Bin l n Red r) up (rb_loop n (above up) s)" if "stands s l n r up" for s l n r
      using less.hyps that ctx(1) ctx' by simp
    obtain p par a b where par: "above ctx = p" "par = Bin a p Red b" "holds s par (f' # up)"
        "addrs (plug par (f' # up)) = addrs (plug (Bin l n Red r) ctx)" "all_addrs par (f' # up) = all_addrs (Bin l n Red r) ctx"
        "a = Bin l n Red r \<and> rbcolour b = Black \<or> b = Bin l n Red r \<and> rbcolour a = Black"
        "balanced a" "balanced b" "bh a = bh l" "bh b = bh l" "position_ok (f' # up) (bh l)"
    proof (cases f)
      case (In_left p c r2)
      then show thesis using that [of p "Bin (Bin l n Red r) p Red r2" "Bin l n Red r" r2] h bal pos ctx ctx'
        by (auto simp: holds_up)
    next
      case (In_right l2 p c)
      then show thesis using that [of p "Bin l2 p Red (Bin l n Red r)" l2 "Bin l n Red r"] h bal pos ctx ctx'
        by (auto simp flip: holds_up(2))
    qed
    have "repaired s (plug par [f']) up (rb_loop n p s)"
    proof (cases f')
      case (In_left g c u)
      then show ?thesis
        using loop_left [of s a p b g u up l n r, OF _ par(7,8) _ _ _ _ par(6) IH] par \<open>black_above ctx'\<close> ctx'
        by (simp add: holds_up)
    next
      case (In_right u g c)
      then show ?thesis
        using loop_right [of s u g a p b up l n r, OF _ par(8,7) _ _ _ _ _ IH] par \<open>black_above ctx'\<close> ctx'
        by (simp add: holds_up(2) disj_commute)
    qed
    moreover have "addrs (plug (plug par [f']) up) = addrs (plug (Bin l n Red r) ctx)"
        "all_addrs (plug par [f']) up = all_addrs (Bin l n Red r) ctx"
      using par(4,5) by (cases f'; auto)+
    ultimately show ?thesis by (simp add: repaired_def par(1))
  qed
qed

section \<open>Insertion\<close>

fun link_of :: "position \<Rightarrow> rb_link" where
  "link_of [] = Link_root"
| "link_of (In_left a c r # ctx) = Link_left a"
| "link_of (In_right l a c # ctx) = Link_right a"

text \<open>The nodes before and after a position, in order.\<close>

fun nodes_before :: "position \<Rightarrow> addr list" where
  "nodes_before [] = []"
| "nodes_before (In_left a c r # ctx) = nodes_before ctx"
| "nodes_before (In_right l a c # ctx) = nodes_before ctx @ addrs l @ [a]"

fun nodes_after :: "position \<Rightarrow> addr list" where
  "nodes_after [] = []"
| "nodes_after (In_left a c r # ctx) = a # addrs r @ nodes_after ctx"
| "nodes_after (In_right l a c # ctx) = nodes_after ctx"

lemma addrs_at: "addrs (plug t ctx) = nodes_before ctx @ addrs t @ nodes_after ctx"
  by (induction t ctx rule: plug.induct) simp_all

lemma link_holds:
  assumes "holds s Tip ctx" and "node_addr n" and "n \<notin> set (frame_addrs ctx)"
  defines "s' \<equiv> rb_link_node n (above ctx) (link_of ctx) s"
  shows "holds s' (Bin Tip n Red Tip) ctx" and "untouched s s' (insert n (set (frame_addrs ctx)))"
    and "RB_GET_PARENT s' n = above ctx"
proof -
  obtain p where ctx: "repc (nodes s) (rb_root s) p ctx" "distinct (frame_addrs ctx)"
      "\<And>x. x \<in> set (frame_addrs ctx) \<Longrightarrow> node_addr x" "\<not> bit (above ctx) 0"
    using assms(1) by (rule holdsE) blast
  have "nodes s' n = \<lparr>rb_word = above ctx OR RB_RED, rb_left = 0, rb_right = 0\<rparr>"
    by (cases ctx rule: above.cases) (simp_all add: s'_def rb_link_node_def RB_SET_PARENT_COLOR_def set_word_def Let_def)
  moreover have "repc (nodes s') (rb_root s') n ctx"
    using ctx assms(3)
    by (cases ctx rule: above.cases)
      (auto simp: s'_def rb_link_node_def RB_SET_PARENT_COLOR_def set_word_def Let_def set_left_def set_right_def)
  ultimately show "holds s' (Bin Tip n Red Tip) ctx" "RB_GET_PARENT s' n = above ctx"
    using ctx assms(2,3) by (auto intro!: holdsI simp: RB_GET_PARENT_def)
  show "untouched s s' (insert n (set (frame_addrs ctx)))"
    by (cases ctx rule: above.cases)
      (auto simp: untouched_def s'_def rb_link_node_def RB_SET_PARENT_COLOR_def set_word_def Let_def set_left_def set_right_def)
qed

text \<open>
  C29: Insertion into a red-black tree. A tree in memory is a structure of nodes at even, non-zero,
  distinct addresses whose left, right and parent pointers and colours agree; it is red-black when no
  red node has a red child, the root is black and every path has the same number of black nodes. For
  any position of such a tree (a place where a pointer is NULL), linking a new node there with
  rb_link_node and calling rbtree_insert returns, leaves a structure that is again a red-black tree,
  whose nodes in order are the old ones with the new node at that position, and writes no other node.
\<close>
theorem rbtree_insert_correct:
  assumes "holds s (plug Tip ctx) []" and "rb_tree (plug Tip ctx)"
    and "node_addr n" and "n \<notin> set (addrs (plug Tip ctx))"
  shows "\<exists>s' t. rbtree_insert n (rb_link_node n (above ctx) (link_of ctx) s) = Ret s' \<and> holds s' t [] \<and> rb_tree t \<and>
    addrs (plug Tip ctx) = nodes_before ctx @ nodes_after ctx \<and> addrs t = nodes_before ctx @ n # nodes_after ctx \<and>
    untouched s s' (insert n (set (addrs (plug Tip ctx))))"
proof -
  let ?s1 = "rb_link_node n (above ctx) (link_of ctx) s"
  have tip: "holds s Tip ctx" "fits Tip ctx" "n \<notin> set (frame_addrs ctx)"
    using assms by (simp_all add: set_addrs_plug fits_plug flip: holds_plug)
  note link = link_holds [OF tip(1) assms(3) tip(3)]
  have "stands ?s1 Tip n Tip ctx"
    using link(1) tip(2) by (simp add: stands_def fits_def)
  then obtain s' t where "rb_loop n (above ctx) ?s1 = Ret s'" "holds s' t []" "rb_tree t"
      "addrs t = addrs (plug (Bin Tip n Red Tip) ctx)" "untouched ?s1 s' (all_addrs (Bin Tip n Red Tip) ctx)"
    using rb_loop_repairs by (fastforce simp: repaired_def)
  moreover have "untouched s s' (insert n (set (addrs (plug Tip ctx))))"
    by (rule untouched_trans [OF link(2) \<open>untouched ?s1 s' _\<close>]) (auto simp: set_addrs_plug)
  moreover have "rbtree_insert n ?s1 = rb_loop n (above ctx) ?s1"
    using assms(3) link(3) by (simp add: rbtree_insert_def node_addr_def)
  ultimately show ?thesis by (simp add: addrs_at) blast
qed

definition two_nodes :: rbs where
  "two_nodes = \<lparr>nodes = (\<lambda>a. if a = 0x20 then \<lparr>rb_word = 1, rb_left = 0, rb_right = 0x30\<rparr>
     else \<lparr>rb_word = 0x20, rb_left = 0, rb_right = 0\<rparr>), rb_root = 0x20\<rparr>"

theorem rbtree_insert_correct_witness:
  "\<exists>s' t. rbtree_insert 0x40 (rb_link_node 0x40 0x30 (Link_right 0x30) two_nodes) = Ret s' \<and> holds s' t [] \<and>
     rb_tree t \<and> addrs t = [0x20, 0x30, 0x40]"
proof -
  let ?ctx = "[In_right Tip 0x30 Red, In_right Tip 0x20 Black]"
  have "holds two_nodes (plug Tip ?ctx) []" "rb_tree (plug Tip ?ctx)" "node_addr 0x40"
    by (auto simp: holds_def two_nodes_def rb_tree_def node_addr_def RB_RED_def RB_BLACK_def)
  from rbtree_insert_correct [OF this] show ?thesis by auto
qed

end
