(* ===== verification/Scatterlist.thy ===== *)
theory Scatterlist
  imports Libc_Mem
begin

text \<open>
  Scatter lists (libc/scatterlist.c): arrays of entries of 12 bytes in memory, with the page address
  and flag bits at 0, the offset in the page at 4 and the length at 8. Bit 0 of the first word
  chains to another array, bit 1 marks the last entry, bits 2 to 11 are the user's. An iterator is
  a local structure of the caller, modelled as a record.
\<close>

section \<open>Entries\<close>

definition SCATTERLIST_IS_CHAIN :: "mem \<Rightarrow> addr \<Rightarrow> bool" where
  "SCATTERLIST_IS_CHAIN m s \<longleftrightarrow> ld32 m s AND 0x1 \<noteq> 0"

definition SCATTERLIST_IS_LAST :: "mem \<Rightarrow> addr \<Rightarrow> bool" where
  "SCATTERLIST_IS_LAST m s \<longleftrightarrow> ld32 m s AND 0x2 \<noteq> 0"

definition SCATTERLIST_NEXT_CHAIN :: "mem \<Rightarrow> addr \<Rightarrow> addr" where
  "SCATTERLIST_NEXT_CHAIN m s = ld32 m s AND NOT 0x3"

definition SCATTERLIST_PAGE_ADDR :: "mem \<Rightarrow> addr \<Rightarrow> u32" where
  "SCATTERLIST_PAGE_ADDR m s = ld32 m s AND NOT (kb 4 - 1)"

definition SCATTERLIST_SET_CHAIN :: "addr \<Rightarrow> mem \<Rightarrow> mem" where
  "SCATTERLIST_SET_CHAIN s m = st32 m s (SET_BIT (ld32 m s) 0x1)"

definition SCATTERLIST_SET_ADDR :: "addr \<Rightarrow> u32 \<Rightarrow> mem \<Rightarrow> mem" where
  "SCATTERLIST_SET_ADDR s a m = st32 m s ((ld32 m s AND 0x3) OR a)"

definition SCATTERLIST_SET_LAST :: "addr \<Rightarrow> mem \<Rightarrow> mem" where
  "SCATTERLIST_SET_LAST s m = st32 m s (SET_BIT (ld32 m s) 0x2)"

definition sl_get_buffer :: "mem \<Rightarrow> addr \<Rightarrow> addr" where
  "sl_get_buffer m sl = SCATTERLIST_PAGE_ADDR m sl + ld32 m (sl + 4)"

definition sl_list_init :: "addr \<Rightarrow> u32 \<Rightarrow> mem \<Rightarrow> mem" where
  "sl_list_init l nents m = SCATTERLIST_SET_LAST (l + 12 * (nents - 1)) (memset m l 0 (12 * nents))"

definition sl_bind_buffer :: "addr \<Rightarrow> addr \<Rightarrow> u32 \<Rightarrow> mem \<Rightarrow> mem" where
  "sl_bind_buffer sl buffer len m =
     (let page_addr = buffer AND NOT (kb 4 - 1); offset = buffer - page_addr;
          m1 = SCATTERLIST_SET_ADDR sl page_addr m
      in st32 (st32 m1 (sl + 4) offset) (sl + 8) len)"

definition sl_bind_attribute :: "addr \<Rightarrow> nat \<Rightarrow> u32 \<Rightarrow> mem \<Rightarrow> mem" where
  "sl_bind_attribute sl pos val m = st32 m sl (ld32 m sl OR push_bit pos val)"

definition sl_make_last :: "addr \<Rightarrow> mem \<Rightarrow> mem" where
  "sl_make_last sl m = st32 m sl (ld32 m sl OR 0x2)"

section \<open>Iterators\<close>

definition SLITER_BEGIN :: u8 where "SLITER_BEGIN = 0x1"

record scatterlist_iter =
  it_list :: addr
  it_flags :: u8
  it_buffer :: addr
  it_len :: u32
  it_user_flags :: u8

definition SL_USER_0 :: nat where "SL_USER_0 = 2"

definition SLITER_GET_FLAG_VALUE :: "scatterlist_iter \<Rightarrow> nat \<Rightarrow> bool" where
  "SLITER_GET_FLAG_VALUE s v \<longleftrightarrow> it_user_flags s AND push_bit (v - SL_USER_0) 1 = push_bit (v - SL_USER_0) 1"

definition slit_begin :: "addr \<Rightarrow> scatterlist_iter" where
  "slit_begin sl = \<lparr>it_list = sl - 12, it_flags = SET_BIT 0 SLITER_BEGIN, it_buffer = 0, it_len = 0, it_user_flags = 0\<rparr>"

definition slit_next :: "mem \<Rightarrow> scatterlist_iter \<Rightarrow> bool \<times> scatterlist_iter" where
  "slit_next m it =
     (if \<not> IS_BIT_SET (it_flags it) SLITER_BEGIN \<and> SCATTERLIST_IS_LAST m (it_list it) then (False, it)
      else
        let next' = it_list it + 12;
            l = (if SCATTERLIST_IS_CHAIN m next' then SCATTERLIST_NEXT_CHAIN m next' else next')
        in (True, \<lparr>it_list = l, it_flags = CLEAR_BIT (it_flags it) SLITER_BEGIN, it_buffer = sl_get_buffer m l,
              it_len = ld32 m (l + 8), it_user_flags = ucast (drop_bit SL_USER_0 (ld32 m l) AND 0xff)\<rparr>))"

text \<open>The loop of slit_skip does not count skip down.\<close>

partial_function (option) slit_skip :: "mem \<Rightarrow> u32 \<Rightarrow> scatterlist_iter \<Rightarrow> (bool \<times> scatterlist_iter) option" where
  "slit_skip m skip it =
     (if skip \<noteq> 0 then
        let (more, it1) = slit_next m it
        in if \<not> more then Some (False, it1)
           else let consume = min (it_len it1) skip
             in slit_skip m skip (it1\<lparr>it_buffer := it_buffer it1 + consume, it_len := it_len it1 - consume\<rparr>)
      else Some (True, it))"

text \<open>Each piece is copied from or to the start of the caller's buffer.\<close>

partial_function (option) copy_loop :: "addr \<Rightarrow> u8 \<Rightarrow> scatterlist_iter \<Rightarrow> u32 \<Rightarrow> u32 \<Rightarrow> mem \<Rightarrow> (u32 \<times> mem) option" where
  "copy_loop buffer direction it buf_len offset m =
     (if buf_len = 0 then Some (offset, m)
      else
        let (more, it1) = slit_next m it
        in if \<not> more then Some (offset, m)
           else
             let len = min (it_len it1) buf_len;
                 m1 = (if direction = 0 then memcpy m (it_buffer it1) buffer len
                       else if direction = 1 then memcpy m buffer (it_buffer it1) len else m)
             in copy_loop buffer direction it1 (buf_len - len) (offset + len) m1)"

definition sl_copy_buffer :: "addr \<Rightarrow> u32 \<Rightarrow> addr \<Rightarrow> u32 \<Rightarrow> u8 \<Rightarrow> mem \<Rightarrow> (u32 \<times> mem) option" where
  "sl_copy_buffer sl skip buffer buf_len direction m =
     Option.bind (slit_skip m skip (slit_begin sl)) (\<lambda>(ok, it).
       if \<not> ok then Some (0, m) else copy_loop buffer direction it buf_len 0 m)"

definition sl_chain :: "addr \<Rightarrow> addr \<Rightarrow> mem \<Rightarrow> bool \<times> mem" where
  "sl_chain sl1 sl2 m =
     (let (more, it) = slit_next m (slit_begin sl1)
      in if more then (True, SCATTERLIST_SET_ADDR (it_list it) sl2 (SCATTERLIST_SET_CHAIN (it_list it) m)) else (False, m))"

section \<open>What iteration sees\<close>

text \<open>The entries an iterator delivers, as buffer, length and user flags.\<close>

type_synonym sl_entry = "addr \<times> u32 \<times> u8"

definition it_entry :: "scatterlist_iter \<Rightarrow> sl_entry" where
  "it_entry it = (it_buffer it, it_len it, it_user_flags it)"

partial_function (option) slit_entries :: "mem \<Rightarrow> scatterlist_iter \<Rightarrow> sl_entry list option" where
  "slit_entries m it =
     (let (more, it1) = slit_next m it
      in if more then Option.bind (slit_entries m it1) (\<lambda>es. Some (it_entry it1 # es)) else Some [])"

definition entry_word :: "sl_entry \<Rightarrow> bool \<Rightarrow> u32" where
  "entry_word e is_last = (case e of (b, n, f) \<Rightarrow>
     (b AND NOT (kb 4 - 1)) OR push_bit 2 (ucast f) OR (if is_last then 2 else 0))"

definition entry_at :: "mem \<Rightarrow> addr \<Rightarrow> sl_entry \<Rightarrow> bool \<Rightarrow> bool" where
  "entry_at m a e is_last \<longleftrightarrow> ld32 m a = entry_word e is_last \<and>
     (case e of (b, n, f) \<Rightarrow> ld32 m (a + 4) = b - (b AND NOT (kb 4 - 1)) \<and> ld32 m (a + 8) = n)"

lemma sl_page_mask: "(kb 4 - 1 :: u32) = mask 12"
  by (simp add: kb_def mask_eq_exp_minus_1)

lemma entry_word_bits:
  "bit (entry_word (b, n, f) l) k \<longleftrightarrow>
     (12 \<le> k \<and> bit b k) \<or> (2 \<le> k \<and> k < 10 \<and> bit f (k - 2)) \<or> (k = 1 \<and> l)"
proof -
  have "bit (2 :: u32) k \<longleftrightarrow> k = 1" using bit_push_bit_iff [of 1 "1 :: u32" k] by (auto simp: bit_1_iff)
  moreover have "bit f (k - 2) \<Longrightarrow> k < 10" using bit_imp_le_length [of f "k - 2"] by simp
  moreover have "bit b k \<Longrightarrow> k < 32" using bit_imp_le_length [of b k] by simp
  ultimately show ?thesis
    unfolding entry_word_def sl_page_mask by (cases l) (auto simp: bit_simps)
qed

lemma entry_facts:
  assumes "entry_at m a (b, n, f) l"
  shows "\<not> SCATTERLIST_IS_CHAIN m a" and "SCATTERLIST_IS_LAST m a \<longleftrightarrow> l"
    and "sl_get_buffer m a = b" and "ld32 m (a + 8) = n"
    and "ucast (drop_bit SL_USER_0 (ld32 m a) AND 0xff) = f"
proof -
  have w: "ld32 m a = entry_word (b, n, f) l" and off: "ld32 m (a + 4) = b - (b AND NOT (kb 4 - 1))"
    using assms by (simp_all add: entry_at_def)
  have bits: "w AND 1 \<noteq> 0 \<longleftrightarrow> bit w 0" "w AND 2 \<noteq> 0 \<longleftrightarrow> bit w 1" for w :: u32
    using bit_iff_and_push_bit_not_eq_0 [of w 0] bit_iff_and_push_bit_not_eq_0 [of w 1] by simp_all
  show "\<not> SCATTERLIST_IS_CHAIN m a" "SCATTERLIST_IS_LAST m a \<longleftrightarrow> l"
    by (simp_all only: SCATTERLIST_IS_CHAIN_def SCATTERLIST_IS_LAST_def bits w entry_word_bits) simp_all
  have "entry_word (b, n, f) l AND NOT (kb 4 - 1) = b AND NOT (kb 4 - 1)"
    unfolding sl_page_mask by (rule bit_word_eqI) (auto simp: bit_and_iff bit_not_iff bit_mask_iff entry_word_bits)
  then show "sl_get_buffer m a = b"
    by (simp add: sl_get_buffer_def SCATTERLIST_PAGE_ADDR_def w off)
  show "ld32 m (a + 8) = n" using assms by (simp add: entry_at_def)
  show "ucast (drop_bit SL_USER_0 (ld32 m a) AND 0xff) = f"
    unfolding w ucast_low_bytes
    by (rule bit_word_eqI) (simp add: SL_USER_0_def bit_ucast_iff bit_drop_bit_eq entry_word_bits)
qed

text \<open>An array of entries, the last one marked.\<close>

definition sl_array :: "mem \<Rightarrow> addr \<Rightarrow> sl_entry list \<Rightarrow> bool" where
  "sl_array m a es \<longleftrightarrow> es \<noteq> [] \<and> (\<forall>i < length es. entry_at m (a + 12 * of_nat i) (es ! i) (i = length es - 1))"

definition standing_at :: "mem \<Rightarrow> scatterlist_iter \<Rightarrow> addr \<Rightarrow> bool" where
  "standing_at m it a \<longleftrightarrow> it_list it = a - 12 \<and> (\<not> IS_BIT_SET (it_flags it) SLITER_BEGIN \<longrightarrow> \<not> SCATTERLIST_IS_LAST m (it_list it))"

lemma slit_next_entry:
  assumes "entry_at m a e l" and "standing_at m it a"
  obtains it1 where "slit_next m it = (True, it1)" and "it_entry it1 = e" and "it_list it1 = a"
    and "\<not> IS_BIT_SET (it_flags it1) SLITER_BEGIN"
proof (cases e)
  case (fields b n f)
  note facts = entry_facts [OF assms(1) [unfolded fields]]
  have "\<not> IS_BIT_SET (CLEAR_BIT fl SLITER_BEGIN) SLITER_BEGIN" for fl
    by (simp add: IS_BIT_SET_def CLEAR_BIT_def SLITER_BEGIN_def and.assoc)
  moreover have "slit_next m it = (True, \<lparr>it_list = a, it_flags = CLEAR_BIT (it_flags it) SLITER_BEGIN,
      it_buffer = b, it_len = n, it_user_flags = f\<rparr>)"
    using assms(2) facts by (auto simp: slit_next_def standing_at_def Let_def)
  ultimately show thesis
    using that by (simp add: it_entry_def fields)
qed

lemma sl_array_Cons:
  "sl_array m a (e # es) \<longleftrightarrow> entry_at m a e (es = []) \<and> (es \<noteq> [] \<longrightarrow> sl_array m (a + 12) es)"
proof -
  have "(\<forall>i < length (e # es). entry_at m (a + 12 * of_nat i) ((e # es) ! i) (i = length (e # es) - 1)) \<longleftrightarrow>
    entry_at m a e (es = []) \<and> (\<forall>i < length es. entry_at m (a + 12 + 12 * of_nat i) (es ! i) (i = length es - 1))"
    by (simp add: All_less_Suc2 algebra_simps) (cases es; simp)
  then show ?thesis by (auto simp: sl_array_def)
qed

lemma slit_entries_array:
  "sl_array m a es \<Longrightarrow> standing_at m it a \<Longrightarrow> slit_entries m it = Some es"
proof (induction es arbitrary: a it)
  case Nil
  then show ?case by (simp add: sl_array_def)
next
  case (Cons e es)
  obtain it1 where it1: "slit_next m it = (True, it1)" "it_entry it1 = e" "it_list it1 = a"
      "\<not> IS_BIT_SET (it_flags it1) SLITER_BEGIN"
    using slit_next_entry [OF _ Cons.prems(2)] Cons.prems(1) unfolding sl_array_Cons by blast
  obtain b n f where e: "e = (b, n, f)" by (cases e)
  have last: "SCATTERLIST_IS_LAST m a \<longleftrightarrow> es = []"
    using Cons.prems(1) unfolding sl_array_Cons e by (auto dest: entry_facts(2))
  have "slit_entries m it1 = Some es"
  proof (cases "es = []")
    case True
    then show ?thesis using it1 last by (subst slit_entries.simps) (simp add: slit_next_def)
  next
    case False
    then show ?thesis
      using Cons.IH [of "a + 12" it1] Cons.prems(1) it1 last by (simp add: sl_array_Cons standing_at_def)
  qed
  then show ?case using it1 by (subst slit_entries.simps) simp
qed

lemma standing_at_begin: "standing_at m (slit_begin sl) sl"
  by (simp add: standing_at_def slit_begin_def IS_BIT_SET_def SET_BIT_def SLITER_BEGIN_def)

text \<open>Building a list: the array is initialised, then every entry gets its buffer and its attribute.\<close>

definition sl_bind :: "addr \<Rightarrow> sl_entry \<Rightarrow> mem \<Rightarrow> mem" where
  "sl_bind a e m = (case e of (b, n, f) \<Rightarrow> sl_bind_attribute a SL_USER_0 (ucast f) (sl_bind_buffer a b n m))"

definition sl_build :: "addr \<Rightarrow> sl_entry list \<Rightarrow> mem \<Rightarrow> mem" where
  "sl_build l es m = fold (\<lambda>i. sl_bind (l + 12 * of_nat i) (es ! i)) [0..<length es] (sl_list_init l (of_nat (length es)) m)"

lemma entry_words: "l + 12 * of_nat i = l + 4 * of_nat (3 * i)" "l + 4 * of_nat k + 4 = l + 4 * of_nat (k + 1)"
  "l + 4 * of_nat k + 8 = (l + 4 * of_nat (k + 2) :: addr)"
  by simp_all

lemma sl_bind_words:
  assumes "3 * i + 2 < 2 ^ 30" and "k < 2 ^ 30"
  shows "ld32 (sl_bind (l + 12 * of_nat i) (b, n, f) m) (l + 4 * of_nat k) =
    (if k = 3 * i then ((ld32 m (l + 4 * of_nat k) AND 3) OR (b AND NOT (kb 4 - 1))) OR push_bit 2 (ucast f)
     else if k = 3 * i + 1 then b - (b AND NOT (kb 4 - 1)) else if k = 3 * i + 2 then n
     else ld32 m (l + 4 * of_nat k))"
  unfolding sl_bind_def split_conv sl_bind_attribute_def sl_bind_buffer_def SCATTERLIST_SET_ADDR_def Let_def entry_words
  using assms by (auto simp: ld32_st32_word SL_USER_0_def simp del: of_nat_add of_nat_mult of_nat_Suc)

lemma entry_at_words:
  "entry_at m (l + 12 * of_nat i) (b, n, f) last' \<longleftrightarrow> ld32 m (l + 4 * of_nat (3 * i)) = entry_word (b, n, f) last' \<and>
     ld32 m (l + 4 * of_nat (3 * i + 1)) = b - (b AND NOT (kb 4 - 1)) \<and> ld32 m (l + 4 * of_nat (3 * i + 2)) = n"
  unfolding entry_at_def split_conv entry_words ..

lemma sl_list_init_words:
  assumes "0 < n" and "3 * n < 2 ^ 30" and "i < n"
  shows "ld32 (sl_list_init l (of_nat n) m) (l + 4 * of_nat (3 * i)) = (if i = n - 1 then 2 else 0)"
proof -
  let ?m = "memset m l 0 (of_nat (12 * n))"
  have "sl_list_init l (of_nat n) m = st32 ?m (l + 4 * of_nat (3 * (n - 1))) (SET_BIT (ld32 ?m (l + 4 * of_nat (3 * (n - 1)))) 2)"
    using assms(1) by (simp add: sl_list_init_def SCATTERLIST_SET_LAST_def of_nat_diff)
  moreover have "ld32 ?m (l + 4 * of_nat (3 * k)) = 0" if "k < n" for k
    by (rule ld32_memset_zero) (use that assms in simp_all)
  ultimately show ?thesis
    using assms by (simp add: ld32_st32_word SET_BIT_def del: of_nat_mult)
qed

lemma sl_build_step:
  assumes n: "n = length es" "0 < n" "3 * n < 2 ^ 30" and "j \<le> n"
  shows "i < n \<Longrightarrow> (i < j \<longrightarrow> entry_at (fold (\<lambda>i. sl_bind (l + 12 * of_nat i) (es ! i)) [0..<j] (sl_list_init l (of_nat n) m))
      (l + 12 * of_nat i) (es ! i) (i = n - 1)) \<and>
    (j \<le> i \<longrightarrow> ld32 (fold (\<lambda>i. sl_bind (l + 12 * of_nat i) (es ! i)) [0..<j] (sl_list_init l (of_nat n) m))
      (l + 4 * of_nat (3 * i)) = (if i = n - 1 then 2 else 0))"
  using assms(4)
proof (induction j arbitrary: i)
  case 0
  then show ?case using sl_list_init_words [of n i l m] n by simp
next
  case (Suc j)
  let ?m = "fold (\<lambda>i. sl_bind (l + 12 * of_nat i) (es ! i)) [0..<j] (sl_list_init l (of_nat n) m)"
  obtain b k f where e: "es ! j = (b, k, f)" by (cases "es ! j")
  have sizes: "3 * j + 2 < 2 ^ 30" "3 * i + 2 < 2 ^ 30" "3 * i < 2 ^ 30" "3 * i + 1 < 2 ^ 30" using Suc.prems n by simp_all
  note words = sl_bind_words [OF sizes(1), of _ l b k f ?m]
  have last: "ld32 ?m (l + 4 * of_nat (3 * j)) = (if j = n - 1 then 2 else 0)"
    using Suc.IH [of j] Suc.prems by simp
  have neq: "3 * i \<noteq> 3 * j + 1" "3 * i \<noteq> 3 * j + 2" "3 * i + 1 \<noteq> 3 * j" "3 * i + 1 \<noteq> 3 * j + 2"
    "3 * i + 2 \<noteq> 3 * j" "3 * i + 2 \<noteq> 3 * j + 1" by presburger+
  have "(((if t then 2 else 0) AND 3) OR (b AND NOT (kb 4 - 1))) OR push_bit 2 (ucast f) = entry_word (b, k, f) t" for t
    by (simp add: entry_word_def ac_simps)
  then have "entry_at (sl_bind (l + 12 * of_nat j) (b, k, f) ?m) (l + 12 * of_nat j) (b, k, f) (j = n - 1)"
    using sizes Suc.prems unfolding entry_at_words
    by (simp add: words last del: of_nat_mult of_nat_add of_nat_Suc)
  moreover have "entry_at (sl_bind (l + 12 * of_nat j) (b, k, f) ?m) (l + 12 * of_nat i) e' t \<longleftrightarrow> entry_at ?m (l + 12 * of_nat i) e' t"
      "ld32 (sl_bind (l + 12 * of_nat j) (b, k, f) ?m) (l + 4 * of_nat (3 * i)) = ld32 ?m (l + 4 * of_nat (3 * i))"
    if "i \<noteq> j" for e' t
    using that sizes neq by (cases e'; simp add: entry_at_words words del: of_nat_mult of_nat_add of_nat_Suc)+
  ultimately show ?case
    using Suc.IH [of i] Suc.prems e by (cases "i = j") (simp_all add: less_Suc_eq)
qed

lemma sl_build_array:
  assumes "es \<noteq> []" and "3 * length es < 2 ^ 30"
  shows "sl_array (sl_build l es m) l es"
  using assms sl_build_step [of "length es" es "length es" _ l m] by (simp add: sl_array_def sl_build_def)

text \<open>The bytes outside the array stay.\<close>

lemma sl_bind_outside:
  assumes "12 \<le> x - a"
  shows "sl_bind a e m x = m x"
proof -
  have "12 \<le> unat (x - a)" using assms by (simp add: word_le_nat_alt)
  then have "4 \<le> x - a" "4 \<le> x - a - 4" "4 \<le> x - a - 8"
    by (auto simp: word_le_nat_alt unat_sub)
  then have "4 \<le> x - a" "4 \<le> x - (a + 4)" "4 \<le> x - (a + 8)" by (simp_all add: diff_diff_eq)
  then show ?thesis
    by (cases e) (simp add: sl_bind_def sl_bind_attribute_def sl_bind_buffer_def SCATTERLIST_SET_ADDR_def Let_def st32_other)
qed

lemma sl_build_outside:
  assumes "es \<noteq> []" and "3 * length es < 2 ^ 30" and "12 * length es \<le> unat (x - l)"
  shows "sl_build l es m x = m x"
proof -
  have far: "12 \<le> x - (l + 12 * of_nat i)" if "i < length es" for i
  proof -
    have u: "unat (of_nat (12 * i) :: u32) = 12 * i" using that assms(2) by (simp only: unat_of_nat) simp
    then have "(of_nat (12 * i) :: u32) \<le> x - l" using that assms(3) by (simp add: word_le_nat_alt)
    then have "unat (x - l - of_nat (12 * i)) = unat (x - l) - 12 * i" using u by (simp add: unat_sub)
    moreover have "x - (l + 12 * of_nat i) = x - l - of_nat (12 * i)" by simp
    ultimately show ?thesis using that assms(3) by (simp only: word_le_nat_alt) simp
  qed
  have init: "sl_list_init l (of_nat (length es)) m x = m x"
  proof -
    have "unat (12 * of_nat (length es) :: u32) = 12 * length es"
      using assms(2) unat_of_nat [of "12 * length es", where 'a = 32] by simp
    then have "\<not> x - l < 12 * of_nat (length es)" using assms(3) by (simp add: word_less_nat_alt)
    moreover have "l + 12 * (of_nat (length es) - 1) = l + 12 * of_nat (length es - 1)"
      using assms(1) by (cases es) simp_all
    then have "4 \<le> x - (l + 12 * (of_nat (length es) - 1))"
      using far [of "length es - 1"] assms(1) by (simp only:) (auto simp: word_le_nat_alt)
    ultimately show ?thesis
      by (simp add: sl_list_init_def SCATTERLIST_SET_LAST_def st32_other memset_apply)
  qed
  have "fold (\<lambda>i. sl_bind (l + 12 * of_nat i) (es ! i)) [0..<j] m' x = m' x" if "j \<le> length es" for j m'
    using that by (induction j) (simp_all add: sl_bind_outside far)
  then show ?thesis by (simp add: sl_build_def init)
qed

text \<open>The skipping loop runs to the end of the list.\<close>

lemma slit_skip_fails:
  "sl_array m a es \<Longrightarrow> skip \<noteq> 0 \<Longrightarrow> standing_at m it a \<Longrightarrow> \<exists>it'. slit_skip m skip it = Some (False, it')"
proof (induction es arbitrary: a it)
  case Nil
  then show ?case by (simp add: sl_array_def)
next
  case (Cons e es)
  obtain it1 where it1: "slit_next m it = (True, it1)" "it_list it1 = a" "\<not> IS_BIT_SET (it_flags it1) SLITER_BEGIN"
    using slit_next_entry [OF _ Cons.prems(3)] Cons.prems(1) unfolding sl_array_Cons by blast
  obtain b n f where e: "e = (b, n, f)" by (cases e)
  have last: "SCATTERLIST_IS_LAST m a \<longleftrightarrow> es = []"
    using Cons.prems(1) unfolding sl_array_Cons e by (auto dest: entry_facts(2))
  let ?it = "it1\<lparr>it_buffer := it_buffer it1 + min (it_len it1) skip, it_len := it_len it1 - min (it_len it1) skip\<rparr>"
  have "\<exists>it'. slit_skip m skip ?it = Some (False, it')"
  proof (cases "es = []")
    case True
    then show ?thesis using it1 last Cons.prems(2) by (subst slit_skip.simps) (simp add: slit_next_def)
  next
    case False
    then show ?thesis
      using Cons.IH [of "a + 12" ?it] Cons.prems it1 last by (simp add: sl_array_Cons standing_at_def)
  qed
  then show ?case using it1 Cons.prems(2) by (subst slit_skip.simps) (simp add: Let_def)
qed

section \<open>Properties\<close>

text \<open>
  C30: Building and iterating a scatter list. For any non-empty sequence of buffers, lengths and
  direction flags, the list made of them with sl_list_init, sl_bind_buffer and sl_bind_attribute
  yields exactly these buffers with their lengths and flags, in order, when it is iterated with
  slit_begin and slit_next, and no byte outside the array of entries has changed.
\<close>
theorem scatterlist_roundtrip:
  assumes "es \<noteq> []" and "3 * length es < 2 ^ 30"
  shows "slit_entries (sl_build l es m) (slit_begin l) = Some es \<and>
    (\<forall>x. 12 * length es \<le> unat (x - l) \<longrightarrow> sl_build l es m x = m x)"
  using slit_entries_array [OF sl_build_array [OF assms] standing_at_begin] sl_build_outside [OF assms]
  by blast

theorem scatterlist_roundtrip_witness:
  "slit_entries (sl_build 0x9000 [(0xC0101234, 16, 0), (0x01000FFF, 512, 1), (7, 1, 1)] (\<lambda>_. 0xAA)) (slit_begin 0x9000) =
     Some [(0xC0101234, 16, 0), (0x01000FFF, 512, 1), (7, 1, 1)]"
  using scatterlist_roundtrip [of "[(0xC0101234, 16, 0), (0x01000FFF, 512, 1), (7, 1, 1)]" "0x9000" "\<lambda>_. 0xAA"] by simp

text \<open>
  C0: slit_skip with a count other than 0 never succeeds, because its loop does not count down: it
  runs through the whole list, so sl_copy_buffer with such a skip copies nothing and returns 0,
  however long the list is.
\<close>
theorem copy_with_skip_copies_nothing:
  assumes "sl_array m l es" and "skip \<noteq> 0"
  shows "sl_copy_buffer l skip buffer buf_len direction m = Some (0, m)"
proof -
  obtain it' where "slit_skip m skip (slit_begin l) = Some (False, it')"
    using slit_skip_fails [OF assms standing_at_begin] by blast
  then show ?thesis by (simp add: sl_copy_buffer_def)
qed

theorem copy_with_skip_copies_nothing_witness:
  "sl_copy_buffer 0x9000 4 0x100 8 0 (sl_build 0x9000 [(0x2000, 16, 0)] (\<lambda>_. 0)) = Some (0, sl_build 0x9000 [(0x2000, 16, 0)] (\<lambda>_. 0))"
  using copy_with_skip_copies_nothing [OF sl_build_array, of "[(0x2000, 16, 0)]" 4] by simp

end
