(* ===== verification/Virtqueue.thy ===== *)
theory Virtqueue
  imports Scatterlist Slab Hardware
begin

text \<open>
  Virtqueues (kernel/drivers/virtio/virtio_queue.c). The descriptor table, the available ring and
  the used ring lie in memory shared with the device; the driver's own structure is a record, held
  by its only owner. A descriptor has the address at 0 (64 bits), the length at 8, the flags at 12
  and the next index at 14; the rings have flags at 0, the index at 2 and their entries from 4 on.
\<close>

section \<open>State\<close>

text \<open>q_iobase is the iobase field of the device vdev points to.\<close>

record virtio_queue =
  q_iobase :: u32
  q_idx :: u32
  next_buffer :: u16
  num_added :: u16
  q_size :: u16
  last_buffer_seen :: u16
  q_desc :: addr
  q_avail :: addr
  q_used :: addr

definition VIRTQ_DESC_F_NEXT :: u16 where "VIRTQ_DESC_F_NEXT = 1"
definition VIRTQ_DESC_F_WRITE :: u16 where "VIRTQ_DESC_F_WRITE = 2"
definition VIRTQ_USED_F_NO_NOTIFY :: u16 where "VIRTQ_USED_F_NO_NOTIFY = 1"

abbreviation desc_at :: "virtio_queue \<Rightarrow> u16 \<Rightarrow> addr" where
  "desc_at q i \<equiv> q_desc q + 16 * ucast i"

abbreviation avail_idx :: "mem \<Rightarrow> virtio_queue \<Rightarrow> u16" where
  "avail_idx m q \<equiv> ld16 m (q_avail q + 2)"

abbreviation ring_at :: "virtio_queue \<Rightarrow> u16 \<Rightarrow> addr" where
  "ring_at q i \<equiv> q_avail q + 4 + 2 * ucast i"

abbreviation used_idx :: "mem \<Rightarrow> virtio_queue \<Rightarrow> u16" where
  "used_idx m q \<equiv> ld16 m (q_used q + 2)"

section \<open>Creation\<close>

definition QALLIGN :: "u32 \<Rightarrow> u32" where
  "QALLIGN x = (x + kb 4 - 1) AND NOT (kb 4 - 1)"

definition virtq_size :: "u32 \<Rightarrow> u32" where
  "virtq_size qsz = QALLIGN (16 * qsz + 2 * (3 + qsz)) + QALLIGN (2 * 3 + 8 * qsz)"

text \<open>The descriptors are chained; struct virtio_queue has 32 bytes.\<close>

definition chain_descriptors :: "addr \<Rightarrow> u32 \<Rightarrow> mem \<Rightarrow> mem" where
  "chain_descriptors desc len m =
     (let m1 = fold (\<lambda>i m. st16 m (desc + 16 * of_nat i + 14) (of_nat (i + 1))) [0..<unat len] m
      in st16 m1 (desc + 16 * (len - 1) + 14) 0)"

definition virtio_create_queue :: "(u32 \<Rightarrow> u32) \<Rightarrow> u32 \<Rightarrow> slabs \<Rightarrow> (slabs \<times> virtio_queue) run" where
  "virtio_create_queue lz len s =
     run_bind (kzmalloc lz 32 s) (\<lambda>(s1, res).
       let s2 = s1\<lparr>smem := memset (smem s1) res 0 32\<rparr>; sz = virtq_size len
       in run_bind (kalloc lz (smem s2) ((sz + kb 4 - 1) div kb 4)) (\<lambda>(m, buffer).
            if buffer = NULL \<and> sz \<noteq> 0 then Trap Null_deref
            else
              let m1 = memset m buffer 0 sz;
                  desc = buffer; avail = buffer + 16 * len;
                  used = (avail + 4 + 2 * len + 2 + 4096 - 1) AND NOT (4096 - 1)
              in run_bind (assert1 (ALIGNED desc 16)) (\<lambda>_. run_bind (assert1 (ALIGNED avail 2)) (\<lambda>_.
                   run_bind (assert1 (ALIGNED used 4)) (\<lambda>_.
                     let m2 = chain_descriptors desc len (st16 m1 avail 0)
                     in Ret (s2\<lparr>smem := m2\<rparr>, \<lparr>q_iobase = 0, q_idx = 0, next_buffer = 0, num_added = 0,
                          q_size = ucast len, last_buffer_seen = 0, q_desc = desc, q_avail = avail, q_used = used\<rparr>))))))"

section \<open>Enqueueing\<close>

text \<open>
  One descriptor: size_t is a signed 32-bit type, so the address is sign-extended. The index behind
  the last descriptor wraps at the size of the queue.
\<close>

definition write_desc :: "addr \<Rightarrow> addr \<Rightarrow> u32 \<Rightarrow> bool \<Rightarrow> u16 \<Rightarrow> mem \<Rightarrow> mem" where
  "write_desc a buffer len direction next' m =
     (let m1 = st16 m (a + 12) (if direction then VIRTQ_DESC_F_WRITE else 0);
          m2 = st16 m1 (a + 12) (ld16 m1 (a + 12) OR VIRTQ_DESC_F_NEXT);
          m3 = st16 m2 (a + 14) next';
          m4 = st32 m3 (a + 8) len
      in st64 m4 a (scast buffer))"

partial_function (option) enqueue_loop ::
    "scatterlist_iter \<Rightarrow> u16 \<Rightarrow> u16 \<Rightarrow> virtio_queue \<Rightarrow> mem \<Rightarrow> (u16 \<times> u16 \<times> virtio_queue \<times> mem) option" where
  "enqueue_loop it buffer_index last_buffer q m =
     (let (more, it1) = slit_next m it
      in if \<not> more then Some (buffer_index, last_buffer, q, m)
         else
           let direction = SLITER_GET_FLAG_VALUE it1 SL_USER_0;
               next_index = of_nat ((unat buffer_index + 1) mod unat (q_size q));
               m1 = write_desc (desc_at q buffer_index) (it_buffer it1) (it_len it1) direction next_index m
           in enqueue_loop it1 next_index buffer_index (q\<lparr>num_added := num_added q + 1\<rparr>) m1)"

definition virtio_queue_enqueue :: "addr \<Rightarrow> virtio_queue \<Rightarrow> mem \<Rightarrow> (virtio_queue \<times> mem) run" where
  "virtio_queue_enqueue sl q m =
     (if q_size q = 0 then Trap Divide_error
      else
        let index = avail_idx m q mod q_size q;
            m1 = st16 m (ring_at q index) (next_buffer q)
        in run_bind (lift_run (enqueue_loop (slit_begin sl) (next_buffer q) (next_buffer q) q m1))
             (\<lambda>(buffer_index, last_buffer, q1, m2).
               let a = desc_at q last_buffer + 12
               in Ret (q1\<lparr>next_buffer := buffer_index\<rparr>, st16 m2 a (ld16 m2 a AND NOT VIRTQ_DESC_F_NEXT))))"

section \<open>Used buffers\<close>

definition virtio_queue_num_heads :: "mem \<Rightarrow> virtio_queue \<Rightarrow> u16" where
  "virtio_queue_num_heads m q =
     (if last_buffer_seen q < used_idx m q then used_idx m q - last_buffer_seen q else 0)"

definition virtio_queue_has_unseen_buffers :: "mem \<Rightarrow> virtio_queue \<Rightarrow> bool" where
  "virtio_queue_has_unseen_buffers m q \<longleftrightarrow> 0 < virtio_queue_num_heads m q"

partial_function (option) dequeue_loop :: "addr \<Rightarrow> virtio_queue \<Rightarrow> mem \<Rightarrow> (addr \<times> virtio_queue \<times> mem) option" where
  "dequeue_loop iter q m =
     (let buffer_index = last_buffer_seen q mod q_size q;
          len = ld32 m (q_used q + 4 + 8 * ucast buffer_index + 4);
          buffer = ucast (ld64 m (desc_at q buffer_index)) :: addr;
          q1 = q\<lparr>last_buffer_seen := last_buffer_seen q + 1\<rparr>;
          m1 = sl_bind_buffer iter buffer len m
      in if ld16 m1 (desc_at q buffer_index + 12) AND VIRTQ_DESC_F_NEXT \<noteq> 0 then dequeue_loop (iter + 12) q1 m1
         else Some (iter + 12, q1, m1))"

definition virtio_queue_dequeue ::
    "(u32 \<Rightarrow> u32) \<Rightarrow> virtio_queue \<Rightarrow> slabs \<Rightarrow> (addr \<times> virtio_queue \<times> slabs) run" where
  "virtio_queue_dequeue lz q s =
     (let heads = ucast (virtio_queue_num_heads (smem s) q) :: u32
      in run_bind (kzmalloc lz (12 * heads) s) (\<lambda>(s1, res).
           if q_size q = 0 then Trap Divide_error
           else run_bind (lift_run (dequeue_loop res q (sl_list_init res heads (smem s1)))) (\<lambda>(iter, q1, m).
             Ret (res, q1, s1\<lparr>smem := sl_make_last (iter - 12) m\<rparr>))))"

section \<open>Notification\<close>

text \<open>queue_notify is at offset 16 of struct virtio_header.\<close>

definition virtio_queue_notify :: "virtio_queue \<Rightarrow> trace \<Rightarrow> trace" where
  "virtio_queue_notify q t = t @ [Outs (ucast (q_iobase q + 16)) (ucast (q_idx q))]"

definition virtio_queue_kick :: "virtio_queue \<Rightarrow> mem \<Rightarrow> trace \<Rightarrow> virtio_queue \<times> mem \<times> trace" where
  "virtio_queue_kick q m t =
     (let m1 = st16 m (q_avail q + 2) (avail_idx m q + num_added q);
          q1 = q\<lparr>num_added := 0\<rparr>
      in if ld16 m1 (q_used q) AND VIRTQ_USED_F_NO_NOTIFY = 0
         then (q1, m1, virtio_queue_notify q1 t) else (q1, m1, t))"

section \<open>Reading descriptors\<close>

definition read_desc :: "mem \<Rightarrow> addr \<Rightarrow> u64 \<times> u32 \<times> u16 \<times> u16" where
  "read_desc m a = (ld64 m a, ld32 m (a + 8), ld16 m (a + 12), ld16 m (a + 14))"

lemma read_desc_cong:
  assumes "\<And>k. k < 16 \<Longrightarrow> m' (a + of_nat k) = m (a + of_nat k)"
  shows "read_desc m' a = read_desc m a"
proof -
  have "m' a = m a" using assms [of 0] by simp
  moreover have "m' (a + 1) = m (a + 1)" "m' (a + 2) = m (a + 2)" "m' (a + 3) = m (a + 3)" "m' (a + 4) = m (a + 4)"
    "m' (a + 5) = m (a + 5)" "m' (a + 6) = m (a + 6)" "m' (a + 7) = m (a + 7)" "m' (a + 8) = m (a + 8)"
    "m' (a + 9) = m (a + 9)" "m' (a + 10) = m (a + 10)" "m' (a + 11) = m (a + 11)" "m' (a + 12) = m (a + 12)"
    "m' (a + 13) = m (a + 13)" "m' (a + 14) = m (a + 14)" "m' (a + 15) = m (a + 15)"
    using assms [of 1] assms [of 2] assms [of 3] assms [of 4] assms [of 5] assms [of 6] assms [of 7] assms [of 8]
      assms [of 9] assms [of 10] assms [of 11] assms [of 12] assms [of 13] assms [of 14] assms [of 15] by simp_all
  ultimately show ?thesis
    by (simp add: read_desc_def ld64_def ld32_def ld16_def add.assoc)
qed

lemma write_desc_outside:
  assumes "16 \<le> unat (x - a)"
  shows "write_desc a b n d nx m x = m x"
proof -
  have "8 \<le> x - a" "4 \<le> x - a - 8" "2 \<le> x - a - 12" "2 \<le> x - a - 14"
    using assms by (auto simp: word_le_nat_alt unat_sub)
  then have "8 \<le> x - a" "4 \<le> x - (a + 8)" "2 \<le> x - (a + 12)" "2 \<le> x - (a + 14)" by (simp_all add: diff_diff_eq)
  then show ?thesis by (simp add: write_desc_def Let_def st64_other st32_other st16_other)
qed

lemma read_write_desc:
  "read_desc (write_desc a b n d nx m) a = (scast b, n, if d then 3 else 1, nx)"
proof -
  let ?m3 = "st16 (st16 (st16 m (a + 12) (if d then VIRTQ_DESC_F_WRITE else 0)) (a + 12)
    ((if d then VIRTQ_DESC_F_WRITE else 0) OR VIRTQ_DESC_F_NEXT)) (a + 14) nx"
  have w: "write_desc a b n d nx m = st64 (st32 ?m3 (a + 8) n) a (scast b)"
    by (simp add: write_desc_def Let_def)
  have "ld16 ?m3 (a + 12) = (if d then 3 else 1)" "ld16 ?m3 (a + 14) = nx"
  proof -
    have "ld16 ?m3 (a + 12) = (if d then VIRTQ_DESC_F_WRITE else 0) OR VIRTQ_DESC_F_NEXT"
      by (subst ld16_cong [of _ _ "st16 (st16 m (a + 12) (if d then VIRTQ_DESC_F_WRITE else 0)) (a + 12)
        ((if d then VIRTQ_DESC_F_WRITE else 0) OR VIRTQ_DESC_F_NEXT)"]) (simp_all add: st16_other add.assoc)
    then show "ld16 ?m3 (a + 12) = (if d then 3 else 1)"
      by (simp add: VIRTQ_DESC_F_WRITE_def VIRTQ_DESC_F_NEXT_def)
  qed simp
  moreover have "ld16 (st64 (st32 ?m3 (a + 8) n) a v) (a + c) = ld16 ?m3 (a + c)" if "c = 12 \<or> c = 14" for v c
    using that by (intro ld16_cong) (auto simp: st64_other st32_other add.assoc)
  moreover have "ld32 (st64 (st32 ?m3 (a + 8) n) a v) (a + 8) = n" for v
    by (subst ld32_cong [of _ _ "st32 ?m3 (a + 8) n"]) (simp_all add: st64_other add.assoc)
  ultimately show ?thesis by (simp add: read_desc_def w)
qed

abbreviation entry :: "addr \<Rightarrow> nat \<Rightarrow> addr" where
  "entry base i \<equiv> base + of_nat (16 * i)"

lemma desc_at_entry: "desc_at q i = entry (q_desc q) (unat i)"
  by simp

lemma entries_far:
  assumes "i < 65536" and "j < 65536" and "i \<noteq> j" and "k < 16"
  shows "16 \<le> unat (entry base j + of_nat k - entry base i)"
proof -
  have "entry base j + of_nat k - entry base i = base + of_nat (16 * j + k) - (base + of_nat (16 * i))" by simp
  then show ?thesis
    using assms unat_offset [of "16 * j + k" "16 * i" base] by (simp only:) (auto split: if_splits)
qed

lemma table_far:
  assumes "i < N" and "N \<le> 65536" and "16 * N \<le> unat (x - base)"
  shows "16 \<le> unat (x - entry base i)"
proof -
  obtain k where k: "k < 2 ^ 32" "x = base + of_nat k" "unat (x - base) = k" by (rule offset_exists)
  then show ?thesis
    using assms unat_offset [of k "16 * i" base] by (simp only:) (auto split: if_splits)
qed

lemma read_desc_table:
  assumes "i < N" and "N \<le> 65536" and "\<forall>x. unat (x - base) < 16 * N \<longrightarrow> m' x = m x"
  shows "read_desc m' (entry base i) = read_desc m (entry base i)"
proof (rule read_desc_cong)
  fix k :: nat assume k: "k < 16"
  then have small: "16 * i + k < 2 ^ 32" using assms(1,2) by simp
  have "entry base i + of_nat k = base + of_nat (16 * i + k)" by simp
  moreover have "unat (base + of_nat (16 * i + k) - base) = 16 * i + k"
    using unat_offset [OF small, of 0 base] by simp
  ultimately have "unat (entry base i + of_nat k - base) < 16 * N" using assms(1) k by (simp only:)
  then show "m' (entry base i + of_nat k) = m (entry base i + of_nat k)" using assms(3) by blast
qed

lemma entry_apart:
  assumes "i < 65536" and "j < 65536" and "i \<noteq> j"
  shows "read_desc (write_desc (entry base i) b n d nx m) (entry base j) = read_desc m (entry base j)"
  by (intro read_desc_cong write_desc_outside entries_far [OF assms])

lemma table_outside':
  assumes "i < N" and "N \<le> 65536" and "16 * N \<le> unat (x - base)"
  shows "write_desc (entry base i) b n d nx m x = m x"
  by (intro write_desc_outside table_far [OF assms])

section \<open>Enqueueing a list\<close>

text \<open>What the i-th descriptor written for a list says, before the last one loses its next flag.\<close>

definition linked_desc :: "nat \<Rightarrow> nat \<Rightarrow> sl_entry \<Rightarrow> u64 \<times> u32 \<times> u16 \<times> u16" where
  "linked_desc N i e = (case e of (b, n, f) \<Rightarrow> (scast b, n, if bit f 0 then 3 else 1, of_nat ((i + 1) mod N)))"

lemma direction: "it_entry it = (b, n, f) \<Longrightarrow> SLITER_GET_FLAG_VALUE it SL_USER_0 \<longleftrightarrow> bit f 0"
  by (auto simp: it_entry_def SLITER_GET_FLAG_VALUE_def and_one_eq bit_0 odd_iff_mod_2_eq_one)

lemma ring_neq: "(B::nat) < N \<Longrightarrow> 0 < s \<Longrightarrow> s < N \<Longrightarrow> (B + s) mod N \<noteq> B"
  by (cases "B + s < N") (simp_all add: le_mod_geq)

lemma enqueue_loop_list:
  assumes "\<And>m'. (\<forall>x. 16 * N \<le> unat (x - q_desc q) \<longrightarrow> m' x = m x) \<Longrightarrow> sl_array m' l es"
    and "standing_at m it l" and "unat bi < N" and "N = unat (q_size q)"
    and "length es \<le> N"
  shows "\<exists>m'. enqueue_loop it bi lst q m =
      Some (of_nat ((unat bi + length es) mod N), of_nat ((unat bi + length es - 1) mod N),
        q\<lparr>num_added := num_added q + of_nat (length es)\<rparr>, m') \<and>
    (\<forall>x. 16 * N \<le> unat (x - q_desc q) \<longrightarrow> m' x = m x) \<and>
    (\<forall>i < length es. read_desc m' (entry (q_desc q) ((unat bi + i) mod N)) = linked_desc N ((unat bi + i) mod N) (es ! i)) \<and>
    (\<forall>j < N. (\<forall>i < length es. j \<noteq> (unat bi + i) mod N) \<longrightarrow>
       read_desc m' (entry (q_desc q) j) = read_desc m (entry (q_desc q) j))"
  using assms
proof (induction es arbitrary: l it bi lst q m)
  case Nil
  then show ?case using Nil.prems(1) [of m] by (simp add: sl_array_def)
next
  case (Cons e es)
  let ?D = "q_desc q"
  have N: "0 < N" "N \<le> 65535" "N < 65536"
    using Cons.prems(3,4) unsigned_less [of "q_size q", where 'a = nat] by simp_all
  have array: "sl_array m l (e # es)" using Cons.prems(1) by simp
  obtain b n f where e: "e = (b, n, f)" by (cases e)
  obtain it1 where it1: "slit_next m it = (True, it1)" "it_entry it1 = e" "it_list it1 = l"
      "\<not> IS_BIT_SET (it_flags it1) SLITER_BEGIN"
    using slit_next_entry [OF _ Cons.prems(2)] array unfolding sl_array_Cons by blast
  let ?next = "of_nat ((unat bi + 1) mod N) :: u16"
  let ?m1 = "write_desc (entry ?D (unat bi)) b n (bit f 0) ?next m"
  let ?q1 = "q\<lparr>num_added := num_added q + 1\<rparr>"
  have next': "unat ?next = (unat bi + 1) mod N"
    using N by (simp only: unat_of_nat) (simp add: take_bit_nat_eq_self order.strict_trans [OF mod_less_divisor])
  have step: "enqueue_loop it bi lst q m = enqueue_loop it1 ?next bi ?q1 ?m1"
    using it1 e direction [of it1 b n f] Cons.prems(4)
    by (subst enqueue_loop.simps) (simp add: Let_def it_entry_def)
  have out: "?m1 x = m x" if "16 * N \<le> unat (x - ?D)" for x
    using table_outside' [of "unat bi" N x ?D] Cons.prems(3) N that by simp
  have keep: "sl_array m' l (e # es)" if "\<forall>x. 16 * N \<le> unat (x - ?D) \<longrightarrow> m' x = ?m1 x" for m'
    using Cons.prems(1) [of m'] that out by simp
  have last: "SCATTERLIST_IS_LAST ?m1 l \<longleftrightarrow> es = []"
    using keep [of ?m1] unfolding sl_array_Cons e by (auto dest: entry_facts(2))
  show ?case
  proof (cases "es = []")
    case True
    have "enqueue_loop it1 ?next bi ?q1 ?m1 = Some (?next, bi, ?q1, ?m1)"
      using it1 last True by (subst enqueue_loop.simps) (simp add: slit_next_def)
    moreover have "read_desc ?m1 (entry ?D (unat bi)) = linked_desc N (unat bi) e"
      by (simp only: read_write_desc linked_desc_def e split_conv)
    ultimately show ?thesis
      using True step out Cons.prems(3) N entry_apart [of "unat bi" _ ?D b n "bit f 0" ?next m]
      by (intro exI [of _ ?m1]) auto
  next
    case False
    have tail: "\<exists>m'. enqueue_loop it1 ?next bi ?q1 ?m1 =
      Some (of_nat ((unat ?next + length es) mod N), of_nat ((unat ?next + length es - 1) mod N),
        ?q1\<lparr>num_added := num_added ?q1 + of_nat (length es)\<rparr>, m') \<and>
      (\<forall>x. 16 * N \<le> unat (x - ?D) \<longrightarrow> m' x = ?m1 x) \<and>
      (\<forall>i < length es. read_desc m' (entry ?D ((unat ?next + i) mod N)) = linked_desc N ((unat ?next + i) mod N) (es ! i)) \<and>
      (\<forall>j < N. (\<forall>i < length es. j \<noteq> (unat ?next + i) mod N) \<longrightarrow>
         read_desc m' (entry ?D j) = read_desc ?m1 (entry ?D j))"
      using Cons.IH [of ?q1 ?m1 "l + 12" it1 ?next bi] keep False it1 last Cons.prems(4,5) next' N
      by (simp add: sl_array_Cons standing_at_def)
    then obtain m' where m': "enqueue_loop it1 ?next bi ?q1 ?m1 =
          Some (of_nat ((unat ?next + length es) mod N), of_nat ((unat ?next + length es - 1) mod N),
            ?q1\<lparr>num_added := num_added ?q1 + of_nat (length es)\<rparr>, m')"
        and out': "\<forall>x. 16 * N \<le> unat (x - ?D) \<longrightarrow> m' x = ?m1 x"
        and written: "\<forall>i < length es. read_desc m' (entry ?D ((unat ?next + i) mod N)) = linked_desc N ((unat ?next + i) mod N) (es ! i)"
        and others: "\<forall>j < N. (\<forall>i < length es. j \<noteq> (unat ?next + i) mod N) \<longrightarrow> read_desc m' (entry ?D j) = read_desc ?m1 (entry ?D j)"
      by blast
    have idx: "(unat ?next + i) mod N = (unat bi + Suc i) mod N" for i
      unfolding next' by (simp add: mod_simps)
    obtain k where k: "length es = Suc k" using False by (cases es) auto
    have "enqueue_loop it bi lst q m = Some (of_nat ((unat bi + length (e # es)) mod N), of_nat ((unat bi + length (e # es) - 1) mod N),
        q\<lparr>num_added := num_added q + of_nat (length (e # es))\<rparr>, m')"
      unfolding step m' using idx [of "length es"] idx [of k] by (simp add: k ac_simps)
    moreover have "\<forall>x. 16 * N \<le> unat (x - ?D) \<longrightarrow> m' x = m x" using out out' by simp
    moreover have "read_desc m' (entry ?D ((unat bi + i) mod N)) = linked_desc N ((unat bi + i) mod N) ((e # es) ! i)"
      if "i < length (e # es)" for i
    proof (cases i)
      case 0
      have "unat bi \<noteq> (unat ?next + i) mod N" if "i < length es" for i
        unfolding idx using ring_neq [of "unat bi" N "Suc i"] that Cons.prems(3,5) by simp
      then have "read_desc m' (entry ?D (unat bi)) = read_desc ?m1 (entry ?D (unat bi))"
        using others Cons.prems(3) by blast
      then show ?thesis using 0 Cons.prems(3) by (simp only: read_write_desc linked_desc_def e) simp
    next
      case (Suc i')
      then have "i' < length es" using that by simp
      from written [rule_format, OF this] show ?thesis unfolding idx Suc by simp
    qed
    moreover have "read_desc m' (entry ?D j) = read_desc m (entry ?D j)"
      if j: "j < N" "\<forall>i < length (e # es). j \<noteq> (unat bi + i) mod N" for j
    proof -
      have "j \<noteq> unat bi" using j(2) [rule_format, of 0] Cons.prems(3) by simp
      moreover have "j \<noteq> (unat ?next + i) mod N" if "i < length es" for i
        using j(2) [rule_format, of "Suc i"] that unfolding idx by simp
      ultimately show ?thesis
        using others j(1) entry_apart [of "unat bi" j ?D b n "bit f 0" ?next m] N Cons.prems(3) by simp
    qed
    ultimately show ?thesis by blast
  qed
qed

text \<open>The chain of descriptors a device follows from an index on: address, length, device-writable.\<close>

primrec chain :: "mem \<Rightarrow> addr \<Rightarrow> nat \<Rightarrow> u16 \<Rightarrow> (u64 \<times> u32 \<times> bool) list" where
  "chain m D 0 i = []"
| "chain m D (Suc k) i = (case read_desc m (entry D (unat i)) of (b, n, f, nx) \<Rightarrow>
     (b, n, bit f 1) # (if bit f 0 then chain m D k nx else []))"

lemma chain_list:
  assumes "\<And>i. i < length es \<Longrightarrow> read_desc m (entry D ((B + i) mod N)) =
      (case es ! i of (b, n, f) \<Rightarrow> (scast b, n, (if bit f 0 then 2 else 0) OR (if i = length es - 1 then 0 else 1), of_nat ((B + i + 1) mod N)))"
    and "es \<noteq> []" and "length es \<le> k" and "N \<le> 65535" "0 < N"
  shows "chain m D k (of_nat (B mod N)) = map (\<lambda>(b, n, f). (scast b, n, bit f 0)) es"
  using assms
proof (induction es arbitrary: B k)
  case (Cons e es)
  obtain b n f where e: "e = (b, n, f)" by (cases e)
  obtain k' where k: "k = Suc k'" using Cons.prems(3) by (cases k) auto
  have B: "unat (of_nat (B mod N) :: u16) = B mod N"
    using Cons.prems(4,5) by (simp only: unat_of_nat) (simp add: take_bit_nat_eq_self order.strict_trans1 [OF mod_less_eq_dividend] le_less_trans [OF less_imp_le [OF mod_less_divisor]])
  have flags: "bit ((if c then 2 else 0) OR (if t then 0 else 1) :: u16) 1 = c" "bit ((if c then 2 else 0) OR (if t then 0 else 1) :: u16) 0 = (\<not> t)" for c t
    by (simp_all add: bit_or_iff) 
  have "read_desc m (entry D (B mod N)) =
      (scast b, n, (if bit f 0 then 2 else 0) OR (if es = [] then 0 else 1), of_nat ((B + 1) mod N))"
    using Cons.prems(1) [of 0] e by simp
  moreover have "chain m D k' (of_nat ((B + 1) mod N)) = map (\<lambda>(b, n, f). (scast b, n, bit f 0)) es" if "es \<noteq> []"
  proof (rule Cons.IH)
    fix i assume "i < length es"
    then show "read_desc m (entry D ((B + 1 + i) mod N)) = (case es ! i of (b, n, f) \<Rightarrow>
        (scast b, n, (if bit f 0 then 2 else 0) OR (if i = length es - 1 then 0 else 1), of_nat ((B + 1 + i + 1) mod N)))"
      using Cons.prems(1) [of "Suc i"] that by (cases es) simp_all
  qed (use that Cons.prems(3-5) k in auto)
  ultimately show ?case
    by (simp add: k B e flags)
qed simp

lemma set_flags:
  "read_desc (st16 m (a + 12) v) a = (case read_desc m a of (b, n, f, nx) \<Rightarrow> (b, n, v, nx))"
  "16 \<le> unat (x - a) \<Longrightarrow> st16 m (a + 12) v x = m x"
proof -
  have near: "st16 m (a + 12) v (a + c) = m (a + c)" if "c < 12 \<or> c = 14 \<or> c = 15" for c
  proof -
    have "c \<noteq> 12 \<and> c \<noteq> 13" using that by (auto simp: word_less_nat_alt)
    then show ?thesis by (auto simp: st16_apply add.assoc)
  qed
  have "ld32 (st16 m (a + 12) v) a = ld32 m a" "ld32 (st16 m (a + 12) v) (a + 4) = ld32 m (a + 4)"
    "ld32 (st16 m (a + 12) v) (a + 8) = ld32 m (a + 8)" "ld16 (st16 m (a + 12) v) (a + 14) = ld16 m (a + 14)"
    using near [of 0] by (auto intro!: ld32_cong ld16_cong simp: near add.assoc)
  then show "read_desc (st16 m (a + 12) v) a = (case read_desc m a of (b, n, f, nx) \<Rightarrow> (b, n, v, nx))"
    by (simp add: read_desc_def ld64_def)
  assume "16 \<le> unat (x - a)"
  then have "2 \<le> x - a - 12" by (auto simp: word_le_nat_alt unat_sub)
  then show "st16 m (a + 12) v x = m x" by (simp add: diff_diff_eq st16_other)
qed

lemma sl_array_cong:
  assumes "sl_array m l es" and "3 * length es < 2 ^ 30" and "\<And>x. unat (x - l) < 12 * length es \<Longrightarrow> m' x = m x"
  shows "sl_array m' l es"
proof -
  have byte: "m' (l + of_nat k) = m (l + of_nat k)" if "k < 12 * length es" for k
    using assms(3) [of "l + of_nat k"] that assms(2) by (simp add: unat_of_nat take_bit_nat_eq_self)
  have word: "ld32 m' (l + 4 * of_nat k) = ld32 m (l + 4 * of_nat k)" if "k < 3 * length es" for k
    using byte [of "4 * k"] byte [of "4 * k + 1"] byte [of "4 * k + 2"] byte [of "4 * k + 3"] that
    by (intro ld32_cong) (simp_all add: ac_simps)
  have "entry_at m' (l + 12 * of_nat i) e t \<longleftrightarrow> entry_at m (l + 12 * of_nat i) e t" if "i < length es" for i e t
    using word [of "3 * i"] word [of "3 * i + 1"] word [of "3 * i + 2"] that
    by (cases e) (simp add: entry_at_words del: of_nat_mult of_nat_add of_nat_Suc)
  then show ?thesis using assms(1) by (simp add: sl_array_def)
qed

text \<open>A queue as virtio_create_queue lays it out: the available ring follows the descriptors.\<close>

definition queue_ok :: "virtio_queue \<Rightarrow> bool" where
  "queue_ok q \<longleftrightarrow> q_size q \<noteq> 0 \<and> unat (q_size q) \<le> 32768 \<and> next_buffer q < q_size q \<and>
     q_avail q = q_desc q + 16 * ucast (q_size q)"

lemma enqueue_list:
  assumes "queue_ok q" and "sl_array m l es" and "length es \<le> unat (q_size q)"
    and "\<forall>x. unat (x - l) < 12 * length es \<longrightarrow> 18 * unat (q_size q) + 6 \<le> unat (x - q_desc q)"
  shows "\<exists>q' m'. virtio_queue_enqueue l q m = Ret (q', m') \<and>
    (\<forall>m''. (\<forall>x. unat (x - q_desc q) < 16 * unat (q_size q) \<longrightarrow> m'' x = m' x) \<longrightarrow>
       chain m'' (q_desc q) (unat (q_size q)) (next_buffer q) = map (\<lambda>(b, n, f). (scast b, n, bit f 0)) es) \<and>
    ld16 m' (ring_at q (avail_idx m q mod q_size q)) = next_buffer q \<and> avail_idx m' q = avail_idx m q \<and>
    unat (next_buffer q') = (unat (next_buffer q) + length es) mod unat (q_size q) \<and>
    num_added q' = num_added q + of_nat (length es) \<and>
    (\<forall>x. 18 * unat (q_size q) + 6 \<le> unat (x - q_desc q) \<longrightarrow> m' x = m x) \<and>
    (\<forall>j < unat (q_size q). j \<noteq> unat (avail_idx m q mod q_size q) \<longrightarrow>
       ld16 m' (ring_at q (of_nat j)) = ld16 m (ring_at q (of_nat j))) \<and>
    q_avail q' = q_avail q \<and> q_used q' = q_used q \<and> q_desc q' = q_desc q \<and> q_size q' = q_size q \<and>
    q_iobase q' = q_iobase q \<and> q_idx q' = q_idx q"
proof -
  let ?N = "unat (q_size q)" and ?D = "q_desc q" and ?B = "unat (next_buffer q)"
  let ?idx = "unat (avail_idx m q mod q_size q)"
  let ?m1 = "st16 m (ring_at q (avail_idx m q mod q_size q)) (next_buffer q)"
  have N: "0 < ?N" "?N \<le> 32768" "?B < ?N" "?idx < ?N"
    using assms(1) unsigned_less [of "next_buffer q"]
    by (simp_all add: queue_ok_def word_less_nat_alt unat_mod word_neq_0_conv [symmetric] unat_gt_0)
  have es: "es \<noteq> []" using assms(2) by (simp add: sl_array_def)
  have nz: "q_size q \<noteq> 0" using assms(1) by (simp add: queue_ok_def)
  have avail: "q_avail q = ?D + of_nat (16 * ?N)" using assms(1) by (simp add: queue_ok_def)
  have ring: "ring_at q (avail_idx m q mod q_size q) = ?D + of_nat (16 * ?N + 4 + 2 * ?idx)"
    unfolding avail by simp
  let ?R = "16 * ?N + 4 + 2 * ?idx"
  have m1: "?m1 x = m x" if "unat (x - ?D) < ?R \<or> ?R + 2 \<le> unat (x - ?D)" for x
  proof -
    obtain k where k: "k < 2 ^ 32" "x = ?D + of_nat k" "unat (x - ?D) = k" by (rule offset_exists)
    then have "2 \<le> unat (x - (?D + of_nat ?R))"
      using that N unat_offset [of k ?R ?D] by (simp only:) (auto split: if_splits)
    then show ?thesis unfolding ring by (intro st16_other) (simp add: word_le_nat_alt)
  qed
  have array: "sl_array m' l es" if "\<forall>x. 16 * ?N \<le> unat (x - ?D) \<longrightarrow> m' x = ?m1 x" for m'
  proof (rule sl_array_cong [OF assms(2)])
    fix x assume "unat (x - l) < 12 * length es"
    then have far: "18 * ?N + 6 \<le> unat (x - ?D)" using assms(4) by blast
    then show "m' x = m x" using that m1 [of x] N(4) by simp
  qed (use assms(3) N in simp)
  let ?li = "(?B + length es - 1) mod ?N"
  obtain m2 where loop: "enqueue_loop (slit_begin l) (next_buffer q) (next_buffer q) q ?m1 =
        Some (of_nat ((?B + length es) mod ?N), of_nat ?li, q\<lparr>num_added := num_added q + of_nat (length es)\<rparr>, m2)"
      and out2: "\<forall>x. 16 * ?N \<le> unat (x - ?D) \<longrightarrow> m2 x = ?m1 x"
      and written: "\<forall>i < length es. read_desc m2 (entry ?D ((?B + i) mod ?N)) = linked_desc ?N ((?B + i) mod ?N) (es ! i)"
    using enqueue_loop_list [OF array standing_at_begin N(3) refl assms(3), where lst = "next_buffer q"] by blast
  have small: "unat (of_nat (k mod ?N) :: u16) = k mod ?N" for k
  proof -
    have "k mod ?N < 65536" using mod_less_divisor [OF N(1), of k] N(2) by linarith
    then show ?thesis by (simp only: unat_of_nat) (simp add: take_bit_nat_eq_self)
  qed
  let ?a = "entry ?D ?li"
  let ?m3 = "st16 m2 (?a + 12) (ld16 m2 (?a + 12) AND NOT VIRTQ_DESC_F_NEXT)"
  have li: "?li < ?N" using N(1) by simp
  have result: "virtio_queue_enqueue l q m =
      Ret (q\<lparr>num_added := num_added q + of_nat (length es), next_buffer := of_nat ((?B + length es) mod ?N)\<rparr>, ?m3)"
    using nz loop small unfolding virtio_queue_enqueue_def Let_def desc_at_entry
    by (simp del: of_nat_mult)
  have out3: "?m3 x = ?m1 x" if "16 * ?N \<le> unat (x - ?D)" for x
  proof -
    have "16 \<le> unat (x - ?a)" using table_far [OF li _ that] N(2) by simp
    then show ?thesis using out2 that by (simp add: set_flags(2))
  qed
  have chain: "chain m'' ?D ?N (of_nat (?B mod ?N)) = map (\<lambda>(b, n, f). (scast b, n, bit f 0)) es"
    if same: "\<forall>x. unat (x - ?D) < 16 * ?N \<longrightarrow> m'' x = ?m3 x" for m''
  proof (rule chain_list)
    fix i assume i: "i < length es"
    have "read_desc m'' (entry ?D ((?B + i) mod ?N)) = read_desc ?m3 (entry ?D ((?B + i) mod ?N))"
      by (rule read_desc_table [OF _ _ same]) (use N in simp_all)
    note same_desc = this
    obtain b n f where e: "es ! i = (b, n, f)" by (cases "es ! i")
    note desc = written [rule_format, OF i, unfolded e linked_desc_def split_conv]
    have "read_desc ?m3 (entry ?D ((?B + i) mod ?N)) = (case es ! i of (b, n, f) \<Rightarrow>
        (scast b, n, (if bit f 0 then 2 else 0) OR (if i = length es - 1 then 0 else 1), of_nat ((?B + i + 1) mod ?N)))"
    proof (cases "i = length es - 1")
      case True
      then have "(?B + i) mod ?N = ?li" using i by simp
      moreover have "ld16 m2 (?a + 12) = (if bit f 0 then 3 else 1)"
        using desc unfolding \<open>(?B + i) mod ?N = ?li\<close> by (simp add: read_desc_def)
      moreover obtain k where "length es = Suc k" using es by (cases es) auto
      ultimately show ?thesis
        using desc True e by (simp add: set_flags(1) VIRTQ_DESC_F_NEXT_def mod_simps del: of_nat_mult)
    next
      case False
      let ?B' = "(?B + i) mod ?N" and ?s = "length es - 1 - i"
      have "?B + i + ?s = ?B + length es - 1" using i by simp
      then have "(?B' + ?s) mod ?N = ?li" using mod_add_left_eq [of "?B + i" ?N ?s] by (simp only:)
      then have "?li \<noteq> ?B'" using ring_neq [of ?B' ?N ?s] N(1) i False assms(3) by simp
      then have "read_desc ?m3 (entry ?D ?B') = read_desc m2 (entry ?D ?B')"
      proof (intro read_desc_cong set_flags(2))
        fix k :: nat assume "k < 16"
        have "?B' < ?N" using N(1) by simp
        then have "?B' < 65536" "?li < 65536" using li N(2) by linarith+
        then show "16 \<le> unat (entry ?D ?B' + of_nat k - ?a)"
          using \<open>?li \<noteq> ?B'\<close> \<open>k < 16\<close> by (intro entries_far)
      qed
      then show ?thesis using desc False e by (simp add: mod_simps del: of_nat_mult)
    qed
    with same_desc show "read_desc m'' (entry ?D ((?B + i) mod ?N)) = (case es ! i of (b, n, f) \<Rightarrow>
        (scast b, n, (if bit f 0 then 2 else 0) OR (if i = length es - 1 then 0 else 1), of_nat ((?B + i + 1) mod ?N)))"
      by simp
  qed (use es assms(3) N in auto)
  have off: "unat (?D + of_nat k - ?D) = k" if "k < 2 ^ 32" for k
    using unat_offset [OF that, of 0 ?D] by simp
  have half: "ld16 ?m3 (?D + of_nat k) = ld16 ?m1 (?D + of_nat k)" if "16 * ?N \<le> k" "k + 1 < 2 ^ 32" for k
    using that out3 [of "?D + of_nat k"] out3 [of "?D + of_nat (k + 1)"] off [of k] off [of "k + 1"]
    by (intro ld16_cong) (simp_all add: ac_simps)
  have head: "ld16 ?m3 (?D + of_nat (16 * ?N + 4 + 2 * ?idx)) = next_buffer q"
    using half [of "16 * ?N + 4 + 2 * ?idx"] N ld16_st16_same [of m "ring_at q (avail_idx m q mod q_size q)" "next_buffer q"]
    unfolding ring by simp
  have index: "avail_idx ?m3 q = avail_idx m q"
  proof -
    have at: "q_avail q + 2 = ?D + of_nat (16 * ?N + 2)" unfolding avail by simp
    have "ld16 ?m3 (q_avail q + 2) = ld16 ?m3 (?D + of_nat (16 * ?N + 2))" by (rule arg_cong [OF at])
    also have "\<dots> = ld16 ?m1 (?D + of_nat (16 * ?N + 2))" by (rule half) (use N in simp_all)
    also have "\<dots> = ld16 m (?D + of_nat (16 * ?N + 2))"
      using N m1 [of "?D + of_nat (16 * ?N + 2)"] m1 [of "?D + of_nat (16 * ?N + 3)"] off [of "16 * ?N + 2"] off [of "16 * ?N + 3"]
      by (intro ld16_cong) (simp_all add: ac_simps)
    also have "\<dots> = avail_idx m q" by (rule arg_cong [OF at [symmetric]])
    finally show ?thesis .
  qed
  have keep: "?m1 (?D + of_nat k) = m (?D + of_nat k)"
    if "k < 2 ^ 32" "k < 16 * ?N + 4 + 2 * ?idx \<or> 16 * ?N + 4 + 2 * ?idx + 2 \<le> k" for k
    using m1 [of "?D + of_nat k"] that unfolding off [OF that(1)] by blast
  have slots: "ld16 ?m3 (ring_at q (of_nat j)) = ld16 m (ring_at q (of_nat j))" if "j < ?N" "j \<noteq> ?idx" for j
  proof -
    have j: "unat (of_nat j :: u16) = j" using that N(2) by (simp only: unat_of_nat) (simp add: take_bit_nat_eq_self)
    have "(ucast (of_nat j :: u16) :: addr) = of_nat (unat (of_nat j :: u16))" by simp
    then have at: "ring_at q (of_nat j) = ?D + of_nat (16 * ?N + 4 + 2 * j)" unfolding avail j by simp
    have "ld16 ?m3 (ring_at q (of_nat j)) = ld16 ?m3 (?D + of_nat (16 * ?N + 4 + 2 * j))" by (rule arg_cong [OF at])
    also have "\<dots> = ld16 ?m1 (?D + of_nat (16 * ?N + 4 + 2 * j))" by (rule half) (use N that in simp_all)
    also have "\<dots> = ld16 m (?D + of_nat (16 * ?N + 4 + 2 * j))"
    proof (rule ld16_cong)
      have apart: "j < ?idx \<or> ?idx < j" using that by linarith
      show "?m1 (?D + of_nat (16 * ?N + 4 + 2 * j)) = m (?D + of_nat (16 * ?N + 4 + 2 * j))"
        using apart N(2) that(1) by (intro keep) auto
      have "?m1 (?D + of_nat (16 * ?N + 5 + 2 * j)) = m (?D + of_nat (16 * ?N + 5 + 2 * j))"
        using apart N(2) that(1) by (intro keep) auto
      moreover have "?D + of_nat (16 * ?N + 5 + 2 * j) = ?D + of_nat (16 * ?N + 4 + 2 * j) + 1" by simp
      ultimately show "?m1 (?D + of_nat (16 * ?N + 4 + 2 * j) + 1) = m (?D + of_nat (16 * ?N + 4 + 2 * j) + 1)"
        by (simp only:)
    qed
    also have "\<dots> = ld16 m (ring_at q (of_nat j))" by (rule arg_cong [OF at [symmetric]])
    finally show ?thesis .
  qed
  have rest: "?m3 x = m x" if "18 * ?N + 6 \<le> unat (x - ?D)" for x
    using out3 [of x] m1 [of x] that N(4) by simp
  show ?thesis
  proof (intro exI conjI)
    show "virtio_queue_enqueue l q m =
        Ret (q\<lparr>num_added := num_added q + of_nat (length es), next_buffer := of_nat ((?B + length es) mod ?N)\<rparr>, ?m3)"
      by (rule result)
    show "\<forall>m''. (\<forall>x. unat (x - ?D) < 16 * ?N \<longrightarrow> m'' x = ?m3 x) \<longrightarrow>
        chain m'' ?D ?N (next_buffer q) = map (\<lambda>(b, n, f). (scast b, n, bit f 0)) es"
      using chain N(3) by simp
    show "ld16 ?m3 (ring_at q (avail_idx m q mod q_size q)) = next_buffer q"
      unfolding ring by (rule head)
    show "\<forall>j < ?N. j \<noteq> ?idx \<longrightarrow> ld16 ?m3 (ring_at q (of_nat j)) = ld16 m (ring_at q (of_nat j))"
      using slots by blast
  qed (use index rest small [of "?B + length es"] in simp_all)
qed

text \<open>
  C31: Enqueueing a scatter list. Let q be a queue whose available ring follows its N descriptors,
  and let a list of at most N entries lie outside both. virtio_queue_enqueue then returns; the chain
  of descriptors that starts at the next free one describes exactly the buffers of the list, in
  order, with their lengths and their directions, and ends there; the head of the chain is in the
  ring slot of the current available index, which has not moved; the driver's next free descriptor
  and its count of new descriptors have advanced by the length of the list, and no byte outside the
  descriptors and the available ring has changed.
\<close>
theorem enqueue_describes_list:
  assumes "queue_ok q" and "sl_array m l es" and "length es \<le> unat (q_size q)"
    and "\<forall>x. unat (x - l) < 12 * length es \<longrightarrow> 18 * unat (q_size q) + 6 \<le> unat (x - q_desc q)"
  shows "\<exists>q' m'. virtio_queue_enqueue l q m = Ret (q', m') \<and>
    chain m' (q_desc q) (unat (q_size q)) (next_buffer q) = map (\<lambda>(b, n, f). (scast b, n, bit f 0)) es \<and>
    ld16 m' (ring_at q (avail_idx m q mod q_size q)) = next_buffer q \<and> avail_idx m' q = avail_idx m q \<and>
    unat (next_buffer q') = (unat (next_buffer q) + length es) mod unat (q_size q) \<and>
    num_added q' = num_added q + of_nat (length es) \<and>
    (\<forall>x. 18 * unat (q_size q) + 6 \<le> unat (x - q_desc q) \<longrightarrow> m' x = m x)"
  using enqueue_list [OF assms] by blast

definition some_queue :: virtio_queue where
  "some_queue = \<lparr>q_iobase = 0xC000, q_idx = 1, next_buffer = 6, num_added = 0, q_size = 8, last_buffer_seen = 0,
     q_desc = 0x2000, q_avail = 0x2080, q_used = 0x3000\<rparr>"

definition some_buffers :: "sl_entry list" where
  "some_buffers = [(0x5000, 16, 0), (0x6000, 512, 1), (0xC0007000, 1, 1)]"

lemma some_list_apart:
  "\<forall>x. unat (x - 0x9000) < 12 * length some_buffers \<longrightarrow> 18 * unat (q_size some_queue) + 6 \<le> unat (x - q_desc some_queue)"
  by (auto simp: some_buffers_def some_queue_def intro: range_apart)

lemma some_queue_ok: "queue_ok some_queue"
  by (simp add: queue_ok_def some_queue_def)

lemma some_list: "sl_array (sl_build 0x9000 some_buffers m) 0x9000 some_buffers"
  by (rule sl_build_array) (simp_all add: some_buffers_def)

theorem enqueue_describes_list_witness:
  "\<exists>q' m'. virtio_queue_enqueue 0x9000 some_queue (sl_build 0x9000 some_buffers (\<lambda>_. 0)) = Ret (q', m') \<and>
     chain m' 0x2000 8 6 = [(0x5000, 16, False), (0x6000, 512, True), (0xFFFFFFFFC0007000, 1, True)] \<and>
     unat (next_buffer q') = 1"
proof -
  have small: "length some_buffers \<le> unat (q_size some_queue)" by (simp add: some_buffers_def some_queue_def)
  obtain q' m' where e: "virtio_queue_enqueue 0x9000 some_queue (sl_build 0x9000 some_buffers (\<lambda>_. 0)) = Ret (q', m')"
    "chain m' (q_desc some_queue) (unat (q_size some_queue)) (next_buffer some_queue) =
       map (\<lambda>(b, n, f). (scast b, n, bit f 0)) some_buffers"
    "unat (next_buffer q') = (unat (next_buffer some_queue) + length some_buffers) mod unat (q_size some_queue)"
    using enqueue_describes_list [OF some_queue_ok some_list small some_list_apart] by blast
  have "map (\<lambda>(b, n, f). (scast b, n, bit f 0)) some_buffers =
      [(0x5000 :: u64, 16, False), (0x6000, 512, True), (0xFFFFFFFFC0007000, 1, True)]"
    unfolding some_buffers_def by code_simp
  then show ?thesis using e by (intro exI [of _ q'] exI [of _ m']) (simp add: some_queue_def some_buffers_def)
qed

text \<open>The kick: the available index, and the notification unless the device has asked for none.\<close>

definition notification :: "mem \<Rightarrow> virtio_queue \<Rightarrow> trace" where
  "notification m q = (if ld16 m (q_used q) AND VIRTQ_USED_F_NO_NOTIFY = 0
     then [Outs (ucast (q_iobase q + 16)) (ucast (q_idx q))] else [])"

lemma kick_result:
  "virtio_queue_kick q m t = (let m1 = st16 m (q_avail q + 2) (avail_idx m q + num_added q)
     in (q\<lparr>num_added := 0\<rparr>, m1, t @ notification m1 q))"
  by (simp add: virtio_queue_kick_def virtio_queue_notify_def notification_def Let_def)

text \<open>The index is a matter of the queue's own bytes.\<close>

lemma avail_idx_cong:
  assumes "queue_ok q" and "\<forall>x. unat (x - q_desc q) < 18 * unat (q_size q) + 6 \<longrightarrow> m' x = m x"
  shows "avail_idx m' q = avail_idx m q"
proof -
  let ?k = "16 * unat (q_size q) + 2"
  have k: "?k + 1 < 2 ^ 32" "?k + 1 < 18 * unat (q_size q) + 6" using assms(1) by (simp_all add: queue_ok_def)
  have "m' (q_desc q + of_nat i) = m (q_desc q + of_nat i)" if "i \<le> ?k + 1" for i
    using assms(2) k that unat_offset [of i 0 "q_desc q"] by simp
  from this [of ?k] this [of "?k + 1"] show ?thesis
    using assms(1) by (intro ld16_cong) (simp_all add: queue_ok_def ac_simps)
qed

text \<open>Storing the index leaves the slots alone.\<close>

lemma slot_behind_index:
  assumes "queue_ok q" and "j < unat (q_size q)"
  shows "ld16 (st16 m (q_avail q + 2) v) (ring_at q (of_nat j)) = ld16 m (ring_at q (of_nat j))"
proof (intro ld16_cong st16_other)
  have j: "unat (of_nat j :: u16) = j" "j < 32768" using assms
    by (auto simp: queue_ok_def unat_of_nat take_bit_nat_eq_self)
  have "(ucast (of_nat j :: u16) :: addr) = of_nat (unat (of_nat j :: u16))" by simp
  then have c: "(ucast (of_nat j :: u16) :: addr) = of_nat j" unfolding j .
  have "ring_at q (of_nat j) - (q_avail q + 2) = of_nat (2 + 2 * j)" unfolding c by simp
  then show "2 \<le> ring_at q (of_nat j) - (q_avail q + 2)" using j(2)
    by (simp only: word_le_nat_alt unat_of_nat) (simp add: take_bit_nat_eq_self)
  have "ring_at q (of_nat j) + 1 - (q_avail q + 2) = of_nat (3 + 2 * j)" unfolding c by simp
  then show "2 \<le> ring_at q (of_nat j) + 1 - (q_avail q + 2)" using j(2)
    by (simp only: word_le_nat_alt unat_of_nat) (simp add: take_bit_nat_eq_self)
qed

text \<open>
  C32: What the kick tells the device. Let a list of at most N entries be enqueued on a queue without
  unannounced buffers and the queue then be kicked: the available index moves by the number of
  descriptors, not by the one chain that was added, although no ring slot but the one of the head
  has been filled. For a list of two or more entries the device is told of chains whose heads are
  whatever the following slots held before.
\<close>
theorem kick_announces_descriptors:
  assumes "queue_ok q" and "sl_array m l es" and "length es \<le> unat (q_size q)"
    and "\<forall>x. unat (x - l) < 12 * length es \<longrightarrow> 18 * unat (q_size q) + 6 \<le> unat (x - q_desc q)"
    and "num_added q = 0"
  shows "\<exists>q' m'. virtio_queue_enqueue l q m = Ret (q', m') \<and>
    (case virtio_queue_kick q' m' t of (q'', m'', t') \<Rightarrow>
       num_added q'' = 0 \<and> avail_idx m'' q = avail_idx m q + of_nat (length es) \<and>
       (\<forall>j < unat (q_size q). j \<noteq> unat (avail_idx m q mod q_size q) \<longrightarrow>
          ld16 m'' (ring_at q (of_nat j)) = ld16 m (ring_at q (of_nat j))))"
proof -
  obtain q' m' where e: "virtio_queue_enqueue l q m = Ret (q', m')"
    "avail_idx m' q = avail_idx m q" "num_added q' = num_added q + of_nat (length es)"
    "\<forall>j < unat (q_size q). j \<noteq> unat (avail_idx m q mod q_size q) \<longrightarrow>
       ld16 m' (ring_at q (of_nat j)) = ld16 m (ring_at q (of_nat j))" "q_avail q' = q_avail q"
    using enqueue_list [OF assms(1-4)] by blast
  let ?m2 = "st16 m' (q_avail q + 2) (avail_idx m' q + num_added q')"
  note slot = slot_behind_index [OF assms(1)]
  have "fst (virtio_queue_kick q' m' t) = q'\<lparr>num_added := 0\<rparr>" "fst (snd (virtio_queue_kick q' m' t)) = ?m2"
    using e(5) by (simp_all add: virtio_queue_kick_def Let_def)
  then show ?thesis using e slot assms(5)
    by (intro exI conjI) (auto split: prod.split)
qed

theorem kick_announces_descriptors_witness:
  "\<exists>q' m'. virtio_queue_enqueue 0x9000 some_queue (sl_build 0x9000 some_buffers (\<lambda>_. 0)) = Ret (q', m') \<and>
    (case virtio_queue_kick q' m' [] of (q'', m'', t') \<Rightarrow> avail_idx m'' some_queue = 3)"
proof -
  have small: "length some_buffers \<le> unat (q_size some_queue)" by (simp add: some_buffers_def some_queue_def)
  have fresh: "num_added some_queue = 0" by (simp add: some_queue_def)
  have "avail_idx (sl_build 0x9000 some_buffers (\<lambda>_. 0)) some_queue = 0"
    by (simp add: ld16_def sl_build_outside some_queue_def some_buffers_def)
  moreover have "of_nat (length some_buffers) = (3 :: u16)" by (simp add: some_buffers_def)
  moreover obtain q' m' where "virtio_queue_enqueue 0x9000 some_queue (sl_build 0x9000 some_buffers (\<lambda>_. 0)) = Ret (q', m')"
    "case virtio_queue_kick q' m' [] of (q'', m'', t') \<Rightarrow>
       avail_idx m'' some_queue = avail_idx (sl_build 0x9000 some_buffers (\<lambda>_. 0)) some_queue + of_nat (length some_buffers)"
    using kick_announces_descriptors [OF some_queue_ok some_list small some_list_apart fresh,
        where t = "[]" and m1 = "\<lambda>_. 0"] by auto
  ultimately show ?thesis by (intro exI [of _ q'] exI [of _ m']) (auto split: prod.splits)
qed

end
