(* ===== verification/Virtio_Transport.thy ===== *)
theory Virtio_Transport
  imports Virtqueue Pci
begin

text \<open>
  The transport of virtio devices over I/O ports (kernel/drivers/virtio/virtio.c, virtio.h): the
  accessors of the device's header, its status, features, configuration and queues.

  struct virtio_dev starts with the pci_dev the bus works with; the functions get it as an argument
  of its own, so the record holds the other fields. The packed struct virtio_header has
  device_features at 0, guest_features at 4, queue_addr at 8, queue_size at 12, queue_select at 14,
  queue_notify at 16, device_status at 18, isr_status at 19, config_msix_vector at 20,
  queue_msix_vector at 22 and 24 bytes.
\<close>

record virtio_dev =
  devce_type :: u8
  iobase :: u32
  features :: u32
  vdev_driver :: addr

definition VIRTIO_VENDOR_ID :: u16 where "VIRTIO_VENDOR_ID = 0x1AF4"
definition VIRTIO_MSIX_HEADER_SIZE :: u32 where "VIRTIO_MSIX_HEADER_SIZE = 0x04"
definition VIRTIO_STATUS_ACK :: u8 where "VIRTIO_STATUS_ACK = 0"
definition VIRTIO_STATUS_DRI :: u8 where "VIRTIO_STATUS_DRI = 1"
definition VIRTIO_STATUS_DRI_OK :: u8 where "VIRTIO_STATUS_DRI_OK = 2"
definition VIRTIO_STATUS_FEATURES_OK :: u8 where "VIRTIO_STATUS_FEATURES_OK = 3"
definition VIRTIO_STATUS_FAILED :: u8 where "VIRTIO_STATUS_FAILED = 6"

section \<open>The header\<close>

text \<open>
  The functions inb and ins of io.asm load al and ax; the C functions return all of eax, whose
  upper part is whatever it held. The value port_in gives is that of eax.
\<close>

definition virtio_header_get_byte :: "hw \<Rightarrow> u32 \<Rightarrow> u32 \<Rightarrow> trace \<Rightarrow> u32 \<times> trace" where
  "virtio_header_get_byte hw io offset t =
     (let port = ucast (io + offset); v = port_in hw t port in (v, t @ [Inb port (ucast v)]))"

definition virtio_header_get_word :: "hw \<Rightarrow> u32 \<Rightarrow> u32 \<Rightarrow> trace \<Rightarrow> u32 \<times> trace" where
  "virtio_header_get_word hw io offset t =
     (let port = ucast (io + offset); v = port_in hw t port in (v, t @ [Ins port (ucast v)]))"

definition virtio_header_get_dword :: "hw \<Rightarrow> u32 \<Rightarrow> u32 \<Rightarrow> trace \<Rightarrow> u32 \<times> trace" where
  "virtio_header_get_dword hw io offset t = inl hw (ucast (io + offset)) t"

definition virtio_header_set_byte :: "u32 \<Rightarrow> u32 \<Rightarrow> u8 \<Rightarrow> trace \<Rightarrow> trace" where
  "virtio_header_set_byte io offset v t = t @ [Outb (ucast (io + offset)) v]"

definition virtio_header_set_word :: "u32 \<Rightarrow> u32 \<Rightarrow> u16 \<Rightarrow> trace \<Rightarrow> trace" where
  "virtio_header_set_word io offset v t = t @ [Outs (ucast (io + offset)) v]"

definition virtio_header_set_dword :: "u32 \<Rightarrow> u32 \<Rightarrow> u32 \<Rightarrow> trace \<Rightarrow> trace" where
  "virtio_header_set_dword io offset v t = t @ [Outl (ucast (io + offset)) v]"

text \<open>The loop of the 64-bit access counts bits and uses the count as a byte offset.\<close>

definition virtio_header_set_qword :: "u32 \<Rightarrow> u32 \<Rightarrow> addr \<Rightarrow> mem \<Rightarrow> trace \<Rightarrow> trace" where
  "virtio_header_set_qword io offset buffer m t =
     fold (\<lambda>i t. t @ [Outl (ucast (io + offset + i)) (ld32 m (buffer + i))]) [0, 32] t"

section \<open>Status, features, configuration\<close>

definition virtio_add_status :: "hw \<Rightarrow> u32 \<Rightarrow> u8 \<Rightarrow> trace \<Rightarrow> trace" where
  "virtio_add_status hw io ns t =
     (let (v, t1) = virtio_header_get_byte hw io 18 t;
          status = (v AND 0xff) OR shl32 1 (ucast ns);
          t2 = virtio_header_set_byte io 18 (ucast status) t1
      in snd (virtio_header_get_byte hw io 18 t2))"

text \<open>The bytes read, in the order they are stored into the buffer; size is signed.\<close>

primrec read_bytes :: "hw \<Rightarrow> u32 \<Rightarrow> u32 \<Rightarrow> nat \<Rightarrow> trace \<Rightarrow> u8 list \<times> trace" where
  "read_bytes hw io offset 0 t = ([], t)"
| "read_bytes hw io offset (Suc n) t =
     (let (b, t1) = virtio_header_get_byte hw io offset t;
          (bs, t2) = read_bytes hw io (offset + 1) n t1
      in (ucast b # bs, t2))"

definition virtio_get_config :: "hw \<Rightarrow> u32 \<Rightarrow> u32 \<Rightarrow> i32 \<Rightarrow> trace \<Rightarrow> u8 list \<times> trace" where
  "virtio_get_config hw io offset size' t = read_bytes hw io offset (nat (sint size')) t"

definition get_config_offset :: "pci_dev \<Rightarrow> u32" where
  "get_config_offset pd = (let offset = 24 in if enabled (dev_msix pd) = 0 then offset - VIRTIO_MSIX_HEADER_SIZE else offset)"

definition virtio_read_config :: "hw \<Rightarrow> pci_dev \<Rightarrow> virtio_dev \<Rightarrow> i32 \<Rightarrow> trace \<Rightarrow> u8 list \<times> trace" where
  "virtio_read_config hw pd vd size' t = read_bytes hw (iobase vd) (get_config_offset pd) (nat (sint size')) t"

definition virtio_get_isr :: "hw \<Rightarrow> virtio_dev \<Rightarrow> trace \<Rightarrow> u8 \<times> trace" where
  "virtio_get_isr hw vd t = (let (v, t1) = virtio_header_get_byte hw (iobase vd) 19 t in (ucast v, t1))"

definition vdev_confirm_features :: "hw \<Rightarrow> virtio_dev \<Rightarrow> u32 \<Rightarrow> trace \<Rightarrow> bool \<times> trace" where
  "vdev_confirm_features hw vd fs t =
     (let t1 = virtio_header_set_dword (iobase vd) 4 fs t;
          (features1, t2) = virtio_header_get_dword hw (iobase vd) 0 t1
      in (fs AND features1 = fs, t2))"

definition virtio_get_features :: "hw \<Rightarrow> virtio_dev \<Rightarrow> trace \<Rightarrow> u32 \<times> trace" where
  "virtio_get_features hw vd t = virtio_header_get_dword hw (iobase vd) 0 t"

section \<open>Queues\<close>

definition virtio_set_queue ::
    "hw \<Rightarrow> pci_dev \<Rightarrow> virtio_dev \<Rightarrow> i32 \<Rightarrow> virtio_queue \<Rightarrow> trace \<Rightarrow> (virtio_queue \<times> trace) run" where
  "virtio_set_queue hw pd vd i q t =
     (let q1 = q\<lparr>q_idx := i, q_iobase := iobase vd\<rparr>; uaddr = q_desc q div 4096;
          t1 = virtio_header_set_word (iobase vd) 14 (ucast i) t;
          t2 = virtio_header_set_dword (iobase vd) 8 uaddr t1;
          (a, t3) = virtio_header_get_dword hw (iobase vd) 8 t2
      in run_bind (assert1 (a = uaddr)) (\<lambda>_.
           if enabled (dev_msix pd) \<noteq> 0 then
             let t4 = virtio_header_set_word (iobase vd) 20 0 t3;
                 t5 = virtio_header_set_word (iobase vd) 22 1 t4
             in Ret (q1, snd (virtio_header_get_word hw (iobase vd) 22 t5))
           else Ret (q1, t3)))"

definition virtio_get_queue_size :: "hw \<Rightarrow> virtio_dev \<Rightarrow> i32 \<Rightarrow> trace \<Rightarrow> u32 \<times> trace" where
  "virtio_get_queue_size hw vd i t =
     virtio_header_get_word hw (iobase vd) 12 (virtio_header_set_word (iobase vd) 14 (ucast i) t)"

end
