(* ===== verification/Virtio_Console.thy ===== *)
theory Virtio_Console
  imports Virtio_Transport
begin

text \<open>
  The virtio console (kernel/drivers/virtio/virtio_console.c). A port has a receive and a transmit
  queue and a page of buffer for each; the control messages of the device have a port of their own.
  The ports are linked through their node fields, the one embedded in struct virtio_console first;
  FOR_EACH_LIST and dlist_insert_tail see them in the order of the list here (the theory Libc_List).
\<close>

section \<open>State\<close>

record port_buffer =
  buf_base :: addr
  buf_len :: u32
  buf_used :: u32

text \<open>A queue pointer of a port is NULL before console_init_port has set it.\<close>

record console_port =
  inbuf :: port_buffer
  outbuf :: port_buffer
  vq_in :: "virtio_queue option"
  vq_out :: "virtio_queue option"
  port_name :: addr
  port_flags :: u8
  port_id :: u16
  vq_base :: u16

record virtio_console_config =
  cfg_cols :: u16
  cfg_rows :: u16
  nr_ports :: u32
  emerg_wr :: u32

record virtio_console =
  cdev_vdev :: virtio_dev
  cdev_cfg :: virtio_console_config
  num_ports :: u16
  cmsg_port :: console_port
  ports :: "console_port list"

text \<open>
  Where the kernel's stack holds the local arrays: the scatter list of port_add_inbuf and
  port_write_data, the control message, the string of port_handle_input; and where the compiler has put the string literals.
\<close>

record locals =
  at_list :: addr
  at_message :: addr
  at_string :: addr
  literal_at :: "string \<Rightarrow> addr"

text \<open>The state the operations work on: the heap with all of memory, and the trace.\<close>

type_synonym machine = "slabs \<times> trace"

definition RN :: "u16 \<Rightarrow> u16" where "RN n = 4 + 2 * (n - 1)"
definition WN :: "u16 \<Rightarrow> u16" where "WN n = RN n + 1"

definition CONSOLE_PORT_CONSOLE :: u8 where "CONSOLE_PORT_CONSOLE = push_bit 0 1"
definition CONSOLE_PORT_OPEN :: u8 where "CONSOLE_PORT_OPEN = push_bit 1 1"

definition VIRTIO_CONSOLE_F_SIZE :: nat where "VIRTIO_CONSOLE_F_SIZE = 0"
definition VIRTIO_CONSOLE_F_MULTIPORT :: nat where "VIRTIO_CONSOLE_F_MULTIPORT = 1"
definition VIRTIO_CONSOLE_F_EMERG_WRITE :: nat where "VIRTIO_CONSOLE_F_EMERG_WRITE = 2"
definition VIRTIO_CONSOLE_DEVICE_READY :: u16 where "VIRTIO_CONSOLE_DEVICE_READY = 0"
definition VIRTIO_CONSOLE_DEVICE_ADD :: u16 where "VIRTIO_CONSOLE_DEVICE_ADD = 1"
definition VIRTIO_CONSOLE_PORT_READY :: u16 where "VIRTIO_CONSOLE_PORT_READY = 3"
definition VIRTIO_CONSOLE_PORT_OPEN :: u16 where "VIRTIO_CONSOLE_PORT_OPEN = 6"
definition VIRTIO_CONSOLE_PORT_NAME :: u16 where "VIRTIO_CONSOLE_PORT_NAME = 7"

definition VQ_IN :: u32 where "VQ_IN = 1"
definition VQ_OUT :: u32 where "VQ_OUT = 0"

text \<open>The flag's new value is or'ed in shifted, whatever its width, and truncated to the u8.\<close>

definition SET_PORT_OPEN_FLAG :: "u16 \<Rightarrow> console_port \<Rightarrow> console_port" where
  "SET_PORT_OPEN_FLAG v p = p\<lparr>port_flags := CLEAR_BIT (port_flags p) CONSOLE_PORT_OPEN OR ucast (push_bit 1 v)\<rparr>"

definition SET_PORT_CONSOLE_FLAG :: "u16 \<Rightarrow> console_port \<Rightarrow> console_port" where
  "SET_PORT_CONSOLE_FLAG v p = p\<lparr>port_flags := CLEAR_BIT (port_flags p) CONSOLE_PORT_CONSOLE OR ucast v\<rparr>"

definition IS_PORT_OPEN :: "console_port \<Rightarrow> bool" where
  "IS_PORT_OPEN p \<longleftrightarrow> port_flags p AND CONSOLE_PORT_OPEN = CONSOLE_PORT_OPEN"

definition zero_port :: console_port where
  "zero_port = \<lparr>inbuf = \<lparr>buf_base = 0, buf_len = 0, buf_used = 0\<rparr>, outbuf = \<lparr>buf_base = 0, buf_len = 0, buf_used = 0\<rparr>,
     vq_in = None, vq_out = None, port_name = 0, port_flags = 0, port_id = 0, vq_base = 0\<rparr>"

section \<open>Buffers\<close>

definition init_port_buffer :: "(u32 \<Rightarrow> u32) \<Rightarrow> port_buffer \<Rightarrow> slabs \<Rightarrow> (port_buffer \<times> slabs) run" where
  "init_port_buffer lz b s =
     run_bind (kalloc lz (smem s) 1) (\<lambda>(m, a). Ret (b\<lparr>buf_base := a, buf_len := kb 4\<rparr>, s\<lparr>smem := m\<rparr>))"

text \<open>A list of one buffer at a; val is the direction.\<close>

definition one_buffer :: "addr \<Rightarrow> addr \<Rightarrow> u32 \<Rightarrow> u32 \<Rightarrow> mem \<Rightarrow> mem" where
  "one_buffer a buffer len val m = sl_bind_attribute a SL_USER_0 val (sl_bind_buffer a buffer len (sl_list_init a 1 m))"

definition enqueue_and_kick :: "addr \<Rightarrow> virtio_queue \<Rightarrow> machine \<Rightarrow> (virtio_queue \<times> machine) run" where
  "enqueue_and_kick sl q = (\<lambda>(s, t).
     run_bind (virtio_queue_enqueue sl q (smem s)) (\<lambda>(q1, m1).
       let (q2, m2, t2) = virtio_queue_kick q1 m1 t in Ret (q2, s\<lparr>smem := m2\<rparr>, t2)))"

definition port_add_inbuf :: "locals \<Rightarrow> console_port \<Rightarrow> machine \<Rightarrow> (console_port \<times> machine) run" where
  "port_add_inbuf L p = (\<lambda>(s, t).
     case vq_in p of None \<Rightarrow> Trap Null_deref
     | Some q \<Rightarrow>
         let buf = inbuf p;
             m = one_buffer (at_list L) (buf_base buf + buf_used buf) (buf_len buf - buf_used buf) VQ_IN (smem s)
         in run_bind (enqueue_and_kick (at_list L) q (s\<lparr>smem := m\<rparr>, t)) (\<lambda>(q1, st). Ret (p\<lparr>vq_in := Some q1\<rparr>, st)))"

definition port_update_inbuf :: "locals \<Rightarrow> console_port \<Rightarrow> u32 \<Rightarrow> machine \<Rightarrow> (console_port \<times> machine) run" where
  "port_update_inbuf L p len st =
     (let buf = inbuf p;
          buf1 = (if buf_len buf - 8 < buf_used buf + len then buf\<lparr>buf_used := 0\<rparr>
                  else buf\<lparr>buf_used := buf_used buf + len\<rparr>)
      in port_add_inbuf L (p\<lparr>inbuf := buf1\<rparr>) st)"

definition port_get_outbuff :: "console_port \<Rightarrow> u32 \<Rightarrow> (addr \<times> console_port) run" where
  "port_get_outbuff p len =
     (let buf = outbuf p
      in run_bind (assert1 (len < buf_len buf)) (\<lambda>_.
           let buf1 = (if buf_len buf < buf_used buf + len then buf\<lparr>buf_used := 0\<rparr> else buf)
           in Ret (buf_base buf1 + buf_used buf1, p\<lparr>outbuf := buf1\<lparr>buf_used := buf_used buf1 + len\<rparr>\<rparr>)))"

definition port_write_data :: "locals \<Rightarrow> console_port \<Rightarrow> addr \<Rightarrow> u32 \<Rightarrow> machine \<Rightarrow> (console_port \<times> machine) run" where
  "port_write_data L p dat len = (\<lambda>(s, t).
     if \<not> IS_PORT_OPEN p then Ret (p, s, t)
     else run_bind (port_get_outbuff p len) (\<lambda>(ring_buffer, p1).
       let m1 = memcpy (smem s) dat ring_buffer len;
           m2 = one_buffer (at_list L) ring_buffer len VQ_OUT m1
       in case vq_out p1 of None \<Rightarrow> Trap Null_deref
          | Some q \<Rightarrow> run_bind (enqueue_and_kick (at_list L) q (s\<lparr>smem := m2\<rparr>, t))
              (\<lambda>(q1, st). Ret (p1\<lparr>vq_out := Some q1\<rparr>, st))))"

text \<open>struct virtio_console_control: id at 0, event at 4, value at 6.\<close>

definition console_send_control_message ::
    "locals \<Rightarrow> virtio_console \<Rightarrow> u32 \<Rightarrow> u16 \<Rightarrow> u16 \<Rightarrow> machine \<Rightarrow> (virtio_console \<times> machine) run" where
  "console_send_control_message L c id' event val = (\<lambda>(s, t).
     let a = at_message L; m = st16 (st16 (st32 (smem s) a id') (a + 4) event) (a + 6) val
     in run_bind (port_write_data L (cmsg_port c) a 8 (s\<lparr>smem := m\<rparr>, t))
          (\<lambda>(p, st). Ret (c\<lparr>cmsg_port := p\<rparr>, st)))"

section \<open>Ports\<close>

text \<open>The position of the first port with the id.\<close>

definition find_port_by_id :: "virtio_console \<Rightarrow> u16 \<Rightarrow> nat option" where
  "find_port_by_id c i = find (\<lambda>k. port_id (ports c ! k) = i) [0..<length (ports c)]"

definition console_init_port ::
    "(u32 \<Rightarrow> u32) \<Rightarrow> hw \<Rightarrow> pci_dev \<Rightarrow> locals \<Rightarrow> virtio_dev \<Rightarrow> console_port \<Rightarrow> machine \<Rightarrow> (console_port \<times> machine) run" where
  "console_init_port lz hw pd L vd p = (\<lambda>(s, t).
     let base_id = ucast (ucast (vq_base p) :: u8) :: i32;
         (n0, t1) = virtio_get_queue_size hw vd base_id t
     in run_bind (virtio_create_queue lz n0 s) (\<lambda>(s1, rq0).
       let (n1, t2) = virtio_get_queue_size hw vd (base_id + 1) t1
       in run_bind (virtio_create_queue lz n1 s1) (\<lambda>(s2, tq0).
         run_bind (virtio_set_queue hw pd vd base_id rq0 t2) (\<lambda>(rq1, t3).
           run_bind (virtio_set_queue hw pd vd (base_id + 1) tq0 t3) (\<lambda>(tq1, t4).
             run_bind (init_port_buffer lz (inbuf p) s2) (\<lambda>(ib, s3).
               run_bind (init_port_buffer lz (outbuf p) s3) (\<lambda>(ob, s4).
                 port_add_inbuf L (p\<lparr>inbuf := ib, outbuf := ob, vq_in := Some rq1, vq_out := Some tq1\<rparr>) (s4, t4))))))))"

text \<open>struct console_port has 52 bytes.\<close>

definition console_add_port ::
    "(u32 \<Rightarrow> u32) \<Rightarrow> hw \<Rightarrow> pci_dev \<Rightarrow> locals \<Rightarrow> virtio_console \<Rightarrow> u16 \<Rightarrow> machine \<Rightarrow> (virtio_console \<times> machine) run" where
  "console_add_port lz hw pd L c i = (\<lambda>(s, t).
     run_bind (kzmalloc lz 52 s) (\<lambda>(s1, a).
       run_bind (console_init_port lz hw pd L (cdev_vdev c) (zero_port\<lparr>port_id := i, vq_base := RN i\<rparr>) (s1, t))
         (\<lambda>(p, st). Ret (c\<lparr>ports := ports c @ [p]\<rparr>, st))))"

definition port_has_unseen_buffers :: "mem \<Rightarrow> console_port \<Rightarrow> bool run" where
  "port_has_unseen_buffers m p =
     (case vq_in p of None \<Rightarrow> Trap Null_deref | Some q \<Rightarrow> Ret (virtio_queue_has_unseen_buffers m q))"

definition port_get_in_head :: "(u32 \<Rightarrow> u32) \<Rightarrow> console_port \<Rightarrow> slabs \<Rightarrow> (addr \<times> console_port \<times> slabs) run" where
  "port_get_in_head lz p s =
     (case vq_in p of None \<Rightarrow> Trap Null_deref
      | Some q \<Rightarrow> run_bind (assert1 (virtio_queue_has_unseen_buffers (smem s) q)) (\<lambda>_.
          run_bind (virtio_queue_dequeue lz q s) (\<lambda>(sl, q1, s1). Ret (sl, p\<lparr>vq_in := Some q1\<rparr>, s1))))"

section \<open>Control messages\<close>

text \<open>
  The three events the driver answers. The message is read again after each step that may write
  memory, as the code does.
\<close>

definition handle_device_add ::
    "(u32 \<Rightarrow> u32) \<Rightarrow> hw \<Rightarrow> pci_dev \<Rightarrow> locals \<Rightarrow> addr \<Rightarrow> virtio_console \<Rightarrow> machine \<Rightarrow> (virtio_console \<times> machine) run" where
  "handle_device_add lz hw pd L cmsg c = (\<lambda>(s, t).
     let i = ld32 (smem s) cmsg
     in run_bind (console_add_port lz hw pd L c (ucast i)
          (s, t @ [Printk ''Recieved request to add port device #%d\<newline>'' [i]])) (\<lambda>(c1, s1, t1).
        console_send_control_message L c1 (ld32 (smem s1) cmsg) VIRTIO_CONSOLE_PORT_READY 1 (s1, t1)))"

definition handle_port_name ::
    "(u32 \<Rightarrow> u32) \<Rightarrow> addr \<Rightarrow> addr \<Rightarrow> virtio_console \<Rightarrow> machine \<Rightarrow> (virtio_console \<times> machine) run" where
  "handle_port_name lz sl cmsg c = (\<lambda>(s, t).
     let i = ld32 (smem s) cmsg
     in case find_port_by_id c (ucast i) of None \<Rightarrow> Trap Assert_fail
        | Some k \<Rightarrow>
            let name_len = ucast (ld32 (smem s) (sl + 8) - 8) :: u16;
                t1 = t @ [Printk ''Recieved port name from device for port #%d\<newline>'' [i]]
            in run_bind (kzmalloc lz (ucast name_len) s) (\<lambda>(s1, name).
                 let m1 = memcpy (smem s1) (cmsg + 8) name (ucast name_len);
                     m2 = m1(name + ucast name_len := 0)
                 in Ret (c\<lparr>ports := (ports c)[k := (ports c ! k)\<lparr>port_name := name\<rparr>]\<rparr>, s1\<lparr>smem := m2\<rparr>, t1)))"

text \<open>The name of the port is printed before the pointer is tested.\<close>

definition handle_port_open :: "locals \<Rightarrow> addr \<Rightarrow> virtio_console \<Rightarrow> machine \<Rightarrow> (virtio_console \<times> machine) run" where
  "handle_port_open L cmsg c = (\<lambda>(s, t).
     let i = ld32 (smem s) cmsg; v = ld16 (smem s) (cmsg + 6)
     in case find_port_by_id c (ucast i) of None \<Rightarrow> Trap Null_deref
        | Some k \<Rightarrow>
            let t1 = t @ [Printk ''Recieved resieved info that port #%d(%s) was %s\<newline>''
                       [i, port_name (ports c ! k), literal_at L (if v \<noteq> 0 then ''OPENED'' else ''CLOSED'')]];
                c1 = c\<lparr>ports := (ports c)[k := SET_PORT_OPEN_FLAG v (ports c ! k)]\<rparr>
            in console_send_control_message L c1 i VIRTIO_CONSOLE_PORT_OPEN 1 (s, t1))"

definition console_handle_control_message ::
    "(u32 \<Rightarrow> u32) \<Rightarrow> hw \<Rightarrow> pci_dev \<Rightarrow> locals \<Rightarrow> addr \<Rightarrow> virtio_console \<Rightarrow> machine \<Rightarrow> (virtio_console \<times> machine) run" where
  "console_handle_control_message lz hw pd L sl c = (\<lambda>(s, t).
     let cmsg = sl_get_buffer (smem s) sl
     in case vq_in (cmsg_port c) of None \<Rightarrow> Trap Null_deref
        | Some q \<Rightarrow>
            run_bind (assert1 (ld32 (smem s) cmsg < ucast (q_size q))) (\<lambda>_.
              run_bind (port_update_inbuf L (cmsg_port c) (ld32 (smem s) (sl + 8)) (s, t)) (\<lambda>(p, s1, t1).
                let c1 = c\<lparr>cmsg_port := p\<rparr>; event = ld16 (smem s1) (cmsg + 4)
                in if event = VIRTIO_CONSOLE_DEVICE_ADD then handle_device_add lz hw pd L cmsg c1 (s1, t1)
                   else if event = VIRTIO_CONSOLE_PORT_NAME then handle_port_name lz sl cmsg c1 (s1, t1)
                   else if event = VIRTIO_CONSOLE_PORT_OPEN then handle_port_open L cmsg c1 (s1, t1)
                   else Ret (c1, s1, t1))))"

section \<open>Input and interrupts\<close>

definition port_handle_input ::
    "(u32 \<Rightarrow> u32) \<Rightarrow> locals \<Rightarrow> console_port \<Rightarrow> machine \<Rightarrow> (console_port \<times> machine) run" where
  "port_handle_input lz L p = (\<lambda>(s, t).
     run_bind (port_get_in_head lz p s) (\<lambda>(sl, p1, s1).
       run_bind (port_update_inbuf L p1 (ld32 (smem s1) (sl + 8)) (s1, t)) (\<lambda>(p2, s2, t2).
         let len = ld32 (smem s2) (sl + 8); string = at_string L;
             (m3, t3) = (if IS_PORT_OPEN p2
               then ((memcpy (smem s2) (sl_get_buffer (smem s2) sl) string len)(string + len := 0),
                     t2 @ [Printk ''Message on port %s: %s'' [port_name p2, string]])
               else (smem s2, t2))
         in run_bind (kmfree sl (s2\<lparr>smem := m3\<rparr>)) (\<lambda>s4. Ret (p2, s4, t3)))))"

partial_function (option) drain_port ::
    "(u32 \<Rightarrow> u32) \<Rightarrow> locals \<Rightarrow> console_port \<Rightarrow> machine \<Rightarrow> (console_port \<times> machine) run" where
  "drain_port lz L p st =
     run_bind (port_has_unseen_buffers (smem (fst st)) p) (\<lambda>more.
       if \<not> more then Ret (p, st)
       else run_bind (port_handle_input lz L p st) (\<lambda>(p1, st1). drain_port lz L p1 st1))"

partial_function (option) drain_control ::
    "(u32 \<Rightarrow> u32) \<Rightarrow> hw \<Rightarrow> pci_dev \<Rightarrow> locals \<Rightarrow> virtio_console \<Rightarrow> machine \<Rightarrow> (virtio_console \<times> machine) run" where
  "drain_control lz hw pd L c st =
     run_bind (port_has_unseen_buffers (smem (fst st)) (cmsg_port c)) (\<lambda>more.
       if \<not> more then Ret (c, st)
       else run_bind (port_get_in_head lz (cmsg_port c) (fst st)) (\<lambda>(sl, p, s1).
         run_bind (console_handle_control_message lz hw pd L sl (c\<lparr>cmsg_port := p\<rparr>) (s1, snd st)) (\<lambda>(c1, s2, t2).
           run_bind (kmfree sl s2) (\<lambda>s3. drain_control lz hw pd L c1 (s3, t2)))))"

text \<open>The walk over the ports also meets those the control messages add on the way.\<close>

partial_function (option) serve_ports ::
    "(u32 \<Rightarrow> u32) \<Rightarrow> hw \<Rightarrow> pci_dev \<Rightarrow> locals \<Rightarrow> nat \<Rightarrow> virtio_console \<Rightarrow> machine \<Rightarrow> (virtio_console \<times> machine) run" where
  "serve_ports lz hw pd L k c st =
     (if length (ports c) \<le> k then Ret (c, st)
      else run_bind (drain_port lz L (ports c ! k) st) (\<lambda>(p, st1).
        run_bind (drain_control lz hw pd L (c\<lparr>ports := (ports c)[k := p]\<rparr>) st1) (\<lambda>(c2, st2).
          serve_ports lz hw pd L (k + 1) c2 st2)))"

definition console_interrupt ::
    "(u32 \<Rightarrow> u32) \<Rightarrow> hw \<Rightarrow> pci_dev \<Rightarrow> locals \<Rightarrow> virtio_console \<Rightarrow> machine \<Rightarrow> (virtio_console \<times> machine) run" where
  "console_interrupt lz hw pd L c = (\<lambda>(s, t).
     let (isr, t1) = virtio_get_isr hw (cdev_vdev c) t
     in run_bind (if isr AND 0x1 = 0x1 then serve_ports lz hw pd L 0 c (s, t1) else Ret (c, s, t1)) (\<lambda>(c2, s2, t2).
          Ret (c2, s2, if isr AND 0x3 = 0x3 then t2 @ [Printk ''CONFIGURATION CHANGE!\<newline>'' []] else t2)))"

section \<open>Bringing the device up\<close>

text \<open>
  LOG in CHECK_F prints the name of a feature and whether its bit is set. Each LOG of the drivers is
  a Printk event of the trace; the run of printk itself (the theory Terminal), which writes the screen,
  may allocate a page when the screen scrolls and waits for the serial line, is not part of these
  functions, so nothing is claimed of the screen, the allocator or the serial line behind them.
\<close>

definition check_feature :: "(string \<Rightarrow> addr) \<Rightarrow> u32 \<Rightarrow> string \<times> nat \<Rightarrow> trace" where
  "check_feature lit fin = (\<lambda>(name, feat).
     [Printk (name @ '' is%savailable\<newline>'') [lit (if fin AND push_bit feat 1 \<noteq> 0 then '' '' else '' NOT '')]])"

definition console_features :: "(string \<Rightarrow> addr) \<Rightarrow> hw \<Rightarrow> virtio_dev \<Rightarrow> u32 \<Rightarrow> trace \<Rightarrow> bool \<times> trace" where
  "console_features lit hw vd fs t =
     vdev_confirm_features hw vd (push_bit VIRTIO_CONSOLE_F_MULTIPORT 1)
       (t @ [Printk ''Console got features %016b\<newline>'' [fs]] @
        concat (map (check_feature lit fs)
          [(''VIRTIO_CONSOLE_F_SIZE'', VIRTIO_CONSOLE_F_SIZE), (''VIRTIO_CONSOLE_F_MULTIPORT'', VIRTIO_CONSOLE_F_MULTIPORT),
           (''VIRTIO_CONSOLE_F_EMERG_WRITE'', VIRTIO_CONSOLE_F_EMERG_WRITE)]))"

text \<open>struct virtio_console_config has 12 bytes: cols at 0, rows at 2, nr_ports at 4, emerg_wr at 8.\<close>

definition le16 :: "u8 list \<Rightarrow> nat \<Rightarrow> u16" where
  "le16 bs i = ucast (bs ! i) OR push_bit 8 (ucast (bs ! (i + 1)))"

definition le32 :: "u8 list \<Rightarrow> nat \<Rightarrow> u32" where
  "le32 bs i = ucast (le16 bs i) OR push_bit 16 (ucast (le16 bs (i + 2)))"

definition console_config :: "u8 list \<Rightarrow> virtio_console_config" where
  "console_config bs = \<lparr>cfg_cols = le16 bs 0, cfg_rows = le16 bs 2, nr_ports = le32 bs 4, emerg_wr = le32 bs 8\<rparr>"

text \<open>The first port's vq_base stays 0; the assignment before its initialisation is to the control port's.\<close>

definition console_setup ::
    "(u32 \<Rightarrow> u32) \<Rightarrow> hw \<Rightarrow> pci_dev \<Rightarrow> locals \<Rightarrow> virtio_console \<Rightarrow> machine \<Rightarrow> (bool \<times> virtio_console \<times> machine) run" where
  "console_setup lz hw pd L c = (\<lambda>(s, t).
     let (bs, t1) = virtio_read_config hw pd (cdev_vdev c) 12 t;
         c1 = c\<lparr>cdev_cfg := console_config bs\<rparr>;
         t2 = t1 @ [Printk ''cdev -> cfg.nr_ports %d\<newline>'' [nr_ports (cdev_cfg c1)]]
     in run_bind (console_init_port lz hw pd L (cdev_vdev c) ((cmsg_port c1)\<lparr>vq_base := 2\<rparr>) (s, t2)) (\<lambda>(cp, st3).
          let cp1 = (SET_PORT_OPEN_FLAG 1 cp)\<lparr>vq_base := 0\<rparr>
          in run_bind (console_init_port lz hw pd L (cdev_vdev c) (hd (ports c)) st3) (\<lambda>(p0, st4).
               run_bind (console_send_control_message L (c1\<lparr>cmsg_port := cp1, ports := p0 # tl (ports c)\<rparr>)
                   0xffffffff VIRTIO_CONSOLE_DEVICE_READY 1 st4) (\<lambda>(c2, st5). Ret (True, c2, st5)))))"

text \<open>struct virtio_console has 312 bytes; kzmalloc clears it, driver is where virtio_console_driver lies.\<close>

definition new_console_device :: "(u32 \<Rightarrow> u32) \<Rightarrow> slabs \<Rightarrow> (addr \<times> virtio_console \<times> slabs) run" where
  "new_console_device lz s =
     run_bind (kzmalloc lz 312 s) (\<lambda>(s1, a).
       Ret (a, \<lparr>cdev_vdev = \<lparr>devce_type = 0, iobase = 0, features = 0, vdev_driver = 0\<rparr>,
         cdev_cfg = \<lparr>cfg_cols = 0, cfg_rows = 0, nr_ports = 0, emerg_wr = 0\<rparr>, num_ports = 0,
         cmsg_port = zero_port, ports = [zero_port]\<rparr>, s1))"

definition init_vdev_console :: "(u32 \<Rightarrow> u32) \<Rightarrow> addr \<Rightarrow> machine \<Rightarrow> (addr \<times> virtio_console \<times> machine) run" where
  "init_vdev_console lz driver = (\<lambda>(s, t).
     let t1 = t @ [Printk ''Initializing virtio console(console)\<newline>'' []]
     in run_bind (new_console_device lz s) (\<lambda>(a, c, s1).
          Ret (a, c\<lparr>cdev_vdev := (cdev_vdev c)\<lparr>vdev_driver := driver\<rparr>\<rparr>, s1, t1)))"

definition vdev_console_write ::
    "locals \<Rightarrow> virtio_console \<Rightarrow> u16 \<Rightarrow> addr \<Rightarrow> u32 \<Rightarrow> machine \<Rightarrow> (virtio_console \<times> machine) run" where
  "vdev_console_write L c i buffer len st =
     (case find_port_by_id c i of None \<Rightarrow> Ret (c, st)
      | Some k \<Rightarrow> run_bind (port_write_data L (ports c ! k) buffer len st) (\<lambda>(p, st1).
          Ret (c\<lparr>ports := (ports c)[k := p]\<rparr>, st1)))"

section \<open>What a submitted list tells the device\<close>

text \<open>
  After enqueueing and kicking, the table describes the list, the ring slot of the index holds the
  head of the chain, the index has moved and the device is notified unless it asked not to be, the
  queue is in order for the next list, and memory outside the descriptors and the available ring is
  as it was.
\<close>

lemma enqueue_and_kick_list:
  assumes "queue_ok q" and "sl_array (smem s) l es" and "length es \<le> unat (q_size q)"
    and "\<forall>x. unat (x - l) < 12 * length es \<longrightarrow> 18 * unat (q_size q) + 6 \<le> unat (x - q_desc q)"
  obtains q' s' t' where "enqueue_and_kick l q (s, t) = Ret (q', s', t')"
    and "chain (smem s') (q_desc q) (unat (q_size q)) (next_buffer q) = map (\<lambda>(b, n, f). (scast b, n, bit f 0)) es"
    and "queue_ok q'" and "q_desc q' = q_desc q" and "q_size q' = q_size q"
    and "unat (next_buffer q') = (unat (next_buffer q) + length es) mod unat (q_size q)"
    and "\<forall>x. 18 * unat (q_size q) + 6 \<le> unat (x - q_desc q) \<longrightarrow> smem s' x = smem s x"
    and "s' = s\<lparr>smem := smem s'\<rparr>"
    and "avail_idx (smem s') q = avail_idx (smem s) q + num_added q + of_nat (length es)"
    and "ld16 (smem s') (ring_at q (avail_idx (smem s) q mod q_size q)) = next_buffer q"
    and "num_added q' = 0" and "t' = t @ notification (smem s') q"
proof -
  let ?N = "unat (q_size q)" and ?D = "q_desc q"
  obtain q1 m1 where e: "virtio_queue_enqueue l q (smem s) = Ret (q1, m1)"
      "\<forall>m''. (\<forall>x. unat (x - ?D) < 16 * ?N \<longrightarrow> m'' x = m1 x) \<longrightarrow>
         chain m'' ?D ?N (next_buffer q) = map (\<lambda>(b, n, f). (scast b, n, bit f 0)) es"
      "unat (next_buffer q1) = (unat (next_buffer q) + length es) mod ?N"
      "\<forall>x. 18 * ?N + 6 \<le> unat (x - ?D) \<longrightarrow> m1 x = smem s x"
      "q_avail q1 = q_avail q" "q_desc q1 = ?D" "q_size q1 = q_size q"
      "ld16 m1 (ring_at q (avail_idx (smem s) q mod q_size q)) = next_buffer q" "avail_idx m1 q = avail_idx (smem s) q"
      "num_added q1 = num_added q + of_nat (length es)" "q_used q1 = q_used q" "q_iobase q1 = q_iobase q" "q_idx q1 = q_idx q"
    using enqueue_list [OF assms] by blast
  let ?v = "ld16 m1 (q_avail q + 2) + num_added q1"
  let ?m2 = "st16 m1 (q_avail q + 2) ?v"
  have kick: "virtio_queue_kick q1 m1 t = (q1\<lparr>num_added := 0\<rparr>, ?m2, t @ notification ?m2 q)"
    unfolding kick_result Let_def e(5) notification_def e(11-13) ..
  have N: "0 < ?N" "?N \<le> 32768" and avail: "q_avail q + 2 = ?D + of_nat (16 * ?N + 2)"
    using assms(1) by (simp_all add: queue_ok_def unat_gt_0)
  have away: "?m2 x = m1 x" if "unat (x - ?D) < 16 * ?N + 2 \<or> 16 * ?N + 4 \<le> unat (x - ?D)" for x
  proof -
    obtain k where k: "k < 2 ^ 32" "x = ?D + of_nat k" "unat (x - ?D) = k" by (rule offset_exists)
    then have "2 \<le> unat (x - (?D + of_nat (16 * ?N + 2)))"
      using that N unat_offset [of k "16 * ?N + 2" ?D] by (simp only:) (auto split: if_splits)
    then show ?thesis unfolding avail by (intro st16_other) (simp add: word_le_nat_alt)
  qed
  have "chain ?m2 ?D ?N (next_buffer q) = map (\<lambda>(b, n, f). (scast b, n, bit f 0)) es"
    using e(2) away by simp
  moreover have "next_buffer q1 < q_size q1"
    using e(3,7) mod_less_divisor [OF N(1)] by (simp add: word_less_nat_alt)
  then have "queue_ok (q1\<lparr>num_added := 0\<rparr>)"
    using assms(1) e(5-7) by (simp add: queue_ok_def)
  moreover have "\<forall>x. 18 * ?N + 6 \<le> unat (x - ?D) \<longrightarrow> ?m2 x = smem s x"
    using away e(4) by simp
  moreover have "enqueue_and_kick l q (s, t) = Ret (q1\<lparr>num_added := 0\<rparr>, s\<lparr>smem := ?m2\<rparr>, t @ notification ?m2 q)"
    using e(1) kick by (simp add: enqueue_and_kick_def)
  moreover have "avail_idx ?m2 q = avail_idx (smem s) q + num_added q + of_nat (length es)"
    by (simp add: e(9,10) add.assoc)
  moreover have "ld16 ?m2 (ring_at q (avail_idx (smem s) q mod q_size q)) = next_buffer q"
  proof -
    have "unat (avail_idx (smem s) q mod q_size q) < ?N" using N(1) by (simp add: unat_mod)
    from slot_behind_index [OF assms(1) this] show ?thesis using e(8) by simp
  qed
  ultimately show thesis
    using e(3,6,7) that [of "q1\<lparr>num_added := 0\<rparr>" "s\<lparr>smem := ?m2\<rparr>" "t @ notification ?m2 q"] by simp
qed

lemma one_buffer_build:
  "one_buffer a b n VQ_IN m = sl_build a [(b, n, 1)] m" "one_buffer a b n VQ_OUT m = sl_build a [(b, n, 0)] m"
  by (simp_all add: one_buffer_def sl_build_def sl_bind_def VQ_IN_def VQ_OUT_def)

lemma single_buffer:
  assumes "queue_ok q" and "\<forall>x. unat (x - l) < 12 \<longrightarrow> 18 * unat (q_size q) + 6 \<le> unat (x - q_desc q)"
  obtains q' s' t' where "enqueue_and_kick l q (s\<lparr>smem := sl_build l [(b, n, f)] m\<rparr>, t) = Ret (q', s', t')"
    and "chain (smem s') (q_desc q) (unat (q_size q)) (next_buffer q) = [(scast b, n, bit f 0)]"
    and "queue_ok q'"
    and "\<forall>x. 18 * unat (q_size q) + 6 \<le> unat (x - q_desc q) \<and> 12 \<le> unat (x - l) \<longrightarrow> smem s' x = m x"
    and "avail_idx (smem s') q = avail_idx m q + num_added q + 1"
    and "ld16 (smem s') (ring_at q (avail_idx m q mod q_size q)) = next_buffer q"
    and "num_added q' = 0" and "t' = t @ notification (smem s') q"
    and "unat (next_buffer q') = (unat (next_buffer q) + 1) mod unat (q_size q)"
proof -
  let ?s = "s\<lparr>smem := sl_build l [(b, n, f)] m\<rparr>" and ?N = "unat (q_size q)"
  have array: "sl_array (smem ?s) l [(b, n, f)]" by (simp add: sl_build_array)
  have fits: "length [(b, n, f)] \<le> ?N" using assms(1) by (simp add: queue_ok_def Suc_le_eq unat_gt_0)
  have apart: "\<forall>x. unat (x - l) < 12 * length [(b, n, f)] \<longrightarrow> 18 * ?N + 6 \<le> unat (x - q_desc q)" using assms(2) by simp
  obtain q' s' t' where e: "enqueue_and_kick l q (?s, t) = Ret (q', s', t')"
    "chain (smem s') (q_desc q) ?N (next_buffer q) = map (\<lambda>(b, n, f). (scast b, n, bit f 0)) [(b, n, f)]" "queue_ok q'"
    "q_desc q' = q_desc q" "q_size q' = q_size q"
    "unat (next_buffer q') = (unat (next_buffer q) + length [(b, n, f)]) mod ?N"
    "\<forall>x. 18 * ?N + 6 \<le> unat (x - q_desc q) \<longrightarrow> smem s' x = smem ?s x" "s' = ?s\<lparr>smem := smem s'\<rparr>"
    "avail_idx (smem s') q = avail_idx (smem ?s) q + num_added q + of_nat (length [(b, n, f)])"
    "ld16 (smem s') (ring_at q (avail_idx (smem ?s) q mod q_size q)) = next_buffer q"
    "num_added q' = 0" "t' = t @ notification (smem s') q"
    by (rule enqueue_and_kick_list [OF assms(1) array fits apart, of t])
  have before: "avail_idx (smem ?s) q = avail_idx m q"
    using assms(2) sl_build_outside [of "[(b, n, f)]", where l = l and m = m]
    by (intro avail_idx_cong [OF assms(1)]) (auto simp: not_le [symmetric])
  show thesis
  proof (rule that [OF e(1) _ e(3)])
    show "avail_idx (smem s') q = avail_idx m q + num_added q + 1" unfolding e(9) before by simp
    show "ld16 (smem s') (ring_at q (avail_idx m q mod q_size q)) = next_buffer q" using e(10) unfolding before .
    show "unat (next_buffer q') = (unat (next_buffer q) + 1) mod ?N" unfolding e(6) by simp
    show "chain (smem s') (q_desc q) ?N (next_buffer q) = [(scast b, n, bit f 0)]" unfolding e(2) by simp
    show "\<forall>x. 18 * ?N + 6 \<le> unat (x - q_desc q) \<and> 12 \<le> unat (x - l) \<longrightarrow> smem s' x = m x"
      using e(7) sl_build_outside [of "[(b, n, f)]", where l = l and m = m] by simp
  qed (rule e(11,12))+
qed

section \<open>Ports\<close>

text \<open>
  C39: Posting a receive buffer. When the device has filled len bytes, port_update_inbuf moves the
  used mark forward by len, or back to the start of the page when the mark would then be more than
  4088 bytes into it; so whatever len is, the rest of the page has at least 8 bytes. This rest, to
  the very end of the page, is given to the device as a buffer it may write: a single descriptor
  describes it, the ring slot of the available index holds that descriptor, the available index has
  moved past the slot (and past what was enqueued and not announced before), and the device is
  notified unless the flags of its used ring ask for no notification.
\<close>
theorem input_buffer_posted:
  assumes "buf_len (inbuf p) = 4096" and "buf_used (inbuf p) \<le> 4088" and "vq_in p = Some q" and "queue_ok q"
    and "\<forall>x. unat (x - at_list L) < 12 \<longrightarrow> 18 * unat (q_size q) + 6 \<le> unat (x - q_desc q)"
  shows "\<exists>p' s' t'. port_update_inbuf L p len (s, t) = Ret (p', s', t') \<and>
    buf_used (inbuf p') = (if 4088 < buf_used (inbuf p) + len then 0 else buf_used (inbuf p) + len) \<and>
    buf_used (inbuf p') \<le> 4088 \<and> buf_base (inbuf p') = buf_base (inbuf p) \<and> buf_len (inbuf p') = 4096 \<and>
    chain (smem s') (q_desc q) (unat (q_size q)) (next_buffer q) =
      [(scast (buf_base (inbuf p) + buf_used (inbuf p')), 4096 - buf_used (inbuf p'), True)] \<and>
    ld16 (smem s') (ring_at q (avail_idx (smem s) q mod q_size q)) = next_buffer q \<and>
    avail_idx (smem s') q = avail_idx (smem s) q + num_added q + 1 \<and>
    t' = t @ (if ld16 (smem s') (q_used q) AND VIRTQ_USED_F_NO_NOTIFY = 0
      then [Outs (ucast (q_iobase q + 16)) (ucast (q_idx q))] else []) \<and>
    (\<exists>q'. vq_in p' = Some q' \<and> queue_ok q' \<and> num_added q' = 0 \<and>
       unat (next_buffer q') = (unat (next_buffer q) + 1) mod unat (q_size q))"
proof -
  define used where "used = (if 4088 < buf_used (inbuf p) + len then 0 else buf_used (inbuf p) + len)"
  have run: "port_update_inbuf L p len (s, t) =
      run_bind (enqueue_and_kick (at_list L) q (s\<lparr>smem := sl_build (at_list L) [(buf_base (inbuf p) + used, 4096 - used, 1)] (smem s)\<rparr>, t))
        (\<lambda>(q1, st). Ret (p\<lparr>inbuf := (inbuf p)\<lparr>buf_used := used\<rparr>, vq_in := Some q1\<rparr>, st))"
    using assms(1,3) by (auto simp: port_update_inbuf_def port_add_inbuf_def one_buffer_build Let_def used_def)
  obtain q' s' t' where e: "enqueue_and_kick (at_list L) q (s\<lparr>smem := sl_build (at_list L)
      [(buf_base (inbuf p) + used, 4096 - used, 1)] (smem s)\<rparr>, t) = Ret (q', s', t')"
    "chain (smem s') (q_desc q) (unat (q_size q)) (next_buffer q) = [(scast (buf_base (inbuf p) + used), 4096 - used, bit (1 :: u8) 0)]"
    "queue_ok q'" "\<forall>x. 18 * unat (q_size q) + 6 \<le> unat (x - q_desc q) \<and> 12 \<le> unat (x - at_list L) \<longrightarrow> smem s' x = smem s x"
    "avail_idx (smem s') q = avail_idx (smem s) q + num_added q + 1"
    "ld16 (smem s') (ring_at q (avail_idx (smem s) q mod q_size q)) = next_buffer q"
    "num_added q' = 0" "t' = t @ notification (smem s') q"
    "unat (next_buffer q') = (unat (next_buffer q) + 1) mod unat (q_size q)"
    by (rule single_buffer [OF assms(4,5)])
  have "used \<le> 4088" by (auto simp: used_def not_less)
  then show ?thesis
    using e(2,3,5-9) assms(1) unfolding run e(1) notification_def
    by (intro exI [of _ "p\<lparr>inbuf := (inbuf p)\<lparr>buf_used := used\<rparr>, vq_in := Some q'\<rparr>"] exI [of _ s'] exI [of _ t'])
      (simp add: used_def)
qed

definition some_locals :: locals where
  "some_locals = \<lparr>at_list = 0x9000, at_message = 0x9100, at_string = 0x9200, literal_at = (\<lambda>_. 0)\<rparr>"

definition some_port :: console_port where
  "some_port = zero_port\<lparr>inbuf := \<lparr>buf_base = 0xA000, buf_len = 4096, buf_used = 4080\<rparr>,
     outbuf := \<lparr>buf_base = 0xB000, buf_len = 4096, buf_used = 4090\<rparr>,
     vq_in := Some some_queue, vq_out := Some some_queue, port_flags := CONSOLE_PORT_OPEN\<rparr>"

lemma some_port_facts:
  "buf_len (inbuf some_port) = 4096" "buf_used (inbuf some_port) \<le> 4088" "vq_in some_port = Some some_queue"
  "0xB000 = buf_base (outbuf some_port)" "IS_PORT_OPEN some_port" "buf_len (outbuf some_port) = 4096"
  "buf_used (outbuf some_port) \<le> 4096" "vq_out some_port = Some some_queue"
  "\<forall>x. unat (x - at_list some_locals) < 12 \<longrightarrow> 18 * unat (q_size some_queue) + 6 \<le> unat (x - q_desc some_queue)"
  "\<forall>x. unat (x - 0xB000) < 4096 \<longrightarrow> 18 * unat (q_size some_queue) + 6 \<le> unat (x - q_desc some_queue) \<and>
     12 \<le> unat (x - at_list some_locals)"
  by (auto simp: some_port_def IS_PORT_OPEN_def some_locals_def some_queue_def intro: range_apart)

theorem input_buffer_posted_witness:
  "\<exists>p' s' t'. port_update_inbuf some_locals some_port 100 (one_node, []) = Ret (p', s', t') \<and>
     unat (buf_used (inbuf p')) \<le> 4088 \<and> buf_used (inbuf p') = 0 \<and> buf_len (inbuf p') = 4096 \<and>
     avail_idx (smem s') some_queue = avail_idx (smem one_node) some_queue + 1"
  using input_buffer_posted [OF some_port_facts(1-3) some_queue_ok some_port_facts(9), of 100 one_node "[]"]
  by (auto simp: word_le_nat_alt some_port_def some_queue_def)

text \<open>
  C35: Writing to a port. Let the port be open, the transmit page lie apart from the queue and the
  local scatter list, and the data start outside that page. port_write_data then returns; the bytes
  are in the page of the port, and the device is given exactly that part of the page to read: a
  single descriptor describes it, the ring slot of the available index holds that descriptor, the
  available index has moved past the slot (and past what was enqueued and not announced before), and
  the device is notified unless the flags of its used ring ask for no notification. The part starts
  at the used mark, or at the start of the page when there is no room behind the mark, and the used
  mark moves to its end, inside the page.
\<close>
theorem console_write_delivers:
  assumes "base = buf_base (outbuf p)" and "IS_PORT_OPEN p" and "buf_len (outbuf p) = 4096" and "buf_used (outbuf p) \<le> 4096" and "len < 4096"
    and "vq_out p = Some q" and "queue_ok q"
    and "\<forall>x. unat (x - at_list L) < 12 \<longrightarrow> 18 * unat (q_size q) + 6 \<le> unat (x - q_desc q)"
    and "\<forall>x. unat (x - base) < 4096 \<longrightarrow> 18 * unat (q_size q) + 6 \<le> unat (x - q_desc q) \<and> 12 \<le> unat (x - at_list L)"
    and "4096 \<le> dat - base"
  shows "\<exists>p' s' t' off. port_write_data L p dat len (s, t) = Ret (p', s', t') \<and> unat off + unat len \<le> 4096 \<and>
    chain (smem s') (q_desc q) (unat (q_size q)) (next_buffer q) = [(scast (base + off), len, False)] \<and>
    (\<forall>k < len. smem s' (base + off + k) = smem s (dat + k)) \<and>
    off = (if 4096 < buf_used (outbuf p) + len then 0 else buf_used (outbuf p)) \<and>
    IS_PORT_OPEN p' \<and> buf_used (outbuf p') = off + len \<and>
    ld16 (smem s') (ring_at q (avail_idx (smem s) q mod q_size q)) = next_buffer q \<and>
    avail_idx (smem s') q = avail_idx (smem s) q + num_added q + 1 \<and>
    t' = t @ (if ld16 (smem s') (q_used q) AND VIRTQ_USED_F_NO_NOTIFY = 0
      then [Outs (ucast (q_iobase q + 16)) (ucast (q_idx q))] else []) \<and>
    (\<exists>q'. vq_out p' = Some q' \<and> queue_ok q' \<and> num_added q' = 0 \<and>
       unat (next_buffer q') = (unat (next_buffer q) + 1) mod unat (q_size q))"
proof -
  define off where "off = (if 4096 < buf_used (outbuf p) + len then 0 else buf_used (outbuf p))"
  have sum: "unat (buf_used (outbuf p) + len) = unat (buf_used (outbuf p)) + unat len"
    using assms(4,5) by (intro unat_add_lem [THEN iffD1]) (simp add: word_le_nat_alt word_less_nat_alt)
  have within: "unat off + unat len \<le> 4096"
    using sum assms(5) by (auto simp: off_def word_less_nat_alt not_less word_le_nat_alt)
  let ?a = "base + off" and ?m = "memcpy (smem s) dat (base + off) len"
  have "len \<le> dat - base - off"
    using within assms(10) by (simp only: word_le_nat_alt) (simp add: unat_sub word_le_nat_alt)
  then have apart: "dat = ?a \<or> len \<le> dat - ?a" by (simp add: diff_diff_eq)
  obtain q' s' t' where e: "enqueue_and_kick (at_list L) q (s\<lparr>smem := sl_build (at_list L) [(?a, len, 0)] ?m\<rparr>, t) = Ret (q', s', t')"
    "chain (smem s') (q_desc q) (unat (q_size q)) (next_buffer q) = [(scast ?a, len, bit (0 :: u8) 0)]"
    "queue_ok q'" "\<forall>x. 18 * unat (q_size q) + 6 \<le> unat (x - q_desc q) \<and> 12 \<le> unat (x - at_list L) \<longrightarrow> smem s' x = ?m x"
    "avail_idx (smem s') q = avail_idx ?m q + num_added q + 1"
    "ld16 (smem s') (ring_at q (avail_idx ?m q mod q_size q)) = next_buffer q"
    "num_added q' = 0" "t' = t @ notification (smem s') q"
    "unat (next_buffer q') = (unat (next_buffer q) + 1) mod unat (q_size q)"
    by (rule single_buffer [OF assms(7,8)])
  have before: "avail_idx ?m q = avail_idx (smem s) q"
  proof (intro avail_idx_cong [OF assms(7)] allI impI)
    fix x assume "unat (x - q_desc q) < 18 * unat (q_size q) + 6"
    then have "4096 \<le> unat (x - base)" using assms(9) by (meson not_le)
    moreover have "unat (x - base) < unat off + unat len" if "x - ?a < len"
    proof -
      have "unat (off + (x - ?a)) = unat off + unat (x - ?a)"
        using that within by (intro unat_add_lem [THEN iffD1]) (simp add: word_less_nat_alt)
      moreover have "off + (x - ?a) = x - base" by simp
      ultimately show ?thesis using that by (simp only: word_less_nat_alt)
    qed
    ultimately have "\<not> x - ?a < len" using within by linarith
    then show "?m x = smem s x" by (simp add: memcpy_apply [OF apart])
  qed
  have bytes: "smem s' (?a + k) = smem s (dat + k)" if "k < len" for k
  proof -
    have "unat (off + k) < 4096"
      using within that unat_add_lem [THEN iffD1, of off k] by (simp add: word_less_nat_alt)
    moreover have "?a + k - base = off + k" by simp
    ultimately have "smem s' (?a + k) = ?m (?a + k)" using e(4) assms(9) by (simp only:)
    also have "\<dots> = smem s (dat + k)" using that by (simp add: memcpy_apply [OF apart])
    finally show ?thesis .
  qed
  have run: "port_write_data L p dat len (s, t) =
      run_bind (enqueue_and_kick (at_list L) q (s\<lparr>smem := sl_build (at_list L) [(?a, len, 0)] ?m\<rparr>, t))
        (\<lambda>(q1, st). Ret (p\<lparr>outbuf := (outbuf p)\<lparr>buf_used := off + len\<rparr>, vq_out := Some q1\<rparr>, st))"
    using assms(1,2,3,5,6) by (auto simp: port_write_data_def port_get_outbuff_def one_buffer_build Let_def off_def)
  show ?thesis
    using within e(2,3,5-9) bytes assms(2) unfolding run e(1) notification_def before
    by (intro exI [of _ "p\<lparr>outbuf := (outbuf p)\<lparr>buf_used := off + len\<rparr>, vq_out := Some q'\<rparr>"] exI [of _ s'] exI [of _ t'] exI [of _ off])
      (simp add: IS_PORT_OPEN_def off_def)
qed

theorem console_write_delivers_witness:
  "\<exists>p' s' t' off. port_write_data some_locals some_port 0x1000 16 (one_node, []) = Ret (p', s', t') \<and> unat off + 16 \<le> 4096 \<and>
     chain (smem s') 0x2000 8 6 = [(scast (0xB000 + off), 16, False)] \<and> smem s' (0xB000 + off + 3) = smem one_node 0x1003"
proof -
  obtain p' s' t' off where r: "port_write_data some_locals some_port 0x1000 16 (one_node, []) = Ret (p', s', t')"
    "unat off + unat (16 :: u32) \<le> 4096"
    "chain (smem s') (q_desc some_queue) (unat (q_size some_queue)) (next_buffer some_queue) = [(scast (0xB000 + off), 16, False)]"
    "\<forall>k < 16. smem s' (0xB000 + off + k) = smem one_node (0x1000 + k)"
    using console_write_delivers [OF some_port_facts(4-7) _ some_port_facts(8) some_queue_ok some_port_facts(9,10),
        of 16 "0x1000" one_node "[]"] by auto
  have "smem s' (0xB000 + off + 3) = smem one_node (0x1000 + 3)" using r(4) by (rule allE [of _ 3]) simp
  then show ?thesis using r(1-3) by (auto simp: some_queue_def)
qed

end
