(* ===== verification/Virtio_Block.thy ===== *)
theory Virtio_Block
  imports Virtio_Console
begin

text \<open>
  The virtio block device (kernel/drivers/virtio/virtio_block.c): the requests, which put a header,
  the data and a status byte on the request queue, and the interrupt that takes the answers off it.
\<close>

section \<open>State\<close>

record virtio_block_config =
  capacity :: u64
  size_max :: u32
  seg_max :: u32
  geo_cylinders :: u16
  geo_heads :: u8
  geo_sectors :: u8
  block_size :: u32
  physical_block_exp :: u8
  alignment_offset :: u8
  min_io_size :: u16
  opt_io_size :: u32
  writeback :: u8

text \<open>reqq is the queue of rport, NULL before block_request_port_init.\<close>

record virtio_block =
  bdev_vdev :: virtio_dev
  bdev_cfg :: virtio_block_config
  reqq :: "virtio_queue option"

definition VIRTIO_BLK_T_IN :: u32 where "VIRTIO_BLK_T_IN = 0"
definition VIRTIO_BLK_T_OUT :: u32 where "VIRTIO_BLK_T_OUT = 1"
definition VIRTIO_BLK_T_FLUSH :: u32 where "VIRTIO_BLK_T_FLUSH = 4"

definition VIRTIO_BLK_F_SIZE_MAX :: nat where "VIRTIO_BLK_F_SIZE_MAX = 1"
definition VIRTIO_BLK_F_SEG_MAX :: nat where "VIRTIO_BLK_F_SEG_MAX = 2"
definition VIRTIO_BLK_F_GEOMETRY :: nat where "VIRTIO_BLK_F_GEOMETRY = 4"
definition VIRTIO_BLK_F_RO :: nat where "VIRTIO_BLK_F_RO = 5"
definition VIRTIO_BLK_F_BLK_SIZE :: nat where "VIRTIO_BLK_F_BLK_SIZE = 6"
definition VIRTIO_BLK_F_FLUSH :: nat where "VIRTIO_BLK_F_FLUSH = 9"
definition VIRTIO_BLK_F_TOPOLOGY :: nat where "VIRTIO_BLK_F_TOPOLOGY = 10"
definition VIRTIO_BLK_F_CONFIG_WCE :: nat where "VIRTIO_BLK_F_CONFIG_WCE = 11"
definition VIRTIO_BLK_F_BARRIER :: nat where "VIRTIO_BLK_F_BARRIER = 0"
definition VIRTIO_BLK_F_SCSI :: nat where "VIRTIO_BLK_F_SCSI = 7"

section \<open>Requests\<close>

text \<open>
  struct virtio_block_req_out_hdr: type at 0, sector (64 bits) at 8, 16 bytes; the status byte of
  struct virtio_block_req_in_hdr follows it in one allocation of 17 bytes.
\<close>

definition request_headers :: "(u32 \<Rightarrow> u32) \<Rightarrow> u32 \<Rightarrow> u32 \<Rightarrow> slabs \<Rightarrow> (addr \<times> addr \<times> slabs) run" where
  "request_headers lz kind sector s =
     run_bind (kzmalloc lz (1 + 16) s) (\<lambda>(s1, hdrs).
       Ret (hdrs, hdrs + 16, s1\<lparr>smem := st64 (st32 (smem s1) hdrs kind) (hdrs + 8) (ucast sector)\<rparr>))"

definition bind_entry :: "addr \<Rightarrow> u32 \<Rightarrow> addr \<Rightarrow> u32 \<Rightarrow> u32 \<Rightarrow> mem \<Rightarrow> mem" where
  "bind_entry sl i buffer len direction m =
     sl_bind_attribute (sl + 12 * i) SL_USER_0 direction (sl_bind_buffer (sl + 12 * i) buffer len m)"

text \<open>The data of a request, in blocks of 512 bytes, as the entries 1, 2, ... of the list.\<close>

definition bind_blocks :: "addr \<Rightarrow> u32 \<Rightarrow> addr \<Rightarrow> u32 \<Rightarrow> mem \<Rightarrow> mem" where
  "bind_blocks sl sl_size buffer direction m =
     fold (\<lambda>i. bind_entry sl (of_nat i) (buffer + 512 * (of_nat i - 1)) 512 direction) [1..<unat (sl_size - 1)] m"

definition submit :: "addr \<Rightarrow> virtio_block \<Rightarrow> machine \<Rightarrow> (virtio_block \<times> machine) run" where
  "submit sl b st =
     (case reqq b of None \<Rightarrow> Trap Null_deref
      | Some q \<Rightarrow> run_bind (enqueue_and_kick sl q st) (\<lambda>(q1, st1). Ret (b\<lparr>reqq := Some q1\<rparr>, st1)))"

definition vdev_flush_request ::
    "(u32 \<Rightarrow> u32) \<Rightarrow> locals \<Rightarrow> u32 \<Rightarrow> virtio_block \<Rightarrow> machine \<Rightarrow> (virtio_block \<times> machine) run" where
  "vdev_flush_request lz L sector b = (\<lambda>(s, t).
     run_bind (request_headers lz VIRTIO_BLK_T_FLUSH sector s) (\<lambda>(ohdr, ihdr, s1).
       let sl = at_list L;
           m1 = sl_list_init sl 2 (smem s1);
           m2 = bind_entry sl 0 ohdr 16 VQ_OUT m1;
           m3 = sl_bind_buffer (sl + 12) ihdr 1 m2;
           t1 = t @ [Printk ''sl_get_buffer(&sl[1]) %p\<newline>'' [sl_get_buffer m3 (sl + 12)]];
           m4 = sl_bind_attribute (sl + 12) SL_USER_0 VQ_IN m3
       in submit sl b (s1\<lparr>smem := m4\<rparr>, t1)))"

text \<open>The length is signed; the count of sectors is its rounded-up quotient.\<close>

definition sector_count :: "i32 \<Rightarrow> u32" where
  "sector_count len = sdiv32 (len + 511) 512"

definition vdev_read_request ::
    "(u32 \<Rightarrow> u32) \<Rightarrow> locals \<Rightarrow> u32 \<Rightarrow> addr \<Rightarrow> i32 \<Rightarrow> virtio_block \<Rightarrow> machine \<Rightarrow> (virtio_block \<times> machine) run" where
  "vdev_read_request lz L sector buffer len b = (\<lambda>(s, t).
     run_bind (request_headers lz VIRTIO_BLK_T_IN sector s) (\<lambda>(ohdr, ihdr, s1).
       let sl_size = sector_count len + 2; sl = at_list L;
           t1 = t @ [Printk ''ohdr %p\<newline>'' [ohdr], Printk ''ihdr %p\<newline>'' [ihdr], Printk ''buffer %p\<newline>'' [buffer]];
           m1 = sl_list_init sl sl_size (smem s1);
           m2 = bind_entry sl 0 ohdr 16 VQ_OUT m1;
           m3 = bind_blocks sl sl_size buffer VQ_IN m2;
           m4 = sl_bind_buffer (sl + 12 * (sl_size - 1)) ihdr 1 m3;
           t2 = t1 @ [Printk ''sl_get_buffer(&sl[sl_size - 1]) %p\<newline>'' [sl_get_buffer m4 (sl + 12 * (sl_size - 1))]];
           m5 = sl_bind_attribute (sl + 12 * (sl_size - 1)) SL_USER_0 VQ_IN m4
       in submit sl b (s1\<lparr>smem := m5\<rparr>, t2)))"

definition vdev_write_request ::
    "(u32 \<Rightarrow> u32) \<Rightarrow> locals \<Rightarrow> u32 \<Rightarrow> addr \<Rightarrow> i32 \<Rightarrow> virtio_block \<Rightarrow> machine \<Rightarrow> (virtio_block \<times> machine) run" where
  "vdev_write_request lz L sector buffer len b = (\<lambda>(s, t).
     run_bind (request_headers lz VIRTIO_BLK_T_OUT sector s) (\<lambda>(ohdr, ihdr, s1).
       let sl_size = sector_count len + 2; sl = at_list L;
           m1 = sl_list_init sl sl_size (smem s1);
           m2 = bind_entry sl 0 ohdr 16 VQ_OUT m1;
           m3 = bind_blocks sl sl_size buffer VQ_OUT m2;
           m4 = bind_entry sl (sl_size - 1) ihdr 1 VQ_IN m3
       in submit sl b (s1\<lparr>smem := m4\<rparr>, t)))"

section \<open>Bringing the device up\<close>

text \<open>The messages are Printk events, as those of console_features.\<close>

definition bdev_features :: "(string \<Rightarrow> addr) \<Rightarrow> hw \<Rightarrow> virtio_dev \<Rightarrow> u32 \<Rightarrow> trace \<Rightarrow> bool \<times> trace" where
  "bdev_features lit hw vd fs t =
     vdev_confirm_features hw vd (push_bit VIRTIO_BLK_F_BLK_SIZE 1)
       (t @ [Printk ''Virtio Block got features %016b\<newline>'' [fs]] @
        concat (map (check_feature lit fs)
          [(''VIRTIO_BLK_F_SIZE_MAX'', VIRTIO_BLK_F_SIZE_MAX), (''VIRTIO_BLK_F_SEG_MAX'', VIRTIO_BLK_F_SEG_MAX),
           (''VIRTIO_BLK_F_GEOMETRY'', VIRTIO_BLK_F_GEOMETRY), (''VIRTIO_BLK_F_RO'', VIRTIO_BLK_F_RO),
           (''VIRTIO_BLK_F_BLK_SIZE'', VIRTIO_BLK_F_BLK_SIZE), (''VIRTIO_BLK_F_FLUSH'', VIRTIO_BLK_F_FLUSH),
           (''VIRTIO_BLK_F_TOPOLOGY'', VIRTIO_BLK_F_TOPOLOGY), (''VIRTIO_BLK_F_CONFIG_WCE'', VIRTIO_BLK_F_CONFIG_WCE),
           (''VIRTIO_BLK_F_BARRIER'', VIRTIO_BLK_F_BARRIER), (''VIRTIO_BLK_F_SCSI'', VIRTIO_BLK_F_SCSI)]))"

text \<open>
  struct virtio_block_config, 36 bytes with the i386 alignment of u64: capacity at 0, size_max at 8,
  seg_max at 12, the geometry at 16, block_size at 20, the topology at 24, writeback at 32.
\<close>

definition block_config :: "u8 list \<Rightarrow> virtio_block_config" where
  "block_config bs = \<lparr>capacity = ucast (le32 bs 0) OR push_bit 32 (ucast (le32 bs 4)),
     size_max = le32 bs 8, seg_max = le32 bs 12, geo_cylinders = le16 bs 16, geo_heads = bs ! 18, geo_sectors = bs ! 19,
     block_size = le32 bs 20, physical_block_exp = bs ! 24, alignment_offset = bs ! 25, min_io_size = le16 bs 26,
     opt_io_size = le32 bs 28, writeback = bs ! 32\<rparr>"

text \<open>A u64 argument of printk takes two stack slots.\<close>

definition config_log :: "virtio_block_config \<Rightarrow> trace" where
  "config_log cfg =
     [Printk ''cfg -> capacity %u\<newline>'' [ucast (capacity cfg), ucast (drop_bit 32 (capacity cfg))],
      Printk ''cfg -> size_max %d\<newline>'' [size_max cfg], Printk ''cfg -> seg_max %d\<newline>'' [seg_max cfg],
      Printk ''Geometry\<newline>'' [],
      Printk ''cfg -> geometry.cylinders %d\<newline>'' [ucast (geo_cylinders cfg)],
      Printk ''cfg -> geometry.heads %d\<newline>'' [ucast (geo_heads cfg)],
      Printk ''cfg -> geometry.sectors %d\<newline>'' [ucast (geo_sectors cfg)],
      Printk ''cfg -> block_size %u\<newline>'' [block_size cfg],
      Printk ''Topology\<newline>'' [],
      Printk ''cfg -> topology.physical_block_exp %d\<newline>'' [ucast (physical_block_exp cfg)],
      Printk ''cfg -> topology.alignment_offset %d\<newline>'' [ucast (alignment_offset cfg)],
      Printk ''cfg -> topology.min_io_size %d\<newline>'' [ucast (min_io_size cfg)],
      Printk ''cfg -> topology.opt_io_size %d\<newline>'' [opt_io_size cfg],
      Printk ''cfg -> writeback %d\<newline>'' [ucast (writeback cfg)]]"

definition block_request_port_init ::
    "(u32 \<Rightarrow> u32) \<Rightarrow> hw \<Rightarrow> pci_dev \<Rightarrow> virtio_block \<Rightarrow> machine \<Rightarrow> (virtio_block \<times> machine) run" where
  "block_request_port_init lz hw pd b = (\<lambda>(s, t).
     let (n, t1) = virtio_get_queue_size hw (bdev_vdev b) 0 t
     in run_bind (virtio_create_queue lz n s) (\<lambda>(s1, q).
          run_bind (virtio_set_queue hw pd (bdev_vdev b) 0 q t1) (\<lambda>(q1, t2). Ret (b\<lparr>reqq := Some q1\<rparr>, s1, t2))))"

definition bdev_setup :: "(u32 \<Rightarrow> u32) \<Rightarrow> hw \<Rightarrow> pci_dev \<Rightarrow> virtio_block \<Rightarrow> machine \<Rightarrow> (bool \<times> virtio_block \<times> machine) run" where
  "bdev_setup lz hw pd b = (\<lambda>(s, t).
     let (bs, t1) = virtio_read_config hw pd (bdev_vdev b) 36 t; cfg = block_config bs
     in run_bind (block_request_port_init lz hw pd (b\<lparr>bdev_cfg := cfg\<rparr>) (s, t1 @ config_log cfg)) (\<lambda>(b1, st).
          Ret (True, b1, st)))"

section \<open>Interrupts\<close>

text \<open>The list that came off the queue is printed entry by entry; sl_get_buffer(sl) is its first one.\<close>

partial_function (option) log_answers :: "addr \<Rightarrow> scatterlist_iter \<Rightarrow> mem \<Rightarrow> trace \<Rightarrow> trace option" where
  "log_answers sl it m t =
     (let (more, it1) = slit_next m it
      in if \<not> more then Some t
         else log_answers sl it1 m (t @ [Printk ''header -> status %d\<newline>'' [ucast (m (it_buffer it1))],
                Printk ''buffer %s\<newline>'' [it_buffer it1], Printk ''sliter.buffer %p\<newline>'' [it_buffer it1],
                Printk ''sl_get_buffer(sl) %p\<newline>'' [sl_get_buffer m sl]]))"

definition bdev_interrupt :: "(u32 \<Rightarrow> u32) \<Rightarrow> hw \<Rightarrow> virtio_block \<Rightarrow> machine \<Rightarrow> (virtio_block \<times> machine) run" where
  "bdev_interrupt lz hw b = (\<lambda>(s, t).
     let (isr, t1) = virtio_get_isr hw (bdev_vdev b) t
     in run_bind
          (if isr AND 0x1 = 0x1 then
             case reqq b of None \<Rightarrow> Trap Null_deref
             | Some q \<Rightarrow>
                 if virtio_queue_has_unseen_buffers (smem s) q then
                   run_bind (virtio_queue_dequeue lz q s) (\<lambda>(sl, q1, s1).
                     run_bind (lift_run (log_answers sl (slit_begin sl) (smem s1) t1)) (\<lambda>t2.
                       run_bind (kmfree sl s1) (\<lambda>s2. Ret (b\<lparr>reqq := Some q1\<rparr>, s2, t2))))
                 else Ret (b, s, t1)
           else Ret (b, s, t1))
          (\<lambda>(b3, s3, t3). Ret (b3, s3,
             (if isr AND 0x3 = 0x3 then t3 @ [Printk ''CONFIGURATION_CHANGE!\<newline>'' []] else t3) @ [Printk ''INTERRUPT!\<newline>'' []])))"

text \<open>struct virtio_block has 232 bytes.\<close>

definition new_block_device :: "(u32 \<Rightarrow> u32) \<Rightarrow> slabs \<Rightarrow> (addr \<times> virtio_block \<times> slabs) run" where
  "new_block_device lz s =
     run_bind (kzmalloc lz 232 s) (\<lambda>(s1, a).
       Ret (a, \<lparr>bdev_vdev = \<lparr>devce_type = 0, iobase = 0, features = 0, vdev_driver = 0\<rparr>,
         bdev_cfg = block_config (replicate 36 0), reqq = None\<rparr>, s1))"

definition init_vdev_block :: "(u32 \<Rightarrow> u32) \<Rightarrow> addr \<Rightarrow> machine \<Rightarrow> (addr \<times> virtio_block \<times> machine) run" where
  "init_vdev_block lz driver = (\<lambda>(s, t).
     run_bind (new_block_device lz s) (\<lambda>(a, b, s1).
       Ret (a, b\<lparr>bdev_vdev := (bdev_vdev b)\<lparr>vdev_driver := driver\<rparr>\<rparr>, s1, t)))"

section \<open>What a request tells the device\<close>

text \<open>The entries of a request for n blocks: the header, the blocks with direction d, the status byte.\<close>

definition request_entries :: "addr \<Rightarrow> addr \<Rightarrow> addr \<Rightarrow> nat \<Rightarrow> u8 \<Rightarrow> sl_entry list" where
  "request_entries ohdr ihdr buffer n d =
     (ohdr, 16, 0) # map (\<lambda>i. (buffer + 512 * of_nat i, 512, d)) [0..<n] @ [(ihdr, 1, 1)]"

lemma bind_entry_sl_bind:
  "bind_entry sl i b n VQ_IN m = sl_bind (sl + 12 * i) (b, n, 1) m"
  "bind_entry sl i b n VQ_OUT m = sl_bind (sl + 12 * i) (b, n, 0) m"
  by (simp_all add: bind_entry_def sl_bind_def VQ_IN_def VQ_OUT_def)

lemma request_built:
  assumes "unat c + 2 < 2 ^ 32" and "\<And>i b n m. bind_entry sl i b n dir m = sl_bind (sl + 12 * i) (b, n, d) m"
  shows "bind_entry sl (c + 2 - 1) ihdr 1 VQ_IN (bind_blocks sl (c + 2) buffer dir
      (bind_entry sl 0 ohdr 16 VQ_OUT (sl_list_init sl (c + 2) m))) =
    sl_build sl (request_entries ohdr ihdr buffer (unat c) d) m"
proof -
  let ?n = "unat c" and ?es = "request_entries ohdr ihdr buffer (unat c) d"
  have c: "c + 2 = of_nat (?n + 2)" "c + 2 - 1 = of_nat (?n + 1)" "unat (c + 2 - 1) = ?n + 1"
  proof -
    show "c + 2 = of_nat (?n + 2)" by simp
    show c1: "c + 2 - 1 = of_nat (?n + 1)" by simp
    have "unat (of_nat (?n + 1) :: u32) = ?n + 1"
      using assms(1) by (simp only: unat_of_nat) (simp add: take_bit_nat_eq_self)
    then show "unat (c + 2 - 1) = ?n + 1" unfolding c1 .
  qed
  have len: "length ?es = ?n + 2" by (simp add: request_entries_def)
  have "[0..<?n + 1] = 0 # [1..<?n + 1]" by (simp add: upt_conv_Cons del: upt_Suc)
  moreover have "[0..<?n + 2] = [0..<?n + 1] @ [?n + 1]" by simp
  ultimately have split: "[0..<?n + 2] = 0 # [1..<?n + 1] @ [?n + 1]" by simp
  have blocks: "fold (\<lambda>i. bind_entry sl (of_nat i) (buffer + 512 * (of_nat i - 1)) 512 dir) [1..<?n + 1] m' =
      fold (\<lambda>i. sl_bind (sl + 12 * of_nat i) (?es ! i)) [1..<?n + 1] m'" for m'
  proof (rule fold_cong)
    fix i assume i: "i \<in> set [1..<?n + 1]"
    then have "1 \<le> i" "i < ?n + 1" by (simp_all del: upt_Suc)
    then obtain j where j: "i = Suc j" "j < ?n" by (cases i) auto
    then have "?es ! i = (buffer + 512 * of_nat j, 512, d)" by (simp add: request_entries_def nth_append)
    then show "bind_entry sl (of_nat i) (buffer + 512 * (of_nat i - 1)) 512 dir = sl_bind (sl + 12 * of_nat i) (?es ! i)"
      using j(1) by (auto simp: assms(2))
  qed simp_all
  have built: "sl_build sl ?es m = sl_bind (sl + 12 * of_nat (?n + 1)) (ihdr, 1, 1)
      (fold (\<lambda>i. sl_bind (sl + 12 * of_nat i) (?es ! i)) [1..<?n + 1]
        (sl_bind (sl + 12 * of_nat 0) (ohdr, 16, 0) (sl_list_init sl (of_nat (?n + 2)) m)))"
    unfolding sl_build_def len split by (simp add: request_entries_def nth_append)
  show ?thesis
    unfolding bind_blocks_def unfolding c(3) unfolding blocks bind_entry_sl_bind unfolding c(2) unfolding built c(1)
    by (simp only: semiring_1_class.of_nat_0)
qed
lemma request_submitted:
  assumes q: "reqq b = Some q" "queue_ok q" and fits: "n + 2 \<le> unat (q_size q)"
    and apart: "\<forall>x. unat (x - l) < 12 * (n + 2) \<longrightarrow> 18 * unat (q_size q) + 6 \<le> unat (x - q_desc q)"
  obtains b' s' t' q' where
    "submit l b (s\<lparr>smem := sl_build l (request_entries ohdr ihdr buffer n d) m\<rparr>, t) = Ret (b', s', t')"
    and "reqq b' = Some q'" and "queue_ok q'"
    and "chain (smem s') (q_desc q) (unat (q_size q)) (next_buffer q) =
      (scast ohdr, 16, False) # map (\<lambda>i. (scast (buffer + 512 * of_nat i), 512, bit d 0)) [0..<n] @ [(scast ihdr, 1, True)]"
    and "\<forall>x. 18 * unat (q_size q) + 6 \<le> unat (x - q_desc q) \<and> 12 * (n + 2) \<le> unat (x - l) \<longrightarrow> smem s' x = m x"
proof -
  let ?es = "request_entries ohdr ihdr buffer n d" and ?N = "unat (q_size q)"
  let ?s = "s\<lparr>smem := sl_build l ?es m\<rparr>"
  have len: "length ?es = n + 2" by (simp add: request_entries_def)
  have small: "?es \<noteq> []" "3 * length ?es < 2 ^ 30"
    using fits q(2) unfolding len by (simp_all add: request_entries_def queue_ok_def)
  have array: "sl_array (smem ?s) l ?es" using sl_build_array [OF small] by simp
  have apart': "\<forall>x. unat (x - l) < 12 * length ?es \<longrightarrow> 18 * ?N + 6 \<le> unat (x - q_desc q)"
    and fits': "length ?es \<le> ?N"
    using apart fits unfolding len by blast+
  obtain q' s' t' where e: "enqueue_and_kick l q (?s, t) = Ret (q', s', t')"
    "chain (smem s') (q_desc q) ?N (next_buffer q) = map (\<lambda>(b, n, f). (scast b, n, bit f 0)) ?es" "queue_ok q'"
    "q_desc q' = q_desc q" "q_size q' = q_size q"
    "unat (next_buffer q') = (unat (next_buffer q) + length ?es) mod ?N"
    "\<forall>x. 18 * ?N + 6 \<le> unat (x - q_desc q) \<longrightarrow> smem s' x = smem ?s x" "s' = ?s\<lparr>smem := smem s'\<rparr>"
    "avail_idx (smem s') q = avail_idx (smem ?s) q + num_added q + of_nat (length ?es)"
    "ld16 (smem s') (ring_at q (avail_idx (smem ?s) q mod q_size q)) = next_buffer q"
    "num_added q' = 0" "t' = t @ notification (smem s') q"
    by (rule enqueue_and_kick_list [OF q(2) array fits' apart', of t])
  show thesis
  proof (rule that)
    show "submit l b (?s, t) = Ret (b\<lparr>reqq := Some q'\<rparr>, s', t')" using q(1) e(1) by (simp add: submit_def)
    show "chain (smem s') (q_desc q) ?N (next_buffer q) =
        (scast ohdr, 16, False) # map (\<lambda>i. (scast (buffer + 512 * of_nat i), 512, bit d 0)) [0..<n] @ [(scast ihdr, 1, True)]"
      unfolding e(2) by (simp add: request_entries_def)
    show "\<forall>x. 18 * ?N + 6 \<le> unat (x - q_desc q) \<and> 12 * (n + 2) \<le> unat (x - l) \<longrightarrow> smem s' x = m x"
      using e(7) sl_build_outside [OF small, where l = l and m = m] unfolding len by simp
  qed (use e(3) in simp_all)
qed

text \<open>The header's fields, and that they stay while its bytes do.\<close>

lemma header_fields:
  "ld32 (st64 (st32 m a k) (a + 8) v) a = k" "ld64 (st64 m' (a + 8) v) (a + 8) = v"
proof -
  have "ld32 (st64 (st32 m a k) (a + 8) v) a = ld32 (st32 m a k) a"
    by (rule ld32_cong) (simp_all add: st64_other)
  then show "ld32 (st64 (st32 m a k) (a + 8) v) a = k" by simp
qed simp

lemma header_kept:
  assumes "\<forall>x. unat (x - a) < 16 \<longrightarrow> m' x = m x"
  shows "ld32 m' a = ld32 m a" and "ld64 m' (a + 8) = ld64 m (a + 8)"
proof -
  have byte: "m' (a + c) = m (a + c)" if "unat c < 16" for c using assms that by simp
  show "ld32 m' a = ld32 m a" using byte [of 0] by (intro ld32_cong) (simp_all add: byte)
  have "ld32 m' (a + 8) = ld32 m (a + 8)" "ld32 m' (a + 12) = ld32 m (a + 12)"
    by (auto intro!: ld32_cong simp: byte add.assoc)
  then show "ld64 m' (a + 8) = ld64 m (a + 8)" by (simp add: ld64_def add.assoc)
qed

text \<open>What both kinds of requests have in common once they have run up to the submission.\<close>

lemma request_described:
  assumes q: "reqq b = Some q" "queue_ok q" and fits: "n + 2 \<le> unat (q_size q)"
    and list: "\<forall>x. unat (x - l) < 12 * (n + 2) \<longrightarrow> 18 * unat (q_size q) + 6 \<le> unat (x - q_desc q)"
    and headers: "\<forall>x. unat (x - hdrs) < 16 \<longrightarrow> 18 * unat (q_size q) + 6 \<le> unat (x - q_desc q) \<and> 12 * (n + 2) \<le> unat (x - l)"
    and run: "r = submit l b (s1\<lparr>smem := sl_build l (request_entries hdrs (hdrs + 16) buffer n d)
      (st64 (st32 (smem s1) hdrs kind) (hdrs + 8) (ucast sector))\<rparr>, t1)"
  shows "\<exists>b' s' t' q'. r = Ret (b', s', t') \<and> reqq b' = Some q' \<and> queue_ok q' \<and>
    chain (smem s') (q_desc q) (unat (q_size q)) (next_buffer q) =
      (scast hdrs, 16, False) # map (\<lambda>i. (scast (buffer + 512 * of_nat i), 512, bit d 0)) [0..<n] @ [(scast (hdrs + 16), 1, True)] \<and>
    ld32 (smem s') hdrs = kind \<and> ld64 (smem s') (hdrs + 8) = ucast sector"
proof -
  let ?m = "st64 (st32 (smem s1) hdrs kind) (hdrs + 8) (ucast sector)"
  obtain b' s' t' q' where r: "r = Ret (b', s', t')" "reqq b' = Some q'" "queue_ok q'"
    "chain (smem s') (q_desc q) (unat (q_size q)) (next_buffer q) =
      (scast hdrs, 16, False) # map (\<lambda>i. (scast (buffer + 512 * of_nat i), 512, bit d 0)) [0..<n] @ [(scast (hdrs + 16), 1, True)]"
    "\<forall>x. 18 * unat (q_size q) + 6 \<le> unat (x - q_desc q) \<and> 12 * (n + 2) \<le> unat (x - l) \<longrightarrow> smem s' x = ?m x"
    unfolding run by (rule request_submitted [OF q fits list])
  have "\<forall>x. unat (x - hdrs) < 16 \<longrightarrow> smem s' x = ?m x" using r(5) headers by blast
  then have "ld32 (smem s') hdrs = kind" "ld64 (smem s') (hdrs + 8) = ucast sector"
    using header_kept [of hdrs "smem s'" ?m] by (simp_all add: header_fields)
  then show ?thesis using r(1-4) by blast
qed

text \<open>
  C33: A read request. Let the allocation of the headers succeed and the request of n blocks fit the
  queue, and let the local scatter list and the headers lie outside each other and outside the
  queue. vdev_read_request then returns; the chain of descriptors at the queue's next free one is
  the header (16 bytes, for the device to read), the n blocks of 512 bytes of the buffer in order
  (for the device to write), and the status byte behind the header (for the device to write); the
  header says that sector is to be read, and the queue is in order for the next request.
\<close>
theorem read_request_describes:
  assumes "kzmalloc lz 17 s = Ret (s1, hdrs)" and "reqq b = Some q" and "queue_ok q"
    and "unat (sector_count len) + 2 \<le> unat (q_size q)"
    and "\<forall>x. unat (x - at_list L) < 12 * (unat (sector_count len) + 2) \<longrightarrow> 18 * unat (q_size q) + 6 \<le> unat (x - q_desc q)"
    and "\<forall>x. unat (x - hdrs) < 16 \<longrightarrow> 18 * unat (q_size q) + 6 \<le> unat (x - q_desc q) \<and>
      12 * (unat (sector_count len) + 2) \<le> unat (x - at_list L)"
  shows "\<exists>b' s' t' q'. vdev_read_request lz L sector buffer len b (s, t) = Ret (b', s', t') \<and>
    reqq b' = Some q' \<and> queue_ok q' \<and>
    chain (smem s') (q_desc q) (unat (q_size q)) (next_buffer q) =
      (scast hdrs, 16, False) # map (\<lambda>i. (scast (buffer + 512 * of_nat i), 512, True)) [0..<unat (sector_count len)] @
      [(scast (hdrs + 16), 1, True)] \<and>
    ld32 (smem s') hdrs = VIRTIO_BLK_T_IN \<and> ld64 (smem s') (hdrs + 8) = ucast sector"
proof -
  let ?c = "sector_count len" and ?l = "at_list L"
  have "unat ?c + 2 < 2 ^ 32" using assms(3,4) by (simp add: queue_ok_def)
  note built = request_built [OF this bind_entry_sl_bind(1), symmetric]
  obtain t1 where run: "vdev_read_request lz L sector buffer len b (s, t) =
      submit ?l b (s1\<lparr>smem := sl_build ?l (request_entries hdrs (hdrs + 16) buffer (unat ?c) 1)
        (st64 (st32 (smem s1) hdrs VIRTIO_BLK_T_IN) (hdrs + 8) (ucast sector))\<rparr>, t1)"
    unfolding built using assms(1) by (simp add: vdev_read_request_def request_headers_def Let_def bind_entry_def)
  show ?thesis using request_described [OF assms(2-6) run] by simp
qed

text \<open>
  A write request. Under the same conditions as for a read request, vdev_write_request returns and
  the chain is the header, the n blocks of the buffer in order, now for the device to read, and the
  status byte for the device to write; the header says that sector is to be written.
\<close>
theorem write_request_describes:
  assumes "kzmalloc lz 17 s = Ret (s1, hdrs)" and "reqq b = Some q" and "queue_ok q"
    and "unat (sector_count len) + 2 \<le> unat (q_size q)"
    and "\<forall>x. unat (x - at_list L) < 12 * (unat (sector_count len) + 2) \<longrightarrow> 18 * unat (q_size q) + 6 \<le> unat (x - q_desc q)"
    and "\<forall>x. unat (x - hdrs) < 16 \<longrightarrow> 18 * unat (q_size q) + 6 \<le> unat (x - q_desc q) \<and>
      12 * (unat (sector_count len) + 2) \<le> unat (x - at_list L)"
  shows "\<exists>b' s' t' q'. vdev_write_request lz L sector buffer len b (s, t) = Ret (b', s', t') \<and>
    reqq b' = Some q' \<and> queue_ok q' \<and>
    chain (smem s') (q_desc q) (unat (q_size q)) (next_buffer q) =
      (scast hdrs, 16, False) # map (\<lambda>i. (scast (buffer + 512 * of_nat i), 512, False)) [0..<unat (sector_count len)] @
      [(scast (hdrs + 16), 1, True)] \<and>
    ld32 (smem s') hdrs = VIRTIO_BLK_T_OUT \<and> ld64 (smem s') (hdrs + 8) = ucast sector"
proof -
  let ?c = "sector_count len" and ?l = "at_list L"
  have "unat ?c + 2 < 2 ^ 32" using assms(3,4) by (simp add: queue_ok_def)
  note built = request_built [OF this bind_entry_sl_bind(2), symmetric]
  have run: "vdev_write_request lz L sector buffer len b (s, t) =
      submit ?l b (s1\<lparr>smem := sl_build ?l (request_entries hdrs (hdrs + 16) buffer (unat ?c) 0)
        (st64 (st32 (smem s1) hdrs VIRTIO_BLK_T_OUT) (hdrs + 8) (ucast sector))\<rparr>, t)"
    unfolding built using assms(1) by (simp add: vdev_write_request_def request_headers_def Let_def bind_entry_def)
  show ?thesis using request_described [OF assms(2-6) run] by simp
qed

definition block_queue :: virtio_queue where
  "block_queue = \<lparr>q_iobase = 0xC100, q_idx = 0, next_buffer = 6, num_added = 0, q_size = 8, last_buffer_seen = 0,
     q_desc = 0x4000, q_avail = 0x4080, q_used = 0x5000\<rparr>"

definition some_block :: virtio_block where
  "some_block = \<lparr>bdev_vdev = \<lparr>devce_type = 0, iobase = 0xC100, features = 0, vdev_driver = 0\<rparr>,
     bdev_cfg = block_config (replicate 36 0), reqq = Some block_queue\<rparr>"

lemma some_headers: obtains s1 where "kzmalloc lz 17 one_node = Ret (s1, 0x2050)"
proof -
  have run: "free_run (tbit (smem one_node) (0x2000 + 8)) 0 4"
    using one_node(3) by (simp add: free_run_def)
  obtain m where "kmalloc lz 17 one_node = Ret (one_node\<lparr>smem := m\<rparr>, 0x2050)"
    using small_block [where sz = 17 and s = one_node and node = "0x2000" and b = 0 and lz = lz] one_node(1,2) run by auto
  then show thesis using that by (simp add: kzmalloc_def kmalloc_def)
qed

lemma some_request:
  "unat (sector_count 1024) = 2"
  "reqq some_block = Some block_queue" "queue_ok block_queue" "unat (sector_count 1024) + 2 \<le> unat (q_size block_queue)"
  "\<forall>x. unat (x - at_list some_locals) < 12 * (unat (sector_count 1024) + 2) \<longrightarrow>
     18 * unat (q_size block_queue) + 6 \<le> unat (x - q_desc block_queue)"
  "\<forall>x. unat (x - 0x2050) < 16 \<longrightarrow> 18 * unat (q_size block_queue) + 6 \<le> unat (x - q_desc block_queue) \<and>
     12 * (unat (sector_count 1024) + 2) \<le> unat (x - at_list some_locals)"
proof -
  show n: "unat (sector_count 1024) = 2" by code_simp
  show "reqq some_block = Some block_queue" "queue_ok block_queue" "unat (sector_count 1024) + 2 \<le> unat (q_size block_queue)"
    by (simp_all add: some_block_def block_queue_def queue_ok_def n)
  show "\<forall>x. unat (x - at_list some_locals) < 12 * (unat (sector_count 1024) + 2) \<longrightarrow>
      18 * unat (q_size block_queue) + 6 \<le> unat (x - q_desc block_queue)"
    unfolding n by (auto simp: some_locals_def block_queue_def intro: range_apart)
  show "\<forall>x. unat (x - 0x2050) < 16 \<longrightarrow> 18 * unat (q_size block_queue) + 6 \<le> unat (x - q_desc block_queue) \<and>
      12 * (unat (sector_count 1024) + 2) \<le> unat (x - at_list some_locals)"
    unfolding n by (auto simp: some_locals_def block_queue_def intro: range_apart)
qed

lemma some_addresses:
  "(scast (0x2050 :: addr) :: u64) = 0x2050" "(scast (0x8000 :: addr) :: u64) = 0x8000"
  "(scast (0x8200 :: addr) :: u64) = 0x8200" "(scast (0x2060 :: addr) :: u64) = 0x2060" "[0..<2] = [0, Suc 0]"
  by code_simp+

theorem read_request_describes_witness:
  "\<exists>b' s' t' q'. vdev_read_request bsr some_locals 7 0x8000 1024 some_block (one_node, []) = Ret (b', s', t') \<and> reqq b' = Some q' \<and>
     chain (smem s') 0x4000 8 6 = [(0x2050, 16, False), (0x8000, 512, True), (0x8200, 512, True), (0x2060, 1, True)] \<and>
     ld32 (smem s') 0x2050 = 0 \<and> ld64 (smem s') 0x2058 = 7"
proof -
  obtain s1 where s1: "kzmalloc bsr 17 one_node = Ret (s1, 0x2050)" by (rule some_headers)
  show ?thesis
    using read_request_describes [OF s1 some_request(2-6), of 7 "0x8000" "[]"]
    unfolding some_request(1) some_addresses(5) by (auto simp: block_queue_def VIRTIO_BLK_T_IN_def some_addresses)
qed

theorem write_request_describes_witness:
  "\<exists>b' s' t' q'. vdev_write_request bsr some_locals 7 0x8000 1024 some_block (one_node, []) = Ret (b', s', t') \<and> reqq b' = Some q' \<and>
     chain (smem s') 0x4000 8 6 = [(0x2050, 16, False), (0x8000, 512, False), (0x8200, 512, False), (0x2060, 1, True)] \<and>
     ld32 (smem s') 0x2050 = 1 \<and> ld64 (smem s') 0x2058 = 7"
proof -
  obtain s1 where s1: "kzmalloc bsr 17 one_node = Ret (s1, 0x2050)" by (rule some_headers)
  show ?thesis
    using write_request_describes [OF s1 some_request(2-6), of 7 "0x8000" "[]"]
    unfolding some_request(1) some_addresses(5) by (auto simp: block_queue_def VIRTIO_BLK_T_OUT_def some_addresses)
qed


end
