(* ===== verification/Virtio.thy ===== *)
theory Virtio
  imports Virtio_Block
begin

text \<open>
  The driver virtio.c registers with the PCI bus. It creates the virtio device a PCI device's
  subsystem names, greets it and passes set up and interrupts on to the console's or the block
  device's virtio_driver.
\<close>

section \<open>State\<close>

text \<open>
  The structure a virtio_dev is embedded in. The pci_dev is its first field, so the structure lies
  at the address of the pci_dev; the bus keeps a map from these addresses.
\<close>

datatype vcontainer = Console_dev virtio_console | Block_dev virtio_block

type_synonym vdevs = "addr \<Rightarrow> vcontainer option"

type_synonym vworld = "vdevs pci_world"

primrec vdev_of :: "vcontainer \<Rightarrow> virtio_dev" where
  "vdev_of (Console_dev c) = cdev_vdev c"
| "vdev_of (Block_dev b) = bdev_vdev b"

primrec set_vdev :: "virtio_dev \<Rightarrow> vcontainer \<Rightarrow> vcontainer" where
  "set_vdev v (Console_dev c) = Console_dev (c\<lparr>cdev_vdev := v\<rparr>)"
| "set_vdev v (Block_dev b) = Block_dev (b\<lparr>bdev_vdev := v\<rparr>)"

text \<open>A function pointer that the initialiser leaves out is NULL.\<close>

record virtio_driver =
  vd_probe_features :: "(vcontainer \<Rightarrow> u32 \<Rightarrow> trace \<Rightarrow> (bool \<times> trace) run) option"
  vd_setup :: "(pci_dev \<Rightarrow> vcontainer \<Rightarrow> machine \<Rightarrow> (bool \<times> vcontainer \<times> machine) run) option"
  vd_ievent :: "(pci_dev \<Rightarrow> vcontainer \<Rightarrow> machine \<Rightarrow> (vcontainer \<times> machine) run) option"
  vd_remove :: "(vcontainer \<Rightarrow> machine \<Rightarrow> (vcontainer \<times> machine) run) option"

text \<open>
  What the code takes from its surroundings: that of the bus, the local arrays, and where the linker
  puts the driver structures.
\<close>

record virtio_env =
  bus_env :: pci_env
  ve_locals :: locals
  at_console_driver :: addr
  at_block_driver :: addr
  at_pci_driver :: addr

abbreviation ve_hw :: "virtio_env \<Rightarrow> hw" where "ve_hw e \<equiv> env_hw (bus_env e)"
abbreviation ve_lz :: "virtio_env \<Rightarrow> u32 \<Rightarrow> u32" where "ve_lz e \<equiv> env_lz (bus_env e)"

definition VIRTIO_SUBSYSTEM_BLOCK :: u16 where "VIRTIO_SUBSYSTEM_BLOCK = 2"
definition VIRTIO_SUBSYSTEM_CONSOLE :: u16 where "VIRTIO_SUBSYSTEM_CONSOLE = 3"

definition with_machine :: "machine \<Rightarrow> vworld \<Rightarrow> vworld" where
  "with_machine st w = w\<lparr>heap := fst st, wtrace := snd st\<rparr>"

definition with_device :: "addr \<Rightarrow> vcontainer \<Rightarrow> machine \<Rightarrow> vworld \<Rightarrow> vworld" where
  "with_device a d st w = (with_machine st w)\<lparr>driver_data := (driver_data w)(a \<mapsto> d)\<rparr>"

section \<open>The two virtio drivers\<close>

text \<open>
  A console driver is only ever given the structure init_vdev_console made, and a block driver that
  of init_vdev_block; the other case is outside the structure.
\<close>

definition virtio_console_driver :: "virtio_env \<Rightarrow> virtio_driver" where
  "virtio_console_driver e =
     \<lparr>vd_probe_features = Some (\<lambda>d fs t. Ret (console_features (literal_at (ve_locals e)) (ve_hw e) (vdev_of d) fs t)),
      vd_setup = Some (\<lambda>pd d st. case d of
        Console_dev c \<Rightarrow> run_bind (console_setup (ve_lz e) (ve_hw e) pd (ve_locals e) c st)
          (\<lambda>(ok, c1, st1). Ret (ok, Console_dev c1, st1))
      | Block_dev b \<Rightarrow> Trap Out_of_bounds),
      vd_ievent = Some (\<lambda>pd d st. case d of
        Console_dev c \<Rightarrow> run_bind (console_interrupt (ve_lz e) (ve_hw e) pd (ve_locals e) c st)
          (\<lambda>(c1, st1). Ret (Console_dev c1, st1))
      | Block_dev b \<Rightarrow> Trap Out_of_bounds),
      vd_remove = None\<rparr>"

definition virtio_block_driver :: "virtio_env \<Rightarrow> virtio_driver" where
  "virtio_block_driver e =
     \<lparr>vd_probe_features = Some (\<lambda>d fs t. Ret (bdev_features (literal_at (ve_locals e)) (ve_hw e) (vdev_of d) fs t)),
      vd_setup = Some (\<lambda>pd d st. case d of
        Block_dev b \<Rightarrow> run_bind (bdev_setup (ve_lz e) (ve_hw e) pd b st)
          (\<lambda>(ok, b1, st1). Ret (ok, Block_dev b1, st1))
      | Console_dev c \<Rightarrow> Trap Out_of_bounds),
      vd_ievent = Some (\<lambda>pd d st. case d of
        Block_dev b \<Rightarrow> run_bind (bdev_interrupt (ve_lz e) (ve_hw e) b st) (\<lambda>(b1, st1). Ret (Block_dev b1, st1))
      | Console_dev c \<Rightarrow> Trap Out_of_bounds),
      vd_remove = None\<rparr>"

text \<open>Following the driver pointer of a device, and calling one of its functions.\<close>

definition driver_at :: "virtio_env \<Rightarrow> addr \<Rightarrow> virtio_driver option" where
  "driver_at e a = (if a = at_console_driver e then Some (virtio_console_driver e)
     else if a = at_block_driver e then Some (virtio_block_driver e) else None)"

definition call :: "virtio_env \<Rightarrow> vcontainer \<Rightarrow> (virtio_driver \<Rightarrow> 'f option) \<Rightarrow> 'f run" where
  "call e d f =
     (case driver_at e (vdev_driver (vdev_of d)) of None \<Rightarrow> Trap Null_deref
      | Some drv \<Rightarrow> (case f drv of None \<Rightarrow> Trap Null_deref | Some g \<Rightarrow> Ret g))"

section \<open>The PCI driver\<close>

definition pdev_to_vdev :: "pci_dev \<Rightarrow> vworld \<Rightarrow> vcontainer run" where
  "pdev_to_vdev pd w = (case driver_data w (dev_addr pd) of None \<Rightarrow> Trap Null_deref | Some d \<Rightarrow> Ret d)"

definition virtio_match :: "pci_dev \<Rightarrow> vworld \<Rightarrow> (bool \<times> vworld) run" where
  "virtio_match pd w = Ret (True, w)"

definition init_vdev_common :: "pci_dev \<Rightarrow> vcontainer \<Rightarrow> vcontainer" where
  "init_vdev_common pd d = set_vdev ((vdev_of d)\<lparr>iobase := pci_dev_get_iobase pd\<rparr>) d"

definition virtio_init :: "virtio_env \<Rightarrow> pci_dev \<Rightarrow> vworld \<Rightarrow> (pci_dev option \<times> vworld) run" where
  "virtio_init e pd w =
     (let made = (\<lambda>a d st. Ret (Some (pd\<lparr>dev_addr := a\<rparr>), with_device a (init_vdev_common pd d) st w))
      in if subsystem_id pd = VIRTIO_SUBSYSTEM_CONSOLE then
           run_bind (init_vdev_console (ve_lz e) (at_console_driver e) (heap w, wtrace w))
             (\<lambda>(a, c, st). made a (Console_dev c) st)
         else if subsystem_id pd = VIRTIO_SUBSYSTEM_BLOCK then
           run_bind (init_vdev_block (ve_lz e) (at_block_driver e) (heap w, wtrace w))
             (\<lambda>(a, b, st). made a (Block_dev b) st)
         else Ret (None, w))"

definition virtio_probe :: "virtio_env \<Rightarrow> pci_dev \<Rightarrow> vworld \<Rightarrow> (bool \<times> pci_dev \<times> vworld) run" where
  "virtio_probe e pd w =
     run_bind (pdev_to_vdev pd w) (\<lambda>d.
       let io = iobase (vdev_of d);
           t1 = virtio_add_status (ve_hw e) io VIRTIO_STATUS_ACK (wtrace w);
           t2 = virtio_add_status (ve_hw e) io VIRTIO_STATUS_DRI t1;
           (fs, t3) = virtio_get_features (ve_hw e) (vdev_of d) t2
       in run_bind (call e d vd_probe_features) (\<lambda>f.
            run_bind (f d fs t3) (\<lambda>(ok, t4).
              if \<not> ok then Ret (False, pd, w\<lparr>wtrace := virtio_add_status (ve_hw e) io VIRTIO_STATUS_FAILED t4\<rparr>)
              else Ret (True, pd, w\<lparr>wtrace := t4\<rparr>))))"

definition virtio_setup :: "virtio_env \<Rightarrow> pci_dev \<Rightarrow> vworld \<Rightarrow> (bool \<times> pci_dev \<times> vworld) run" where
  "virtio_setup e pd w =
     run_bind (pdev_to_vdev pd w) (\<lambda>d.
       run_bind (call e d vd_setup) (\<lambda>f.
         run_bind (f pd d (heap w, wtrace w)) (\<lambda>(ok, d1, s1, t1).
           let t2 = (if ok then virtio_add_status (ve_hw e) (iobase (vdev_of d1)) VIRTIO_STATUS_DRI_OK t1 else t1)
           in Ret (ok, pd, with_device (dev_addr pd) d1 (s1, t2) w))))"

definition virtio_remove :: "virtio_env \<Rightarrow> pci_dev \<Rightarrow> vworld \<Rightarrow> vworld run" where
  "virtio_remove e pd w =
     run_bind (pdev_to_vdev pd w) (\<lambda>d.
       run_bind (call e d vd_remove) (\<lambda>f.
         run_bind (f d (heap w, wtrace w)) (\<lambda>(d1, st). Ret (with_device (dev_addr pd) d1 st w))))"

definition virtio_interrupt :: "virtio_env \<Rightarrow> pci_dev \<Rightarrow> vworld \<Rightarrow> vworld run" where
  "virtio_interrupt e pd w =
     run_bind (pdev_to_vdev pd w) (\<lambda>d.
       run_bind (call e d vd_ievent) (\<lambda>f.
         run_bind (f pd d (heap w, wtrace w)) (\<lambda>(d1, st). Ret (with_device (dev_addr pd) d1 st w))))"

definition virtio_ids :: "pci_id list" where
  "virtio_ids =
     [\<lparr>pi_vendor = VIRTIO_VENDOR_ID, pi_device = 0xffff, pi_subsystem = 0xffff, pi_class = 0xff, pi_sub_class = 0xff,
       pi_revision = 0xff\<rparr>,
      \<lparr>pi_vendor = 0, pi_device = 0, pi_subsystem = 0, pi_class = 0, pi_sub_class = 0, pi_revision = 0\<rparr>]"

definition virtio_pci_driver :: "virtio_env \<Rightarrow> vdevs pci_driver" where
  "virtio_pci_driver e = \<lparr>drv_addr = at_pci_driver e, id_list = virtio_ids,
     drv_match = virtio_match, drv_init = virtio_init e, drv_probe = virtio_probe e, drv_setup = virtio_setup e,
     drv_remove = virtio_remove e, drv_ievent = Some (virtio_interrupt e)\<rparr>"

definition virtio_driver_register :: "virtio_env \<Rightarrow> vdevs pci_driver list \<times> vworld \<Rightarrow> vdevs pci_driver list \<times> vworld" where
  "virtio_driver_register e = pci_register_driver (virtio_pci_driver e)"

section \<open>The driver and the bus\<close>

text \<open>The driver touches the heap, the trace and its own devices, so enumeration works with it.\<close>

lemma with_device_bus [simp]: "global_bus (with_device a d st w) = global_bus w"
  by (simp add: with_device_def with_machine_def)

lemma virtio_keeps_bus: "keeps_bus (virtio_pci_driver e)"
  by (auto simp: keeps_bus_def virtio_pci_driver_def virtio_match_def virtio_init_def virtio_probe_def virtio_setup_def
      virtio_remove_def run_bind_eq_Ret Let_def case_prod_beta split: if_splits)

interpretation virtio_bus: bus_drivers "[virtio_pci_driver e]" for e
  by unfold_locales (simp add: virtio_keeps_bus)

lemma virtio_walk_bus:
  "slot_ids (env_hw pe) bus reg \<Longrightarrow> walk_bus pe [virtio_pci_driver e] bus w = Ret w' \<Longrightarrow>
    \<exists>new. bus_devices (global_bus w') = bus_devices (global_bus w) @ new \<and>
      map ids (first_functions new) = map (found_in_slot reg) (filter (occupied reg) [0..<32])"
  by (rule virtio_bus.walk_bus_finds)

text \<open>A device of another vendor is left without a driver.\<close>

lemma virtio_other_vendor:
  "vendor_id d \<noteq> VIRTIO_VENDOR_ID \<Longrightarrow> pci_find_driver [virtio_pci_driver e] d = Ret None"
  by (simp add: match_dri_dev_def virtio_pci_driver_def virtio_ids_def match_id_def VIRTIO_VENDOR_ID_def)

section \<open>The handshake\<close>

text \<open>What the device's status register holds: the last byte written to its port.\<close>

definition status_step :: "u16 \<Rightarrow> io_event \<Rightarrow> u8 \<Rightarrow> u8" where
  "status_step port ev st = (case ev of Outb p v \<Rightarrow> if p = port then v else st | _ \<Rightarrow> st)"

definition status_of :: "u16 \<Rightarrow> trace \<Rightarrow> u8" where
  "status_of port t = fold (status_step port) t 0"

lemma status_of_append [simp]: "status_of port (t @ u) = fold (status_step port) u (status_of port t)"
  by (simp add: status_of_def)

lemma status_step_simps [simp]:
  "status_step port (Outb p v) st = (if p = port then v else st)" "status_step port (Inb p v) st = st"
  "status_step port (io_event.Inl p l) st = st" "status_step port (Outl p l) st = st" "status_step port (Printk f as) st = st"
  by (simp_all add: status_step_def)

definition keeps_status :: "hw \<Rightarrow> u32 \<Rightarrow> bool" where
  "keeps_status hw io \<longleftrightarrow> (\<forall>t. ucast (port_in hw t (ucast (io + 18))) = status_of (ucast (io + 18)) t)"

lemma add_status:
  assumes "keeps_status hw io" and "unat ns < 8"
  shows "status_of (ucast (io + 18)) (virtio_add_status hw io ns t) = status_of (ucast (io + 18)) t OR push_bit (unat ns) 1"
proof -
  let ?v = "port_in hw t (ucast (io + 18))"
  have m: "(0xff :: u32) = mask 8" by (simp add: mask_eq_exp_minus_1)
  have "shl32 1 (ucast ns) = push_bit (unat ns) 1"
    using assms(2) shl32_of_nat [of "unat ns" 1] by simp
  then have "ucast (?v AND 0xff OR shl32 1 (ucast ns)) = (ucast ?v :: u8) OR push_bit (unat ns) 1"
    unfolding m by (intro bit_word_eqI) (auto simp: bit_simps)
  then show ?thesis
    using assms(1) by (simp add: virtio_add_status_def virtio_header_get_byte_def virtio_header_set_byte_def Let_def keeps_status_def)
qed
definition mandatory_feature :: "virtio_env \<Rightarrow> vcontainer \<Rightarrow> nat \<Rightarrow> bool" where
  "mandatory_feature e d n \<longleftrightarrow>
     vdev_driver (vdev_of d) = at_console_driver e \<and> n = VIRTIO_CONSOLE_F_MULTIPORT \<or>
     vdev_driver (vdev_of d) = at_block_driver e \<and> at_block_driver e \<noteq> at_console_driver e \<and> n = VIRTIO_BLK_F_BLK_SIZE"

definition offers :: "hw \<Rightarrow> u32 \<Rightarrow> u32 \<Rightarrow> bool" where
  "offers hw io fs \<longleftrightarrow> (\<forall>t. port_in hw t (ucast io) = fs)"

lemma feature_asked:
  assumes "n < 32"
  shows "push_bit n (1 :: u32) AND fs = push_bit n 1 \<longleftrightarrow> bit fs n"
proof -
  have "push_bit n (1 :: u32) AND fs = (if bit fs n then push_bit n 1 else 0)"
    by (rule bit_word_eqI) (auto simp: bit_simps)
  moreover have "push_bit n (1 :: u32) \<noteq> 0" using assms by (simp add: unat_two_power unat_gt_0 [symmetric])
  ultimately show ?thesis by simp
qed

lemma confirm_features:
  assumes "offers hw (iobase vd) fs"
  shows "vdev_confirm_features hw vd req t =
    (req AND fs = req, t @ [Outl (ucast (iobase vd + 4)) req, io_event.Inl (ucast (iobase vd)) fs])"
  using assms
  by (simp add: vdev_confirm_features_def virtio_header_set_dword_def virtio_header_get_dword_def inl_def Let_def offers_def)

lemma features_answer:
  assumes "mandatory_feature e d n" and "offers (ve_hw e) (iobase (vdev_of d)) fs"
  obtains f t' where "call e d vd_probe_features = Ret f" and "f d fs t = Ret (bit fs n, t')"
    and "\<forall>port. status_of port t' = status_of port t"
proof (cases "vdev_driver (vdev_of d) = at_console_driver e")
  case True
  let ?f = "\<lambda>d fs t. Ret (console_features (literal_at (ve_locals e)) (ve_hw e) (vdev_of d) fs t) :: (bool \<times> trace) run"
  have n: "n = 1" using assms(1) True by (auto simp: mandatory_feature_def VIRTIO_CONSOLE_F_MULTIPORT_def)
  show thesis
  proof (rule that [of ?f])
    show "call e d vd_probe_features = Ret ?f" using True by (simp add: call_def driver_at_def virtio_console_driver_def)
    show "?f d fs t = Ret (bit fs n, snd (console_features (literal_at (ve_locals e)) (ve_hw e) (vdev_of d) fs t))"
      using feature_asked [of 1 fs]
      by (simp add: console_features_def confirm_features [OF assms(2)] n VIRTIO_CONSOLE_F_MULTIPORT_def)
  qed (simp add: console_features_def confirm_features [OF assms(2)] check_feature_def)
next
  case False
  let ?f = "\<lambda>d fs t. Ret (bdev_features (literal_at (ve_locals e)) (ve_hw e) (vdev_of d) fs t) :: (bool \<times> trace) run"
  have n: "n = 6" "vdev_driver (vdev_of d) = at_block_driver e"
    using assms(1) False by (auto simp: mandatory_feature_def VIRTIO_BLK_F_BLK_SIZE_def)
  show thesis
  proof (rule that [of ?f])
    show "call e d vd_probe_features = Ret ?f" using False n(2) by (simp add: call_def driver_at_def virtio_block_driver_def)
    show "?f d fs t = Ret (bit fs n, snd (bdev_features (literal_at (ve_locals e)) (ve_hw e) (vdev_of d) fs t))"
      using feature_asked [of 6 fs]
      by (simp add: bdev_features_def confirm_features [OF assms(2)] n(1) VIRTIO_BLK_F_BLK_SIZE_def)
  qed (simp add: bdev_features_def confirm_features [OF assms(2)] check_feature_def)
qed

text \<open>
  C34: The handshake with a device. Let the device keep what is written to its status register and
  offer the features fs. virtio_probe then returns, and it accepts the device if and only if it
  offers the feature its driver cannot do without (MULTIPORT for a console, BLK_SIZE for a block
  device); the status register has the bits ACKNOWLEDGE and DRIVER set on top of what it had, and the
  bit FAILED as well when the device is rejected; no device structure has changed. The messages the
  features are logged with are events of the trace here: what printing them does to the screen, the
  serial line and the allocator, and whether it ends, is the subject of the theory Terminal.
\<close>
theorem probe_handshake:
  assumes "driver_data w (dev_addr pd) = Some d" and "keeps_status (ve_hw e) (iobase (vdev_of d))"
    and "offers (ve_hw e) (iobase (vdev_of d)) fs" and "mandatory_feature e d n"
  shows "\<exists>w'. virtio_probe e pd w = Ret (bit fs n, pd, w') \<and>
    status_of (ucast (iobase (vdev_of d) + 18)) (wtrace w') =
      status_of (ucast (iobase (vdev_of d) + 18)) (wtrace w) OR (if bit fs n then 0x03 else 0x43) \<and>
    driver_data w' = driver_data w"
proof -
  let ?io = "iobase (vdev_of d)" and ?hw = "ve_hw e"
  let ?t2 = "virtio_add_status ?hw ?io VIRTIO_STATUS_DRI (virtio_add_status ?hw ?io VIRTIO_STATUS_ACK (wtrace w))"
  let ?t3 = "?t2 @ [io_event.Inl (ucast ?io) fs]"
  obtain f t4 where f: "call e d vd_probe_features = Ret f" "f d fs ?t3 = Ret (bit fs n, t4)"
      "\<forall>port. status_of port t4 = status_of port ?t3"
    by (rule features_answer [OF assms(4,3), where t = ?t3])
  have get: "virtio_get_features ?hw (vdev_of d) ?t2 = (fs, ?t3)"
    using assms(3) by (simp add: virtio_get_features_def virtio_header_get_dword_def inl_def offers_def)
  have "status_of (ucast (?io + 18)) t4 = status_of (ucast (?io + 18)) (wtrace w) OR 0x03"
    using f(3) by (simp add: add_status [OF assms(2)] VIRTIO_STATUS_DRI_def VIRTIO_STATUS_ACK_def or.assoc)
  moreover have "status_of (ucast (?io + 18)) (virtio_add_status ?hw ?io VIRTIO_STATUS_FAILED t4) =
      status_of (ucast (?io + 18)) t4 OR 0x40"
    by (simp add: add_status [OF assms(2)] VIRTIO_STATUS_FAILED_def)
  ultimately show ?thesis
    by (simp add: virtio_probe_def pdev_to_vdev_def assms(1) Let_def get f(1,2) or.assoc)
qed
section \<open>Rejecting a device\<close>

text \<open>
  C40: A device without the mandatory feature. Let a console or block device whose structure can be
  allocated offer the features fs without the one its driver cannot do without. The bus's attempt to
  set it up then ends in a call through a null pointer: virtio_probe rejects the device, the bus calls
  remove, and neither virtio_driver has a remove function.
\<close>
theorem rejected_device_faults:
  assumes "subsystem_id pd = VIRTIO_SUBSYSTEM_CONSOLE \<and> sz = 312 \<and> n = VIRTIO_CONSOLE_F_MULTIPORT \<or>
      subsystem_id pd = VIRTIO_SUBSYSTEM_BLOCK \<and> sz = 232 \<and> n = VIRTIO_BLK_F_BLK_SIZE \<and> at_block_driver e \<noteq> at_console_driver e"
    and "kzmalloc (ve_lz e) sz (heap w) = Ret (s1, a)" and "offers (ve_hw e) (pci_dev_get_iobase pd) fs" and "\<not> bit fs n"
  shows "driver_try_setup (bus_env e) (virtio_pci_driver e) pd w = Trap Null_deref"
proof -
  obtain d t1 where init: "virtio_init e pd w = Ret (Some (pd\<lparr>dev_addr := a\<rparr>), with_device a d (s1, t1) w)"
      "iobase (vdev_of d) = pci_dev_get_iobase pd" "mandatory_feature e d n"
  proof (cases "subsystem_id pd = VIRTIO_SUBSYSTEM_CONSOLE")
    case True
    then show thesis using assms(1,2) that
      by (simp add: virtio_init_def init_vdev_console_def new_console_device_def init_vdev_common_def mandatory_feature_def
          VIRTIO_SUBSYSTEM_CONSOLE_def VIRTIO_SUBSYSTEM_BLOCK_def)
  next
    case False
    then show thesis using assms(1,2) that
      by (simp add: virtio_init_def init_vdev_block_def new_block_device_def init_vdev_common_def mandatory_feature_def
          VIRTIO_SUBSYSTEM_CONSOLE_def VIRTIO_SUBSYSTEM_BLOCK_def)
  qed
  let ?pd = "pd\<lparr>dev_addr := a, dev_driver := at_pci_driver e\<rparr>" and ?w = "with_device a d (s1, t1) w"
  have found: "driver_data ?w a = Some d" by (simp add: with_device_def)
  have off: "offers (ve_hw e) (iobase (vdev_of d)) fs" using assms(3) init(2) by simp
  let ?t2 = "virtio_add_status (ve_hw e) (iobase (vdev_of d)) VIRTIO_STATUS_DRI
    (virtio_add_status (ve_hw e) (iobase (vdev_of d)) VIRTIO_STATUS_ACK (wtrace ?w))"
  obtain f t4 where f: "call e d vd_probe_features = Ret f" "f d fs (?t2 @ [io_event.Inl (ucast (iobase (vdev_of d))) fs]) = Ret (bit fs n, t4)"
    "\<forall>port. status_of port t4 = status_of port (?t2 @ [io_event.Inl (ucast (iobase (vdev_of d))) fs])"
    by (rule features_answer [OF init(3) off, where t = "?t2 @ [io_event.Inl (ucast (iobase (vdev_of d))) fs]"])
  have get: "virtio_get_features (ve_hw e) (vdev_of d) t = (fs, t @ [io_event.Inl (ucast (iobase (vdev_of d))) fs])" for t
    using off by (simp add: virtio_get_features_def virtio_header_get_dword_def inl_def offers_def)
  obtain t5 where probe: "virtio_probe e ?pd ?w = Ret (False, ?pd, ?w\<lparr>wtrace := t5\<rparr>)"
    using f assms(4) by (simp add: virtio_probe_def pdev_to_vdev_def found Let_def get)
  have none: "call e d vd_remove = Trap Null_deref"
    by (simp add: call_def driver_at_def virtio_console_driver_def virtio_block_driver_def)
  have "virtio_remove e ?pd (?w\<lparr>wtrace := t5\<rparr>) = Trap Null_deref"
    by (simp add: virtio_remove_def pdev_to_vdev_def found none)
  then show ?thesis
    using init(1) probe by (simp add: driver_try_setup_def virtio_pci_driver_def virtio_match_def)
qed

section \<open>Examples\<close>

text \<open>A block device at port 0xC100 that offers BLK_SIZE and keeps its status.\<close>

definition block_hw :: "u32 \<Rightarrow> hw" where
  "block_hw fs = \<lparr>port_in = (\<lambda>t port. if port = 0xC112 then ucast (status_of 0xC112 t) else if port = 0xC100 then fs else 0),
     mmio_in = (\<lambda>_ _. 0)\<rparr>"

definition virtio_example :: "hw \<Rightarrow> virtio_env" where
  "virtio_example hw = \<lparr>bus_env = \<lparr>env_lz = bsr, env_hw = hw, env_pd = 0, env_stub = 0, env_irq_handler = 0, env_frame = 0\<rparr>,
     ve_locals = some_locals, at_console_driver = 0xC0200000, at_block_driver = 0xC0200010, at_pci_driver = 0xC0200020\<rparr>"

definition block_device :: vcontainer where
  "block_device = Block_dev (some_block\<lparr>bdev_vdev := (bdev_vdev some_block)\<lparr>vdev_driver := 0xC0200010\<rparr>\<rparr>)"

definition block_pdev :: pci_dev where
  "block_pdev = (zero_dev 0x2050)\<lparr>subsystem_id := 2,
     resources := (\<lambda>_. \<lparr>res_type = RESOURCE_IO, res_start = 0xC100, res_end = 0xC140\<rparr>)\<rparr>"

definition virtio_world :: vworld where
  "virtio_world = \<lparr>heap = one_node, wtrace = [], widt = boot_idts, global_bus = Pci_bus 0 [] [], bus_device_nodes = [],
     bus_driver_nodes = [], driver_data = [0x2050 \<mapsto> block_device]\<rparr>"

lemma block_example:
  "driver_data virtio_world (dev_addr block_pdev) = Some block_device" "iobase (vdev_of block_device) = 0xC100"
  "keeps_status (block_hw fs) 0xC100" "offers (block_hw fs) 0xC100 fs"
  "mandatory_feature (virtio_example (block_hw fs)) block_device 6" "ve_hw (virtio_example (block_hw fs)) = block_hw fs"
  "pci_dev_get_iobase block_pdev = 0xC100"
proof -
  have "(ucast (ucast x :: u32) :: u8) = x" for x :: u8
    by (rule bit_word_eqI) (auto simp: bit_simps)
  then show "keeps_status (block_hw fs) 0xC100" by (simp add: keeps_status_def block_hw_def)
  show "pci_dev_get_iobase block_pdev = 0xC100"
    by (simp add: pci_dev_get_iobase_def block_pdev_def pci_resource_get_base_def RESOURCE_IO_def upt_conv_Cons)
qed (simp_all add: virtio_world_def block_pdev_def zero_dev_def block_device_def some_block_def block_hw_def
    offers_def mandatory_feature_def virtio_example_def VIRTIO_BLK_F_BLK_SIZE_def)

theorem probe_handshake_witness:
  "\<exists>w'. virtio_probe (virtio_example (block_hw 0x40)) block_pdev virtio_world = Ret (True, block_pdev, w') \<and>
     status_of 0xC112 (wtrace w') = 3"
proof -
  have "bit (0x40 :: u32) 6" by simp
  moreover have "status_of 0xC112 (wtrace virtio_world) = 0" by (simp add: virtio_world_def status_of_def)
  ultimately show ?thesis
    using probe_handshake [OF block_example(1), where e = "virtio_example (block_hw 0x40)" and fs = "0x40" and n = 6] block_example
    by auto
qed

theorem rejected_device_faults_witness:
  "driver_try_setup (bus_env (virtio_example (block_hw 0))) (virtio_pci_driver (virtio_example (block_hw 0))) block_pdev virtio_world =
     Trap Null_deref"
proof -
  have run: "free_run (tbit (smem one_node) (0x2000 + 8)) 0 30"
  proof -
    have "\<not> tbit (smem one_node) (0x2000 + 8) k" if "k < 30" for k
    proof -
      have "k div 8 < 4" using that by simp
      then have "k div 8 = 0 \<or> k div 8 = 1 \<or> k div 8 = 2 \<or> k div 8 = 3" by linarith
      then show ?thesis by (auto simp: tbit_def one_node_def st32_apply)
    qed
    then show ?thesis by (simp add: free_run_def)
  qed
  obtain m where "kmalloc bsr 232 one_node = Ret (one_node\<lparr>smem := m\<rparr>, 0x2050)"
    using small_block [where sz = 232 and s = one_node and node = "0x2000" and b = 0 and lz = bsr] one_node(1,2) run by auto
  then have "kzmalloc (ve_lz (virtio_example (block_hw 0))) 232 (heap virtio_world) = Ret (one_node\<lparr>smem := memset m 0x2050 0 232\<rparr>, 0x2050)"
    by (simp add: kzmalloc_def kmalloc_def virtio_example_def virtio_world_def)
  moreover have "subsystem_id block_pdev = VIRTIO_SUBSYSTEM_BLOCK"
    by (simp add: block_pdev_def VIRTIO_SUBSYSTEM_BLOCK_def)
  moreover have "at_block_driver (virtio_example hw) \<noteq> at_console_driver (virtio_example hw)" for hw
    by (simp add: virtio_example_def)
  ultimately show ?thesis
    by (intro rejected_device_faults [where sz = 232 and n = VIRTIO_BLK_F_BLK_SIZE and fs = 0])
      (simp_all add: block_example)
qed

end
