(* ===== verification/Sleep.thy ===== *)
theory Sleep
  imports Interrupts
begin

text \<open>
  sleep of kernel/timer.c: a timer is started and the CPU is halted until its callback has set the
  flag. What ends a halt is an interrupt; the n-th halt of a call is ended by vector irq n, whose
  handler runs before halt returns. timer_print_list, which the kernel compiles but does not call,
  is here as well.
\<close>

section \<open>timer_print_list\<close>

partial_function (option) timer_print_loop ::
    "(u32 \<Rightarrow> u32) \<Rightarrow> hw \<Rightarrow> (addr \<Rightarrow> u32) \<Rightarrow> snodes \<Rightarrow> addr \<Rightarrow> console \<Rightarrow> console run" where
  "timer_print_loop lz hw t nx it c =
     (if it = NULL then Ret c
      else run_bind (kprint hw lz ''timer: %08X -> '' [t (tle_of it)] c) (timer_print_loop lz hw t nx (nx it)))"

definition timer_print_list :: "(u32 \<Rightarrow> u32) \<Rightarrow> hw \<Rightarrow> kernel \<Rightarrow> kernel run" where
  "timer_print_list lz hw k =
     run_bind (timer_print_loop lz hw (timer (tmr k)) (node_next (tmr k)) (slist_head (tmr k)) (con k)) (\<lambda>c.
       run_bind (kprint hw lz ''NULL\<newline>'' [] c) (\<lambda>c. Ret (k\<lparr>con := c\<rparr>)))"

primrec print_times :: "(u32 \<Rightarrow> u32) \<Rightarrow> hw \<Rightarrow> u32 list \<Rightarrow> console \<Rightarrow> console run" where
  "print_times lz hw [] c = Ret c"
| "print_times lz hw (t # ts) c = run_bind (kprint hw lz ''timer: %08X -> '' [t] c) (print_times lz hw ts)"

lemma timer_print_loop_slist:
  "slist nx p (map node_of_entry es) \<Longrightarrow> timer_print_loop lz hw t nx p c = print_times lz hw (map t es) c"
proof (induction es arbitrary: p c)
  case (Cons e es)
  then show ?case by (subst timer_print_loop.simps) (auto intro!: run_bind_cong)
qed (subst timer_print_loop.simps, simp)

lemma timer_print_list_queued:
  "queued (tmr k) es \<Longrightarrow> timer_print_list lz hw k =
     run_bind (print_times lz hw (map (timer (tmr k)) es) (con k)) (\<lambda>c.
       run_bind (put_chars hw lz (chars ''NULL\<newline>'') c) (\<lambda>c. Ret (k\<lparr>con := c\<rparr>)))"
  by (simp add: timer_print_list_def timer_print_loop_slist queued_def kprint_plain plain_text_def chars_def)

section \<open>sleep\<close>



section \<open>What an expiry leaves in the flag\<close>









section \<open>Waiting\<close>














end
