(* ===== verification/Boot.thy ===== *)
theory Boot
  imports Cpu Sleep Apic Virtio
begin

text \<open>
  The start of the kernel: kernel/kmain.c, the table of init functions of kernel/kinit.c, and
  irq_install of kernel/arch/x86/irq.c. The state of the system is that of all components; they share
  one memory and one trace, those of sys_world, and every step is given them and hands them on.

  A message is an event of the trace, as in the component theories: what printing it does to the screen,
  to the serial line and to the CRT controller, and the pages a terminal that scrolls takes for its
  history, are not part of the model of the start, and neither are interrupts that arrive in its course.
\<close>

section \<open>State\<close>

datatype timer_source = Apic_timer | Pit_timer

record 'd system =
  sys_kernel :: kernel
  sys_source :: "timer_source option"
  sys_acpi :: acpi
  sys_apics :: apics
  sys_gdt :: gdt_table
  sys_gp :: gdt_ptr
  sys_world :: "'d pci_world"
  sys_drivers :: "'d pci_driver list"

definition sys_mem :: "'d system \<Rightarrow> mem" where
  "sys_mem s = smem (heap (sys_world s))"

definition sys_trace :: "'d system \<Rightarrow> trace" where
  "sys_trace s = wtrace (sys_world s)"

definition set_mem :: "mem \<Rightarrow> 'd system \<Rightarrow> 'd system" where
  "set_mem m s = s\<lparr>sys_world := (sys_world s)\<lparr>heap := (heap (sys_world s))\<lparr>smem := m\<rparr>\<rparr>\<rparr>"

definition set_trace :: "trace \<Rightarrow> 'd system \<Rightarrow> 'd system" where
  "set_trace t s = s\<lparr>sys_world := (sys_world s)\<lparr>wtrace := t\<rparr>\<rparr>"

definition with_trace :: "(trace \<Rightarrow> trace) \<Rightarrow> 'd system \<Rightarrow> 'd system" where
  "with_trace f s = set_trace (f (sys_trace s)) s"

definition say :: "string \<Rightarrow> u32 list \<Rightarrow> 'd system \<Rightarrow> 'd system" where
  "say f args = with_trace (\<lambda>t. t @ [Printk f args])"

text \<open>A step of a component, on the shared trace.\<close>

definition on_kernel :: "(kernel \<Rightarrow> kernel run) \<Rightarrow> 'd system \<Rightarrow> 'd system run" where
  "on_kernel f s =
     run_bind (f ((sys_kernel s)\<lparr>ktrace := sys_trace s\<rparr>)) (\<lambda>k. Ret (set_trace (ktrace k) (s\<lparr>sys_kernel := k\<rparr>)))"

definition on_apics :: "(apics \<Rightarrow> apics run) \<Rightarrow> 'd system \<Rightarrow> 'd system run" where
  "on_apics f s =
     run_bind (f ((sys_apics s)\<lparr>atrace := sys_trace s\<rparr>)) (\<lambda>a. Ret (set_trace (atrace a) (s\<lparr>sys_apics := a\<rparr>)))"

definition on_acpi :: "(acpi \<Rightarrow> acpi run) \<Rightarrow> 'd system \<Rightarrow> 'd system run" where
  "on_acpi f s =
     run_bind (f ((sys_acpi s)\<lparr>acpi_trace := sys_trace s\<rparr>)) (\<lambda>a. Ret (set_trace (acpi_trace a) (s\<lparr>sys_acpi := a\<rparr>)))"

definition on_idts :: "(idts \<Rightarrow> idts) \<Rightarrow> 'd system \<Rightarrow> 'd system" where
  "on_idts f s =
     (let i = f ((widt (sys_world s))\<lparr>idt_trace := sys_trace s\<rparr>)
      in set_trace (idt_trace i) (s\<lparr>sys_world := (sys_world s)\<lparr>widt := i\<rparr>\<rparr>))"

definition on_world :: "('d pci_world \<Rightarrow> 'd pci_world run) \<Rightarrow> 'd system \<Rightarrow> 'd system run" where
  "on_world f s = run_bind (f (sys_world s)) (\<lambda>w. Ret (s\<lparr>sys_world := w\<rparr>))"

text \<open>
  What kmain takes from its surroundings: that of the bus (the hardware and lzcnt among it), the CPU,
  addresses fixed by the linker (the stubs of int.asm, the tables, the literals find_rsdp and
  parse_madt_table compare with, the table of init functions, the symbols it prints), the address of
  its buffer, the functions behind the pointers of the table, and the registration of the bus.
\<close>

record 'd boot_env =
  be_pci :: pci_env
  be_cpu :: cpu
  be_isr :: "nat \<Rightarrow> u32"
  be_irq :: "nat \<Rightarrow> u32"
  be_irqTime :: u32
  be_gdt :: u32
  be_gp :: u32
  be_tss :: u32
  be_tss_size :: u32
  be_idt :: u32
  be_idtp :: u32
  be_rsdp_sig :: addr
  be_apic_sig :: addr
  be_core0 :: addr
  be_symbols :: "u32 list"
  be_ekernel :: u32
  be_buffer :: addr
  be_init :: "addr \<Rightarrow> 'd system \<Rightarrow> 'd system run"
  be_register_bus :: "'d pci_world \<Rightarrow> 'd pci_world run"

abbreviation be_lz :: "'d boot_env \<Rightarrow> u32 \<Rightarrow> u32" where "be_lz e \<equiv> env_lz (be_pci e)"
abbreviation be_hw :: "'d boot_env \<Rightarrow> hw" where "be_hw e \<equiv> env_hw (be_pci e)"

section \<open>irq_install and the timers\<close>

definition irq_install :: "'d boot_env \<Rightarrow> 'd system \<Rightarrow> 'd system" where
  "irq_install e s =
     (let s1 = say ''Remaping irqs to 32 and 40\<newline>'' [] s;
          s2 = with_trace (irq_remap (be_hw e) 32 40) s1;
          s3 = say ''Setting irq idt entries\<newline>'' [] s2;
          s4 = on_idts (set_irq_gates (be_irq e) (be_irqTime e)) s3;
          s5 = say ''Enabling interupts\<newline>'' [] s4
      in with_trace enable_interrupts s5)"

text \<open>timer_init with the functions of the hardware timer it is given.\<close>

definition start_timers :: "(u32 \<Rightarrow> u32) \<Rightarrow> u32 \<Rightarrow> timer_source \<Rightarrow> 'd system \<Rightarrow> 'd system run" where
  "start_timers lz irq src s =
     run_bind (timer_init lz irq ((tmr (sys_kernel s))\<lparr>pages_mem := sys_mem s\<rparr>)) (\<lambda>ts.
       on_kernel (irq_set_handler (ucast irq) Timer_handler)
         (set_mem (pages_mem ts) (s\<lparr>sys_kernel := (sys_kernel s)\<lparr>tmr := ts\<rparr>, sys_source := Some src\<rparr>)))"

section \<open>kinit_core0\<close>

text \<open>The table: the number of entries, then the entries. Entries are read as the loop reaches them.\<close>

primrec kinit_loop :: "(addr \<Rightarrow> 'd system \<Rightarrow> 'd system run) \<Rightarrow> addr \<Rightarrow> nat list \<Rightarrow> 'd system \<Rightarrow> 'd system run" where
  "kinit_loop f core_list [] s = Ret s"
| "kinit_loop f core_list (i # is) s =
     (let fptr = ld32 (sys_mem s) (core_list + 4 * of_nat i)
      in run_bind (if fptr \<noteq> NULL then f fptr s else Ret s) (kinit_loop f core_list is))"

definition kinit_core0 :: "(addr \<Rightarrow> 'd system \<Rightarrow> 'd system run) \<Rightarrow> addr \<Rightarrow> 'd system \<Rightarrow> 'd system run" where
  "kinit_core0 f init_core0_s s =
     (let core0_size = ld32 (sys_mem s) init_core0_s; core_list = init_core0_s + 4
      in kinit_loop f core_list [0..<unat core0_size] s)"

section \<open>kmain\<close>

definition MULTIBOOT_BOOTLOADER_MAGIC :: u32 where "MULTIBOOT_BOOTLOADER_MAGIC = 0x2BADB002"

text \<open>
  With a wrong magic number a message is printed and the CPU halted. __start.asm calls kmain with the
  interrupts disabled, so that hlt is the end.
\<close>

definition on_console :: "(console \<Rightarrow> console) \<Rightarrow> 'd system \<Rightarrow> 'd system" where
  "on_console f s =
     (let c = f ((con (sys_kernel s))\<lparr>ctrace := sys_trace s\<rparr>)
      in set_trace (ctrace c) (s\<lparr>sys_kernel := (sys_kernel s)\<lparr>con := c\<rparr>\<rparr>))"

definition start_console :: "u32 \<Rightarrow> 'd system \<Rightarrow> 'd system run" where
  "start_console mboot_magic s =
     (let s1 = say ''Init done\<newline>'' [] (on_console terminal_init s);
          s2 = on_console (upd_state (\<lambda>c. c\<lparr>output_to_serial := 1\<rparr>)) (with_trace init_serial s1)
      in if mboot_magic \<noteq> MULTIBOOT_BOOTLOADER_MAGIC then Trap Halted else Ret s2)"

definition start_tables :: "'d boot_env \<Rightarrow> 'd system \<Rightarrow> 'd system run" where
  "start_tables e s =
     run_bind (page_init (be_lz e) (be_ekernel e) (sys_mem s, sys_trace s)) (\<lambda>(m, t).
       let s1 = set_trace t (set_mem m s);
           (gdt, gp, t1) = gdt_install (be_gdt e) (be_gp e) (be_tss e) (be_tss_size e) (sys_gdt s1, sys_trace s1);
           s2 = set_trace t1 (s1\<lparr>sys_gdt := gdt, sys_gp := gp\<rparr>)
       in run_bind (idt_install (be_lz e) (be_isr e) (be_idt e) (be_idtp e) (sys_mem s2)
            ((widt (sys_world s2))\<lparr>idt_trace := sys_trace s2\<rparr>)) (\<lambda>(m1, i).
         let s3 = set_trace (idt_trace i) (set_mem m1 (s2\<lparr>sys_world := (sys_world s2)\<lparr>widt := i\<rparr>\<rparr>))
         in run_bind (on_acpi (find_rsdp (sys_mem s3) (be_rsdp_sig e)) s3) (\<lambda>s4.
           let s5 = with_trace pit_init (say ''Initializing pit.\<newline>'' [] s4)
           in Ret (irq_install e (say ''Initializing irq.\<newline>'' [] s5)))))"

definition start_interrupts :: "'d boot_env \<Rightarrow> 'd system \<Rightarrow> 'd system run" where
  "start_interrupts e s =
     (let (eax, ebx, ecx, edx) = cpuid (be_cpu e) CPUID_GET_FEATURES
      in run_bind
        (if edx AND CPUID_FEAT_EDX_APIC \<noteq> 0 then
           run_bind (on_apics (apic_enable (be_hw e) (sys_mem s) (be_apic_sig e) (sys_acpi s))
             (say ''Enabling apic at 0x%08X\<newline>'' [APIC_LOCATION] s)) (\<lambda>s1.
           let s2 = with_trace (\<lambda>t. set_interrupt_masks 0xFE 0xFE (snd (get_interrupt_masks (be_hw e) t))) s1
           in run_bind (on_apics (apic_init_timer (be_hw e)) s2) (\<lambda>s3.
             run_bind (start_timers (be_lz e) 16 Apic_timer s3) (\<lambda>s4.
               on_kernel init_pit_system_timer (say ''Changing pit to system timer (100us) tics\<newline>'' [] s4))))
         else start_timers (be_lz e) 0 Pit_timer s)
        (on_kernel (keyboard_install 0)))"

text \<open>The last loop allocates 0, 1, ..., 1023 bytes and keeps none of the addresses.\<close>

primrec final_allocations :: "(u32 \<Rightarrow> u32) \<Rightarrow> nat list \<Rightarrow> slabs \<Rightarrow> slabs run" where
  "final_allocations lz [] h = Ret h"
| "final_allocations lz (i # is) h = run_bind (kzmalloc lz (of_nat i) h) (\<lambda>(h1, _). final_allocations lz is h1)"

definition start_devices :: "'d boot_env \<Rightarrow> 'd system \<Rightarrow> 'd system run" where
  "start_devices e s =
     (let sym = (\<lambda>i. be_symbols e ! i);
          s1 = say ''\<newline>'' [] s;
          s2 = say ''read only data [0x%8X, 0x%8X]\<newline>'' [sym 0, sym 1] s1;
          s3 = say ''data           [0x%8X, 0x%8X]\<newline>'' [sym 2, sym 3] s2;
          s4 = say ''bss            [0x%8X, 0x%8X]\<newline>'' [sym 4, sym 5] s3;
          s5 = say ''end of kernel  0x%8X\<newline>'' [be_ekernel e] s4;
          s6 = say ''\<newline>'' [] s5;
          s7 = set_mem ((sys_mem s6)(be_buffer e + 16 := 0)) s6;
          s8 = set_mem (cpuid_string (be_cpu e) CPUID_GET_VENDOR (be_buffer e) (sys_mem s7)) s7;
          s9 = say ''CPU vendor: %s\<newline>'' [be_buffer e + 4] s8
      in run_bind (on_world (pci_init (be_lz e) (be_register_bus e)) s9) (\<lambda>s10.
           run_bind (kinit_core0 (be_init e) (be_core0 e) s10) (\<lambda>s11.
             run_bind (on_world (pci_enum (be_pci e) (sys_drivers s11)) s11)
               (on_world (\<lambda>w. run_bind (final_allocations (be_lz e) [0..<1024] (heap w)) (\<lambda>h. Ret (w\<lparr>heap := h\<rparr>)))))))"

definition kmain :: "'d boot_env \<Rightarrow> u32 \<Rightarrow> 'd system \<Rightarrow> 'd system run" where
  "kmain e mboot_magic s =
     run_bind (start_console mboot_magic s) (\<lambda>s0.
       run_bind (start_tables e s0) (\<lambda>s1.
         run_bind (start_interrupts e s1) (start_devices e)))"

section \<open>What the start keeps\<close>

lemma sys_simps [simp]:
  "sys_mem (set_trace t s) = sys_mem s" "sys_trace (set_trace t s) = t"
  "sys_mem (set_mem m s) = m" "sys_trace (set_mem m s) = sys_trace s"
  "sys_kernel (set_mem m s) = sys_kernel s" "sys_kernel (set_trace t s) = sys_kernel s"
  "sys_source (set_mem m s) = sys_source s" "sys_source (set_trace t s) = sys_source s"
  "sys_acpi (set_mem m s) = sys_acpi s" "sys_acpi (set_trace t s) = sys_acpi s"
  "sys_apics (set_mem m s) = sys_apics s" "sys_apics (set_trace t s) = sys_apics s"
  by (simp_all add: set_mem_def set_trace_def sys_mem_def sys_trace_def)

lemma trace_steps [simp]:
  "sys_trace (with_trace f s) = f (sys_trace s)" "sys_mem (with_trace f s) = sys_mem s"
  "sys_kernel (with_trace f s) = sys_kernel s" "sys_acpi (with_trace f s) = sys_acpi s"
  "sys_trace (say g as s) = sys_trace s @ [Printk g as]" "sys_mem (say g as s) = sys_mem s"
  "sys_kernel (say g as s) = sys_kernel s" "sys_acpi (say g as s) = sys_acpi s"
  by (simp_all add: with_trace_def say_def)

lemma idts_steps [simp]:
  "sys_mem (on_idts f s) = sys_mem s" "sys_kernel (on_idts f s) = sys_kernel s" "sys_acpi (on_idts f s) = sys_acpi s"
  "sys_trace (on_idts f s) = idt_trace (f ((widt (sys_world s))\<lparr>idt_trace := sys_trace s\<rparr>))"
  by (simp_all add: on_idts_def Let_def, simp_all add: sys_mem_def)

text \<open>A page from the allocator while there are free ones.\<close>

definition pages_left :: "nat \<Rightarrow> mem \<Rightarrow> bool" where
  "pages_left n m \<longleftrightarrow> buddy_ok m \<and> unat (buddy_count m) = 16 \<and> finite (used_pages m) \<and> card (used_pages m) + n \<le> 32768"

lemma kept_refl [simp]: "kept ek m m"
  by (simp add: kept_def)

lemma kept_trans: "kept ek m m1 \<Longrightarrow> kept ek m1 m2 \<Longrightarrow> kept ek m m2"
  by (simp add: kept_def)

lemma page_from_kalloc:
  assumes lz: "is_bsr lz" and m: "pages_left (Suc n) m"
  shows "\<exists>m' a. kalloc lz m 1 = Ret (m', a) \<and> pages_left n m' \<and> kept ek m m' \<and> 16777216 \<le> unat a \<and> unat a < 150994944"
proof -
  have fin: "finite (used_pages m)" "card (used_pages m) < 32768" and ok: "buddy_ok m" "unat (buddy_count m) = 16"
    using m by (auto simp: pages_left_def)
  have "\<exists>p. p < 32768 \<and> p \<notin> used_pages m"
  proof (rule ccontr)
    assume "\<not> ?thesis"
    then have "{..<32768} \<subseteq> used_pages m" by auto
    then have "card {..<32768::nat} \<le> card (used_pages m)" by (rule card_mono [OF fin(1)])
    then show False using fin(2) by simp
  qed
  then obtain q where "q < 32768" "q \<notin> used_pages m" by blast
  then obtain m' a where a: "kalloc lz m 1 = Ret (m', a)" "allocated m m' a 1"
    using kalloc_one [OF lz ok(1)] ok(2) by auto
  then obtain p where p: "unat a = page_addr p" "p < 32768" "p \<notin> used_pages m" "used_pages m' = insert p (used_pages m)"
    using ok(2) by (auto simp: allocated_def)
  have "pages_left n m'" using a(2) m p by (simp add: pages_left_def allocated_def)
  moreover have "kept ek m m'" using a(2) ok(2) by (auto simp: kept_def allocated_def outside_trees_def)
  ultimately show ?thesis using a(1) p(1,2) by (auto simp: page_addr_def)
qed

section \<open>Finding the tables of the firmware\<close>

text \<open>The literal sig of n bytes lies in the image of the kernel.\<close>

definition in_image :: "u32 \<Rightarrow> addr \<Rightarrow> nat \<Rightarrow> bool" where
  "in_image ek a n \<longleftrightarrow> 0xC0000000 \<le> unat a \<and> unat a + n \<le> unat ek"

text \<open>The n bytes from a on lie below 16 MB, where page_init puts nothing.\<close>

definition in_low :: "u32 \<Rightarrow> addr \<Rightarrow> nat \<Rightarrow> bool" where
  "in_low ek a n \<longleftrightarrow> unat a + n \<le> 16777216 \<and>
     (unat a + n \<le> table_low ek \<or> table_low ek + 0x401000 \<le> unat a)"

lemma in_low_part: "in_low ek a n \<Longrightarrow> k \<le> n \<Longrightarrow> in_low ek a k"
  by (auto simp: in_low_def)

lemma kept_byte:
  assumes "kept ek m m'" and "in_low ek a n \<or> in_image ek a n" and "i < n"
  shows "m' (a + of_nat i) = m (a + of_nat i)"
proof -
  have unat_less_size: "unat ek < 2 ^ 32" using unsigned_less [of ek] by simp
  have "unat a + i < 2 ^ 32" using assms(2,3) unat_less_size by (auto simp: in_low_def in_image_def)
  then have u: "unat (a + of_nat i) = unat a + i" by (rule unat_add_of_nat)
  have "unat a + i < 16777216 \<and> unat a + i \<notin> table_alias ek \<or> 0xC0000000 \<le> unat a + i \<and> unat a + i < unat ek"
    using assms(2)
  proof
    assume "in_low ek a n"
    then show ?thesis using assms(3) by (auto simp: in_low_def table_alias_def)
  qed (use assms(3) in \<open>simp add: in_image_def\<close>)
  then show ?thesis using assms(1) unfolding kept_def by (simp only: u)
qed

lemma kept_strncmp:
  assumes "kept ek m m'" and "in_low ek a (unat n) \<or> in_image ek a (unat n)" and "in_image ek sig (unat n)" and "n \<noteq> 0"
  shows "strncmp m' a sig n = 0 \<longleftrightarrow> strncmp m a sig n = 0"
  using assms kept_byte [OF assms(1,2)] kept_byte [OF assms(1) disjI2 [OF assms(3)]]
  by (simp add: strncmp_zero_iff)

lemma kept_byte_sum: "kept ek m m' \<Longrightarrow> in_low ek p n \<Longrightarrow> byte_sum m' p n = byte_sum m p n"
  unfolding byte_sum_def using kept_byte [of ek m m' p n] by (intro fold_cong) auto

lemma kept_ld32: "kept ek m m' \<Longrightarrow> in_low ek p 4 \<Longrightarrow> ld32 m' p = ld32 m p"
  using kept_byte [of ek m m' p 4] by (intro ld32_frame) auto

lemma in_low_field:
  assumes "in_low ek a (k + 4)"
  shows "in_low ek (a + of_nat k) 4"
proof -
  have "unat (a + of_nat k) = unat a + k" using assms by (intro unat_add_of_nat) (simp add: in_low_def)
  then show ?thesis using assms by (auto simp: in_low_def)
qed

text \<open>The image of the kernel starts at 1 MB, behind the addresses find_rsdp looks at.\<close>

definition image_ends :: "u32 \<Rightarrow> bool" where
  "image_ends ek \<longleftrightarrow> 0xC0100000 \<le> unat ek \<and> unat ek < 0xC03FF000"

lemma table_low_from:
  assumes "image_ends ek"
  shows "0x101000 \<le> table_low ek"
proof -
  have "unat (page_directory_of ek) = (unat ek + 4096) div 4096 * 4096"
    using assms by (intro page_directory_of) (simp add: image_ends_def)
  moreover have "786689 \<le> (unat ek + 4096) div 4096"
    using div_le_mono [of "786689 * 4096" "unat ek + 4096" 4096] assms by (simp add: image_ends_def)
  ultimately show ?thesis by (simp add: table_low_def)
qed

lemma scan_low: "image_ends ek \<Longrightarrow> p \<in> set scan_addresses \<Longrightarrow> in_low ek p 20"
proof -
  assume ek: "image_ends ek" and "p \<in> set scan_addresses"
  then obtain i where i: "i < 8192" "p = 0xE0000 + of_nat (16 * i)" by (auto simp: scan_addresses_def)
  then have "unat p = 0xE0000 + 16 * i" unfolding i(2) by (subst unat_add_of_nat) auto
  then show ?thesis using i table_low_from [OF ek] by (simp add: in_low_def)
qed

lemma kept_rsdp:
  assumes "kept ek m m'" and "image_ends ek" and "p \<in> set scan_addresses" and "in_image ek sig 8"
  shows "rsdp_at m' sig p \<longleftrightarrow> rsdp_at m sig p"
proof -
  have low: "in_low ek p 20" by (rule scan_low [OF assms(2,3)])
  then have "in_low ek p 8" by (rule in_low_part) simp
  then show ?thesis
    using kept_strncmp [OF assms(1), of p 8 sig] kept_byte_sum [OF assms(1) low] assms(4) by (simp add: rsdp_at_def)
qed

definition sdt_valid :: "mem \<Rightarrow> addr \<Rightarrow> bool" where
  "sdt_valid m rsdt \<longleftrightarrow> byte_sum m rsdt (unat (ld32 m (rsdt + 4))) AND 0xFF = 0"

lemma kept_sdt:
  assumes "kept ek m m'" and "in_low ek rsdt (unat (ld32 m (rsdt + 4)))" and "in_low ek rsdt 8"
  shows "sdt_valid m' rsdt \<longleftrightarrow> sdt_valid m rsdt"
proof -
  have "in_low ek rsdt (4 + 4)" using assms(3) by simp
  from kept_ld32 [OF assms(1) in_low_field [OF this]] have "ld32 m' (rsdt + 4) = ld32 m (rsdt + 4)" by simp
  then show ?thesis using kept_byte_sum [OF assms(1,2)] by (simp add: sdt_valid_def)
qed

lemma find_rsdp_found:
  assumes "find (rsdp_at m sig) scan_addresses = Some p" and "sdt_valid m (ld32 m (p + 16))"
  shows "\<exists>t. find_rsdp m sig s = Ret \<lparr>rsdp_base = p, sdt_table_header = ld32 m (p + 16), acpi_trace = t\<rparr> \<and>
    device_trace t = device_trace (acpi_trace s)"
proof -
  have "p \<in> set scan_addresses" using assms by (auto simp: find_Some_iff)
  then obtain i where "i < 8192" "p = 0xE0000 + of_nat (16 * i)" by (auto simp: scan_addresses_def)
  then have "unat p = 0xE0000 + 16 * i" by (simp only:) (subst unat_add_of_nat, auto)
  then have "p \<noteq> NULL" by auto
  then show ?thesis using assms by (cases s) (simp add: find_rsdp_def Let_def sdt_valid_def)
qed

section \<open>The tables\<close>

lemma device_trace_events [simp]:
  "device_trace [Lgdt a] = [Lgdt a]" "device_trace [Lidt a] = [Lidt a]" "device_trace (Lidt a # t) = Lidt a # device_trace t"
  "device_trace (Lgdt a # t) = Lgdt a # device_trace t" "device_trace (Load_cr3 a # t) = Load_cr3 a # device_trace t"
  "device_trace (Outb p b # t) = Outb p b # device_trace t" "device_trace (Inb p b # t) = Inb p b # device_trace t"
  "device_trace (Hlt # t) = Hlt # device_trace t" "device_trace (Sti # t) = Sti # device_trace t"
  by (simp_all add: device_trace_def)

lemma gdt_install_trace:
  "gdt_install g gp a n (gdt, t) = (gdt', gp', t') \<Longrightarrow> device_trace t' = device_trace t @ [Lgdt gp]"
  by (auto simp: gdt_install_def gdt_set_gate_def Let_def)

lemma idt_set_gate_trace: "device_trace (idt_trace (idt_set_gate n b sl fl s)) = device_trace (idt_trace s)"
  by (simp add: idt_set_gate_def)

lemma idt_set_gates_trace:
  "device_trace (idt_trace (fold (\<lambda>n. idt_set_gate (f n) (g n) sl fl) ns s)) = device_trace (idt_trace s)"
  by (induction ns arbitrary: s) (simp_all add: idt_set_gate_trace)

lemma set_irq_gates_trace: "device_trace (idt_trace (set_irq_gates irq irqTime s)) = device_trace (idt_trace s)"
  by (simp add: set_irq_gates_def idt_set_gate_trace idt_set_gates_trace)

lemma idt_install_returns:
  assumes "is_bsr lz" and "pages_left (Suc n) m"
  shows "\<exists>m' i. idt_install lz isr a p m s = Ret (m', i) \<and> pages_left n m' \<and> kept ek m m' \<and>
    device_trace (idt_trace i) = device_trace (idt_trace s) @ [Lidt p]"
  using page_from_kalloc [OF assms, of ek]
  by (auto simp: idt_install_def Let_def idt_set_gates_trace)

definition pic_remap :: "u8 \<Rightarrow> u8 \<Rightarrow> trace" where
  "pic_remap m1 m2 = [Inb PIC1_DAT m1, Inb PIC2_DAT m2, Outb PIC1_CMD 0x11, Outb PIC2_CMD 0x11, Outb PIC1_DAT 32,
     Outb PIC2_DAT 40, Outb PIC1_DAT 4, Outb PIC2_DAT 2, Outb PIC1_DAT 1, Outb PIC2_DAT 1, Outb PIC1_DAT m1, Outb PIC2_DAT m2]"

lemma irq_remap_trace: "\<exists>m1 m2. irq_remap hw 32 40 t = t @ pic_remap m1 m2"
  by (auto simp: irq_remap_def inb_def Let_def pic_remap_def)

definition pit_reset :: trace where
  "pit_reset = [Outb PIT_MODE_COM 0x32, Outb PIT_CHANNEL_0 0, Outb PIT_CHANNEL_0 0]"

lemma pit_init_trace: "pit_init t = t @ pit_reset"
  by (simp add: pit_init_def pit_reset_def PIT_SEG_CHN_def PIT_SEG_ACC_def)

lemma irq_install_keeps [simp]:
  "sys_mem (irq_install e s) = sys_mem s" "sys_kernel (irq_install e s) = sys_kernel s" "sys_acpi (irq_install e s) = sys_acpi s"
  by (simp_all add: irq_install_def)

lemma irq_install_trace:
  "\<exists>m1 m2. device_trace (sys_trace (irq_install e s)) = device_trace (sys_trace s) @ pic_remap m1 m2 @ [Sti]"
proof -
  obtain m1 m2 where r: "irq_remap (be_hw e) 32 40 (sys_trace s @ [Printk ''Remaping irqs to 32 and 40\<newline>'' []]) =
      (sys_trace s @ [Printk ''Remaping irqs to 32 and 40\<newline>'' []]) @ pic_remap m1 m2"
    using irq_remap_trace by blast
  show ?thesis
    by (intro exI [of _ m1] exI [of _ m2])
      (simp add: irq_install_def set_irq_gates_trace enable_interrupts_def r pic_remap_def)
qed

definition cpu_tables :: "'d boot_env \<Rightarrow> trace" where
  "cpu_tables e = [Load_cr3 (page_directory_of (be_ekernel e) - KERNEL_VIRTUAL_BASE), Lgdt (be_gp e), Lidt (be_idtp e)]"

lemma start_tables_returns:
  assumes lz: "is_bsr (be_lz e)" and ek: "image_ends (be_ekernel e)"
    and sig: "in_image (be_ekernel e) (be_rsdp_sig e) 8"
    and p: "find (rsdp_at (sys_mem s) (be_rsdp_sig e)) scan_addresses = Some p"
    and sdt: "sdt_valid (sys_mem s) (ld32 (sys_mem s) (p + 16))"
      "in_low (be_ekernel e) (ld32 (sys_mem s) (p + 16)) (unat (ld32 (sys_mem s) (ld32 (sys_mem s) (p + 16) + 4)))"
      "in_low (be_ekernel e) (ld32 (sys_mem s) (p + 16)) 8"
  shows "\<exists>s1 m1 m2. start_tables e s = Ret s1 \<and> pages_left 1 (sys_mem s1) \<and> kept (be_ekernel e) (sys_mem s) (sys_mem s1) \<and>
    sys_kernel s1 = sys_kernel s \<and> sdt_table_header (sys_acpi s1) = ld32 (sys_mem s) (p + 16) \<and>
    device_trace (sys_trace s1) = device_trace (sys_trace s) @ cpu_tables e @ pit_reset @ pic_remap m1 m2 @ [Sti]"
proof -
  obtain m where m: "page_init (be_lz e) (be_ekernel e) (sys_mem s, sys_trace s) = Ret (m, sys_trace s @ page_init_messages (be_ekernel e))"
      "buddy_ok m" "unat (buddy_count m) = 16" "used_pages m = {0..<4}" "kept (be_ekernel e) (sys_mem s) m"
    using page_init_sound [OF lz] ek unfolding image_ends_def by force
  then have pl: "pages_left (Suc 1) m" by (simp add: pages_left_def)
  let ?s1 = "set_trace (sys_trace s @ page_init_messages (be_ekernel e)) (set_mem m s)"
  obtain gdt gp t1 where g: "gdt_install (be_gdt e) (be_gp e) (be_tss e) (be_tss_size e) (sys_gdt ?s1, sys_trace ?s1) = (gdt, gp, t1)"
    by (metis prod_cases3)
  let ?s2 = "set_trace t1 (?s1\<lparr>sys_gdt := gdt, sys_gp := gp\<rparr>)"
  have s2: "sys_mem ?s2 = m" "sys_trace ?s2 = t1" by (simp_all add: sys_mem_def set_trace_def set_mem_def sys_trace_def)
  obtain m' i where i: "idt_install (be_lz e) (be_isr e) (be_idt e) (be_idtp e) m ((widt (sys_world ?s2))\<lparr>idt_trace := t1\<rparr>) = Ret (m', i)"
      "pages_left 1 m'" "kept (be_ekernel e) m m'" "device_trace (idt_trace i) = device_trace t1 @ [Lidt (be_idtp e)]"
    using idt_install_returns [OF lz pl, where isr = "be_isr e" and a = "be_idt e" and p = "be_idtp e" and ek = "be_ekernel e"
      and s = "(widt (sys_world ?s2))\<lparr>idt_trace := t1\<rparr>"] by auto
  have kept: "kept (be_ekernel e) (sys_mem s) m'" using m(5) i(3) by (rule kept_trans)
  let ?s3 = "set_trace (idt_trace i) (set_mem m' (?s2\<lparr>sys_world := (sys_world ?s2)\<lparr>widt := i\<rparr>\<rparr>))"
  have s3: "sys_mem ?s3 = m'" "sys_trace ?s3 = idt_trace i" "sys_kernel ?s3 = sys_kernel s"
    by (simp_all add: set_trace_def set_mem_def sys_mem_def sys_trace_def)
  have found: "find (rsdp_at m' (be_rsdp_sig e)) scan_addresses = Some p"
    using p kept_rsdp [OF kept ek _ sig] by (metis (no_types, lifting) find_cong)
  have "p \<in> set scan_addresses" using p by (auto simp: find_Some_iff)
  then have "in_low (be_ekernel e) p (16 + 4)" using scan_low [OF ek] by simp
  from kept_ld32 [OF kept in_low_field [OF this]] have root: "ld32 m' (p + 16) = ld32 (sys_mem s) (p + 16)" by simp
  have valid: "sdt_valid m' (ld32 m' (p + 16))" unfolding root using kept_sdt [OF kept sdt(2,3)] sdt(1) by simp
  obtain t2 where t2: "find_rsdp m' (be_rsdp_sig e) ((sys_acpi ?s3)\<lparr>acpi_trace := sys_trace ?s3\<rparr>) =
        Ret \<lparr>rsdp_base = p, sdt_table_header = ld32 m' (p + 16), acpi_trace = t2\<rparr>"
      "device_trace t2 = device_trace (idt_trace i)"
    using find_rsdp_found [OF found valid, of "(sys_acpi ?s3)\<lparr>acpi_trace := sys_trace ?s3\<rparr>"] s3(2) by auto
  define s4 where "s4 = set_trace t2 (?s3\<lparr>sys_acpi := \<lparr>rsdp_base = p, sdt_table_header = ld32 m' (p + 16), acpi_trace = t2\<rparr>\<rparr>)"
  have s4: "on_acpi (find_rsdp (sys_mem ?s3) (be_rsdp_sig e)) ?s3 = Ret s4"
    unfolding on_acpi_def s3(1) t2(1) s4_def by simp
  have f4: "sys_mem s4 = m'" "sys_trace s4 = t2" "sys_kernel s4 = sys_kernel s"
      "sdt_table_header (sys_acpi s4) = ld32 (sys_mem s) (p + 16)"
    unfolding s4_def using s3 root by (simp_all add: sys_mem_def set_trace_def sys_trace_def)
  let ?s5 = "say ''Initializing irq.\<newline>'' [] (with_trace pit_init (say ''Initializing pit.\<newline>'' [] s4))"
  have run: "start_tables e s = Ret (irq_install e ?s5)"
    by (simp only: start_tables_def m(1) run_bind_simps prod.case Let_def g s2 i(1) s4)
  obtain m1 m2 where tr: "device_trace (sys_trace (irq_install e ?s5)) = device_trace (sys_trace ?s5) @ pic_remap m1 m2 @ [Sti]"
    using irq_install_trace by blast
  have "device_trace t1 = device_trace (sys_trace s) @ [Load_cr3 (page_directory_of (be_ekernel e) - KERNEL_VIRTUAL_BASE), Lgdt (be_gp e)]"
    using gdt_install_trace [OF g] by (simp add: page_init_messages_def Let_def)
  then have "device_trace t2 = device_trace (sys_trace s) @ cpu_tables e"
    using t2(2) i(4) by (auto simp: cpu_tables_def)
  then have "device_trace (sys_trace (irq_install e ?s5)) =
      device_trace (sys_trace s) @ cpu_tables e @ pit_reset @ pic_remap m1 m2 @ [Sti]"
    unfolding tr using f4(2) by (simp add: pit_init_trace) (simp add: pit_reset_def)
  then show ?thesis using run i(2) kept f4 by (intro exI conjI) (assumption | simp)+
qed

section \<open>The interrupt sources\<close>

lemma returns_bind: "\<exists>x. r = Ret x \<Longrightarrow> (\<And>x. r = Ret x \<Longrightarrow> \<exists>y. f x = Ret y) \<Longrightarrow> \<exists>y. run_bind r f = Ret y"
  by auto

lemma returns_prod: "(\<And>a b. p = (a, b) \<Longrightarrow> \<exists>y. f a b = Ret y) \<Longrightarrow> \<exists>y. (case p of (a, b) \<Rightarrow> f a b) = Ret y"
  by (cases p) simp

lemma start_timers_returns:
  assumes lz: "is_bsr lz" and m: "pages_left 1 (sys_mem s)" and bss: "\<forall>i. bit_map (tmr (sys_kernel s)) i = 0"
    and irq: "irq \<in> {0, 16}"
  shows "\<exists>s1. start_timers lz irq src s = Ret s1 \<and> timers_ok (tmr (sys_kernel s1)) [] \<and> sys_source s1 = Some src \<and>
    basic_irq_handlers (sys_kernel s1) = (basic_irq_handlers (sys_kernel s))(unat irq \<mapsto> Timer_handler)"
proof -
  obtain m' a where a: "kalloc lz (sys_mem s) 1 = Ret (m', a)" "16777216 \<le> unat a" "unat a < 150994944"
    using page_from_kalloc [OF lz, of 0 "sys_mem s" 0] m by auto
  then have nn: "a \<noteq> NULL" by auto
  have b: "(bit_map (tmr (sys_kernel s)))(0 := 0) = bit_map (tmr (sys_kernel s))" using bss by (simp add: fun_eq_iff)
  show ?thesis
    using irq a nn bss
    by (auto simp: start_timers_def timer_init_def on_kernel_def irq_set_handler_def timers_ok_def queued_def entry_used_def b
        set_trace_def set_mem_def)
qed

definition pit_counts :: "hw \<Rightarrow> bool" where
  "pit_counts hw \<longleftrightarrow> (\<forall>t. pit_wait hw t \<noteq> None)"

lemma pit_wait_low: "pit_wait hw t = Some y \<Longrightarrow> sint (fst y) < 10000"
proof (rule pit_wait.raw_induct [where P = "\<lambda>hw t y. sint (fst y) < 10000", rotated])
  fix rec hw t and y :: "i32 \<times> trace"
  assume IH: "\<And>hw t y. rec hw t = Some y \<Longrightarrow> sint (fst y) < 10000"
    and eq: "(let (c, t1) = pit_get_current_count hw t; cnt = ucast c :: i32
      in if 10000 \<le> sint cnt then rec hw t1 else Some (cnt, t1)) = Some y"
  show "sint (fst y) < 10000"
    using eq IH by (auto simp: Let_def split: prod.splits if_splits)
qed

lemma apic_init_timer_returns:
  assumes "pit_counts hw"
  shows "\<exists>a'. apic_init_timer hw a = Ret a'"
proof -
  have cnt: "60000 - fst y \<noteq> (0 :: i32)" if "pit_wait hw t = Some y" for t y
  proof
    assume "60000 - fst y = 0"
    then have "fst y = 60000" by simp
    then show False using pit_wait_low [OF that] by simp
  qed
  have wait: "\<exists>y. lift_run (pit_wait hw t) = Ret y" for t
    using assms [unfolded pit_counts_def, rule_format, of t] by (cases "pit_wait hw t") auto
  have "60000 - c \<noteq> 0" if "lift_run (pit_wait hw t) = Ret (c, t')" for t c t'
    using cnt that by (cases "pit_wait hw t") fastforce+
  then show ?thesis
    unfolding apic_init_timer_def Let_def
    by (intro returns_bind [OF wait] returns_prod) auto
qed

text \<open>The tables of the firmware: all below 16 MB, with a MADT whose entries come to its end.\<close>

definition apic_tables :: "u32 \<Rightarrow> addr \<Rightarrow> mem \<Rightarrow> addr \<Rightarrow> bool" where
  "apic_tables ek sig m rsdt \<longleftrightarrow>
     in_low ek rsdt (36 + 4 * length (rsdt_entries m rsdt)) \<and>
     (\<exists>h \<in> set (rsdt_entries m rsdt). strncmp m h sig 4 = 0) \<and>
     (\<forall>h \<in> set (rsdt_entries m rsdt). h \<noteq> NULL \<and> in_low ek h 8 \<and> (strncmp m h sig 4 = 0 \<longrightarrow>
        (\<exists>xs. madt_at m (h + ld32 m (h + 4)) (h + 44) xs \<and> (\<forall>x \<in> set xs. in_low ek x 2))))"

lemma kept_madt: "kept ek m m' \<Longrightarrow> madt_at m z p xs \<Longrightarrow> \<forall>x \<in> set xs. in_low ek x 2 \<Longrightarrow> madt_at m' z p xs"
proof (induction xs arbitrary: p)
  case (Cons x xs)
  then have "m' (p + of_nat 1) = m (p + of_nat 1)" using kept_byte [OF Cons.prems(1), of p 2 1] by auto
  then show ?case using Cons by auto
qed simp

lemma kept_entries:
  assumes "kept ek m m'" and low: "in_low ek rsdt (36 + 4 * length (rsdt_entries m rsdt))"
  shows "rsdt_entries m' rsdt = rsdt_entries m rsdt"
proof -
  have "in_low ek rsdt (4 + 4)" using low by (auto simp: in_low_def)
  from kept_ld32 [OF assms(1) in_low_field [OF this]] have len: "ld32 m' (rsdt + 4) = ld32 m (rsdt + 4)" by simp
  have "rsdt_entry m' rsdt i = rsdt_entry m rsdt i" if "i < length (rsdt_entries m rsdt)" for i
  proof -
    have "in_low ek rsdt ((36 + 4 * i) + 4)" using low that by (auto simp: in_low_def)
    from kept_ld32 [OF assms(1) in_low_field [OF this]] show ?thesis by (simp add: rsdt_entry_def add.assoc)
  qed
  then show ?thesis by (auto simp: rsdt_entries_def len)
qed

lemma parse_madt_returns:
  assumes k: "kept ek m m'" and t: "apic_tables ek sig m (sdt_table_header ac)" and sig: "in_image ek sig 4"
  shows "\<exists>a'. parse_madt_table m' sig ac a = Ret a'"
proof -
  let ?hs = "rsdt_entries m (sdt_table_header ac)"
  have low: "in_low ek (sdt_table_header ac) (36 + 4 * length ?hs)" and ex: "\<exists>h \<in> set ?hs. strncmp m h sig 4 = 0"
    and each: "\<And>h. h \<in> set ?hs \<Longrightarrow> h \<noteq> NULL \<and> in_low ek h 8 \<and> (strncmp m h sig 4 = 0 \<longrightarrow>
        (\<exists>xs. madt_at m (h + ld32 m (h + 4)) (h + 44) xs \<and> (\<forall>x \<in> set xs. in_low ek x 2)))"
    using t by (auto simp: apic_tables_def)
  have cmp: "strncmp m' h sig 4 = 0 \<longleftrightarrow> strncmp m h sig 4 = 0" if "h \<in> set ?hs" for h
    using kept_strncmp [OF k, of h 4 sig] sig each [OF that] in_low_part [of ek h 8 4] by simp
  have "\<exists>h. find (\<lambda>h. strncmp m' h sig 4 = 0) ?hs = Some h"
    using ex cmp by (cases "find (\<lambda>h. strncmp m' h sig 4 = 0) ?hs") (auto simp: find_None_iff)
  then obtain h where h: "find (\<lambda>h. strncmp m' h sig 4 = 0) ?hs = Some h" by blast
  then have hs: "h \<in> set ?hs" "strncmp m' h sig 4 = 0" by (auto simp: find_Some_iff)
  then obtain xs where xs: "madt_at m (h + ld32 m (h + 4)) (h + 44) xs" "\<forall>x \<in> set xs. in_low ek x 2"
    using each [OF hs(1)] cmp [OF hs(1)] by blast
  have "in_low ek h (4 + 4)" using each [OF hs(1)] by simp
  from kept_ld32 [OF k in_low_field [OF this]] have "ld32 m' (h + 4) = ld32 m (h + 4)" by simp
  then have at: "madt_at m' (h + ld32 m' (h + 4)) (h + 44) xs" using kept_madt [OF k xs] by simp
  have "find_rstd_descriptor m' sig ac = h"
    using h kept_entries [OF k low] by (simp add: find_rstd_descriptor_def)
  then show ?thesis using each [OF hs(1)] madt_loop_entries [OF at] by (simp add: parse_madt_table_def Let_def)
qed

lemma apic_enable_returns:
  assumes "kept ek m m'" and "apic_tables ek sig m (sdt_table_header ac)" and "in_image ek sig 4"
  shows "\<exists>a'. apic_enable hw m' sig ac a = Ret a'"
  unfolding apic_enable_def Let_def
  by (intro returns_prod returns_bind [OF parse_madt_returns [OF assms]]) auto

lemma on_apics_returns:
  assumes "\<And>a. \<exists>a'. f a = Ret a'"
  shows "\<exists>s1. on_apics f s = Ret s1 \<and> sys_kernel s1 = sys_kernel s \<and> sys_mem s1 = sys_mem s"
proof -
  obtain a' where "f ((sys_apics s)\<lparr>atrace := sys_trace s\<rparr>) = Ret a'" using assms by blast
  then show ?thesis by (simp add: on_apics_def) (simp add: sys_mem_def)
qed

lemma on_kernel_handler:
  "unat num < 32 \<Longrightarrow> \<exists>s1. on_kernel (irq_set_handler num f) s = Ret s1 \<and> tmr (sys_kernel s1) = tmr (sys_kernel s) \<and>
     sys_source s1 = sys_source s \<and> basic_irq_handlers (sys_kernel s1) = (basic_irq_handlers (sys_kernel s))(unat num \<mapsto> f)"
  by (simp add: on_kernel_def irq_set_handler_def)

lemma on_kernel_clock:
  "\<exists>s1. on_kernel init_pit_system_timer s = Ret s1 \<and> tmr (sys_kernel s1) = tmr (sys_kernel s) \<and>
     sys_source s1 = sys_source s \<and> basic_irq_handlers (sys_kernel s1) = (basic_irq_handlers (sys_kernel s))(0 \<mapsto> Time_handler)"
  by (simp add: on_kernel_def init_pit_system_timer_def pit_system_timer_init_def irq_set_handler_def Let_def)

definition has_apic :: "'d boot_env \<Rightarrow> bool" where
  "has_apic e \<longleftrightarrow> (let (eax, ebx, ecx, edx) = cpuid (be_cpu e) CPUID_GET_FEATURES in edx AND CPUID_FEAT_EDX_APIC \<noteq> 0)"

definition final_handlers :: "'d boot_env \<Rightarrow> nat \<Rightarrow> irq_fn option" where
  "final_handlers e = (if has_apic e then [0 \<mapsto> Time_handler, 1 \<mapsto> Keyboard_handler, 16 \<mapsto> Timer_handler]
     else [0 \<mapsto> Timer_handler, 1 \<mapsto> Keyboard_handler])"

lemma start_interrupts_returns:
  assumes lz: "is_bsr (be_lz e)" and m: "pages_left 1 (sys_mem s)"
    and bss: "\<forall>i. bit_map (tmr (sys_kernel s)) i = 0" "basic_irq_handlers (sys_kernel s) = Map.empty"
    and apic: "has_apic e \<Longrightarrow> kept (be_ekernel e) m0 (sys_mem s) \<and> apic_tables (be_ekernel e) (be_apic_sig e) m0 (sdt_table_header (sys_acpi s)) \<and>
      in_image (be_ekernel e) (be_apic_sig e) 4 \<and> pit_counts (be_hw e)"
  shows "\<exists>s1. start_interrupts e s = Ret s1 \<and> timers_ok (tmr (sys_kernel s1)) [] \<and>
    basic_irq_handlers (sys_kernel s1) = final_handlers e \<and>
    sys_source s1 = Some (if has_apic e then Apic_timer else Pit_timer)"
proof -
  obtain a b c d where c: "cpuid (be_cpu e) CPUID_GET_FEATURES = (a, b, c, d)" by (metis prod_cases4)
  show ?thesis
  proof (cases "has_apic e")
    case False
    obtain s1 where s1: "start_timers (be_lz e) 0 Pit_timer s = Ret s1" "timers_ok (tmr (sys_kernel s1)) []" "sys_source s1 = Some Pit_timer"
        "basic_irq_handlers (sys_kernel s1) = [0 \<mapsto> Timer_handler]"
      using start_timers_returns [OF lz m bss(1), of 0 Pit_timer] bss(2) by auto
    then show ?thesis using False c on_kernel_handler [of 1 Keyboard_handler s1]
      by (auto simp: start_interrupts_def has_apic_def keyboard_install_def [abs_def] final_handlers_def)
  next
    case True
    let ?t1 = "say ''Enabling apic at 0x%08X\<newline>'' [APIC_LOCATION] s"
    obtain s1 where s1: "on_apics (apic_enable (be_hw e) (sys_mem s) (be_apic_sig e) (sys_acpi s)) ?t1 = Ret s1"
        "sys_kernel s1 = sys_kernel s" "sys_mem s1 = sys_mem s"
      using on_apics_returns [of "apic_enable (be_hw e) (sys_mem s) (be_apic_sig e) (sys_acpi s)" ?t1] apic_enable_returns apic [OF True]
      by fastforce
    let ?s2 = "with_trace (\<lambda>t. set_interrupt_masks 0xFE 0xFE (snd (get_interrupt_masks (be_hw e) t))) s1"
    obtain s3 where s3: "on_apics (apic_init_timer (be_hw e)) ?s2 = Ret s3" "sys_kernel s3 = sys_kernel s" "sys_mem s3 = sys_mem s"
      using on_apics_returns [of "apic_init_timer (be_hw e)" ?s2] apic_init_timer_returns apic [OF True] s1(2,3) by auto
    obtain s4 where s4: "start_timers (be_lz e) 16 Apic_timer s3 = Ret s4" "timers_ok (tmr (sys_kernel s4)) []"
        "sys_source s4 = Some Apic_timer" "basic_irq_handlers (sys_kernel s4) = [16 \<mapsto> Timer_handler]"
      using start_timers_returns [OF lz, of s3 16 Apic_timer] m bss s3 by auto
    obtain s5 where s5: "on_kernel init_pit_system_timer (say ''Changing pit to system timer (100us) tics\<newline>'' [] s4) = Ret s5"
        "tmr (sys_kernel s5) = tmr (sys_kernel s4)" "sys_source s5 = Some Apic_timer"
        "basic_irq_handlers (sys_kernel s5) = [16 \<mapsto> Timer_handler, 0 \<mapsto> Time_handler]"
      using on_kernel_clock [of "say ''Changing pit to system timer (100us) tics\<newline>'' [] s4"] s4(3,4)
      by (auto simp: say_def with_trace_def)
    have "start_interrupts e s = on_kernel (keyboard_install 0) s5"
      using True c s1(1) s3(1) s4(1) s5(1) by (simp add: start_interrupts_def has_apic_def Let_def)
    then show ?thesis using True s4(2) s5 on_kernel_handler [of 1 Keyboard_handler s5]
      by (auto simp: keyboard_install_def [abs_def] final_handlers_def fun_eq_iff)
  qed
qed

section \<open>The start as a whole\<close>

text \<open>
  What the start relies on: lzcnt is read as BSR, the kernel's image ends in the first 4 MB and behind
  the first one, the static variables are zero, the firmware's root pointer is where find_rsdp looks, the
  table it leads to lies below 16 MB and has the right check sum, and with a local APIC, the firmware's
  tables lie below 16 MB with a MADT that comes to its end, and the PIT counts down.
\<close>

definition can_start :: "'d boot_env \<Rightarrow> 'd system \<Rightarrow> bool" where
  "can_start e s \<longleftrightarrow> is_bsr (be_lz e) \<and> image_ends (be_ekernel e) \<and>
     in_image (be_ekernel e) (be_rsdp_sig e) 8 \<and>
     (\<forall>i. bit_map (tmr (sys_kernel s)) i = 0) \<and> basic_irq_handlers (sys_kernel s) = Map.empty \<and>
     (\<exists>p rsdt. find (rsdp_at (sys_mem s) (be_rsdp_sig e)) scan_addresses = Some p \<and>
       rsdt = ld32 (sys_mem s) (p + 16) \<and> sdt_valid (sys_mem s) rsdt \<and> in_low (be_ekernel e) rsdt 8 \<and>
       in_low (be_ekernel e) rsdt (unat (ld32 (sys_mem s) (rsdt + 4))) \<and>
       (has_apic e \<longrightarrow> in_image (be_ekernel e) (be_apic_sig e) 4 \<and>
         apic_tables (be_ekernel e) (be_apic_sig e) (sys_mem s) rsdt \<and> pit_counts (be_hw e)))"

text \<open>terminal_init moves the CRT controller's cursor off the screen.\<close>

definition cursor_off :: trace where
  "cursor_off = [Outb 0x3D4 14, Outb 0x3D5 0xFF, Outb 0x3D4 15, Outb 0x3D5 0xFF]"

definition serial_setup :: trace where
  "serial_setup = [Outb 0x3F9 0, Outb 0x3FB 0x80, Outb 0x3F8 3, Outb 0x3F9 0, Outb 0x3FB 3, Outb 0x3FA 0xC7, Outb 0x3FC 0x0B]"

lemma fold_ctrace: "(\<And>x c. ctrace (f x c) = ctrace c) \<Longrightarrow> ctrace (fold f xs c) = ctrace c"
  by (induction xs arbitrary: c) auto

lemma terminal_set_char_ctrace [simp]: "ctrace (terminal_set_char i v c) = ctrace c"
  by (simp add: terminal_set_char_def vga_set_char_def split: screen.splits)

lemma terminal_init_ctrace: "ctrace (terminal_init c) = ctrace c @ cursor_off"
proof -
  have "(ucast (mask 24 :: u32) :: u8) = 0xFF" by (simp add: mask_eq_exp_minus_1)
  then show ?thesis
    by (simp add: terminal_init_def Let_def fold_ctrace vga_move_cursor_def outb_fb_def cursor_off_def upd_state_def)
qed

lemma start_console_halts: "magic \<noteq> MULTIBOOT_BOOTLOADER_MAGIC \<Longrightarrow> start_console magic s = Trap Halted"
  by (simp add: start_console_def Let_def)

lemma start_console_returns:
  obtains s0 where "start_console MULTIBOOT_BOOTLOADER_MAGIC s = Ret s0" "sys_mem s0 = sys_mem s"
    "tmr (sys_kernel s0) = tmr (sys_kernel s)" "basic_irq_handlers (sys_kernel s0) = basic_irq_handlers (sys_kernel s)"
    "device_trace (sys_trace s0) = device_trace (sys_trace s) @ cursor_off @ serial_setup"
proof -
  have up: "ctrace (upd_state f c) = ctrace c" for f c by (simp add: upd_state_def)
  let ?s1 = "say ''Init done\<newline>'' [] (on_console terminal_init s)"
  let ?s2 = "on_console (upd_state (\<lambda>c. c\<lparr>output_to_serial := 1\<rparr>)) (with_trace init_serial ?s1)"
  have "sys_mem ?s2 = sys_mem s" "tmr (sys_kernel ?s2) = tmr (sys_kernel s)"
    "basic_irq_handlers (sys_kernel ?s2) = basic_irq_handlers (sys_kernel s)"
    by (simp_all add: on_console_def Let_def sys_mem_def with_trace_def say_def set_trace_def)
  moreover have "device_trace (sys_trace ?s2) = device_trace (sys_trace s) @ cursor_off @ serial_setup"
    by (simp add: on_console_def Let_def up terminal_init_ctrace init_serial_def COM1_def)
      (simp add: cursor_off_def serial_setup_def)
  ultimately show thesis by (intro that [of ?s2]) (simp_all add: start_console_def Let_def)
qed

lemma start_returns:
  assumes "can_start e s"
  shows "\<exists>s0 s1 s2 m1 m2. start_console MULTIBOOT_BOOTLOADER_MAGIC s = Ret s0 \<and> start_tables e s0 = Ret s1 \<and>
    start_interrupts e s1 = Ret s2 \<and>
    timers_ok (tmr (sys_kernel s2)) [] \<and> basic_irq_handlers (sys_kernel s2) = final_handlers e \<and>
    sys_source s2 = Some (if has_apic e then Apic_timer else Pit_timer) \<and>
    device_trace (sys_trace s1) =
      device_trace (sys_trace s) @ cursor_off @ serial_setup @ cpu_tables e @ pit_reset @ pic_remap m1 m2 @ [Sti]"
proof -
  obtain s0 where s0: "start_console MULTIBOOT_BOOTLOADER_MAGIC s = Ret s0" "sys_mem s0 = sys_mem s"
    "tmr (sys_kernel s0) = tmr (sys_kernel s)" "basic_irq_handlers (sys_kernel s0) = basic_irq_handlers (sys_kernel s)"
    "device_trace (sys_trace s0) = device_trace (sys_trace s) @ cursor_off @ serial_setup"
    by (rule start_console_returns)
  obtain p where lz: "is_bsr (be_lz e)" and ek: "image_ends (be_ekernel e)"
    and sig: "in_image (be_ekernel e) (be_rsdp_sig e) 8"
    and bss: "\<forall>i. bit_map (tmr (sys_kernel s)) i = 0" "basic_irq_handlers (sys_kernel s) = Map.empty"
    and p: "find (rsdp_at (sys_mem s0) (be_rsdp_sig e)) scan_addresses = Some p"
    and sdt: "sdt_valid (sys_mem s0) (ld32 (sys_mem s0) (p + 16))"
      "in_low (be_ekernel e) (ld32 (sys_mem s0) (p + 16)) (unat (ld32 (sys_mem s0) (ld32 (sys_mem s0) (p + 16) + 4)))"
      "in_low (be_ekernel e) (ld32 (sys_mem s0) (p + 16)) 8"
    and apic: "has_apic e \<Longrightarrow> in_image (be_ekernel e) (be_apic_sig e) 4 \<and>
      apic_tables (be_ekernel e) (be_apic_sig e) (sys_mem s0) (ld32 (sys_mem s0) (p + 16)) \<and> pit_counts (be_hw e)"
    using assms unfolding can_start_def s0(2) by blast
  from start_tables_returns [OF lz ek sig p sdt] obtain s1 m1 m2 where s1: "start_tables e s0 = Ret s1" "pages_left 1 (sys_mem s1)"
      "kept (be_ekernel e) (sys_mem s0) (sys_mem s1)" "sys_kernel s1 = sys_kernel s0"
      "sdt_table_header (sys_acpi s1) = ld32 (sys_mem s0) (p + 16)"
      "device_trace (sys_trace s1) = device_trace (sys_trace s0) @ cpu_tables e @ pit_reset @ pic_remap m1 m2 @ [Sti]"
    by blast
  have "\<forall>i. bit_map (tmr (sys_kernel s1)) i = 0" "basic_irq_handlers (sys_kernel s1) = Map.empty"
    using bss unfolding s1(4) s0(3,4) by simp_all
  from start_interrupts_returns [OF lz s1(2) this, of "sys_mem s0"] obtain s2 where s2: "start_interrupts e s1 = Ret s2"
      "timers_ok (tmr (sys_kernel s2)) []" "basic_irq_handlers (sys_kernel s2) = final_handlers e"
      "sys_source s2 = Some (if has_apic e then Apic_timer else Pit_timer)"
    using s1 apic by fastforce
  show ?thesis using s0(1) s1(1) s2 s1(6) s0(5) by (intro exI conjI) (assumption | simp)+
qed

text \<open>
  C23: the start prepares the interrupts. Under can_start and with the right magic number the part of kmain
  up to keyboard_install returns and leaves the timer queue empty and well formed. With a local APIC the
  clock, the keyboard and the timers are registered for vectors 32, 33 and 48, so that with any well-formed
  console the kernel is in a state in which every interrupt is handled (the invariant of the theory
  Interrupts); without one the timers are registered in the place of the clock, which then never ticks. With
  a wrong magic number the CPU is halted for good. (The messages of the start are events of the trace;
  what printing them costs the screen, the serial line and the page allocator is not part of this model.)
\<close>
theorem kmain_prepares_interrupts:
  assumes "can_start e s"
  shows "if magic \<noteq> MULTIBOOT_BOOTLOADER_MAGIC then kmain e magic s = Trap Halted
    else \<exists>s2. kmain e magic s = start_devices e s2 \<and> timers_ok (tmr (sys_kernel s2)) [] \<and>
      (if has_apic e
       then sys_source s2 = Some Apic_timer \<and>
         (\<forall>c. console_ok (be_lz e) c \<longrightarrow> kernel_ok (be_lz e) ((sys_kernel s2)\<lparr>con := c\<rparr>))
       else sys_source s2 = Some Pit_timer \<and>
         basic_irq_handlers (sys_kernel s2) = [0 \<mapsto> Timer_handler, 1 \<mapsto> Keyboard_handler])"
proof (cases "magic = MULTIBOOT_BOOTLOADER_MAGIC")
  case False
  then show ?thesis by (simp add: kmain_def start_console_halts)
next
  case True
  obtain s0 s1 s2 where s: "start_console magic s = Ret s0" "start_tables e s0 = Ret s1" "start_interrupts e s1 = Ret s2"
      "timers_ok (tmr (sys_kernel s2)) []" "basic_irq_handlers (sys_kernel s2) = final_handlers e"
      "sys_source s2 = Some (if has_apic e then Apic_timer else Pit_timer)"
    using start_returns [OF assms] unfolding True by blast
  then have "kmain e magic s = start_devices e s2" by (simp add: kmain_def)
  then have "\<exists>s2. kmain e magic s = start_devices e s2 \<and> timers_ok (tmr (sys_kernel s2)) [] \<and>
      (if has_apic e
       then sys_source s2 = Some Apic_timer \<and>
         (\<forall>c. console_ok (be_lz e) c \<longrightarrow> kernel_ok (be_lz e) ((sys_kernel s2)\<lparr>con := c\<rparr>))
       else sys_source s2 = Some Pit_timer \<and>
         basic_irq_handlers (sys_kernel s2) = [0 \<mapsto> Timer_handler, 1 \<mapsto> Keyboard_handler])"
    using s(4-6) by (intro exI [of _ s2]) (auto simp: final_handlers_def kernel_ok_def)
  then show ?thesis using True by simp
qed


section \<open>Witnesses\<close>

text \<open>A root pointer at 0xE0000, an RSDT with one entry at 0xE0100, a MADT without entries at 0xE0200.\<close>

definition firmware_bytes :: "(addr \<times> u8) list" where
  "firmware_bytes =
     [(0xC0100000, 82), (0xC0100001, 83), (0xC0100002, 68), (0xC0100003, 32), (0xC0100004, 80),
      (0xC0100005, 84), (0xC0100006, 82), (0xC0100007, 32), (0xC0100010, 65), (0xC0100011, 80),
      (0xC0100012, 73), (0xC0100013, 67), (0xE0000, 82), (0xE0001, 83), (0xE0002, 68), (0xE0003, 32),
      (0xE0004, 80), (0xE0005, 84), (0xE0006, 82), (0xE0007, 32), (0xE0008, 210), (0xE0011, 1),
      (0xE0012, 14), (0xE0104, 40), (0xE0109, 200), (0xE0125, 2), (0xE0126, 14), (0xE0200, 65), (0xE0201, 80),
      (0xE0202, 73), (0xE0203, 67), (0xE0204, 44)]"

definition firmware :: mem where
  "firmware a = (case map_of firmware_bytes a of None \<Rightarrow> 0 | Some b \<Rightarrow> b)"

definition apic_cpu :: cpu where
  "apic_cpu = intel\<lparr>cpu_leaf := (\<lambda>_. (0, 0, 0, 0x100))\<rparr>"

definition example_env :: "cpu \<Rightarrow> unit boot_env" where
  "example_env c = \<lparr>be_pci = \<lparr>env_lz = bsr, env_hw = quiet, env_pd = 0xC0213000, env_stub = 0, env_irq_handler = 0, env_frame = 0\<rparr>,
     be_cpu = c, be_isr = (\<lambda>_. 0), be_irq = (\<lambda>_. 0), be_irqTime = 0, be_gdt = 0, be_gp = 0x5000, be_tss = 0, be_tss_size = 0,
     be_idt = 0, be_idtp = 0x6000, be_rsdp_sig = 0xC0100000, be_apic_sig = 0xC0100010, be_core0 = 0, be_symbols = [],
     be_ekernel = 0xC0212345, be_buffer = 0, be_init = (\<lambda>_. Ret), be_register_bus = Ret\<rparr>"

definition example_system :: "'d pci_world \<Rightarrow> mem \<Rightarrow> 'd system" where
  "example_system w m = \<lparr>sys_kernel = boot_kernel\<lparr>basic_irq_handlers := Map.empty\<rparr>, sys_source = None,
     sys_acpi = \<lparr>rsdp_base = 0, sdt_table_header = 0, acpi_trace = []\<rparr>,
     sys_apics = \<lparr>ioapic_id = 0, ioapic_addr = 0, apic_freq = 0, apic_tick_count = 0, irq_handler_set = False, atrace = []\<rparr>,
     sys_gdt = (\<lambda>_. \<lparr>limit_low = 0, base_low = 0, base_middle = 0, access = 0, granularity = 0, base_high = 0\<rparr>),
     sys_gp = \<lparr>gp_limit = 0, gp_base = 0\<rparr>, sys_world = w\<lparr>heap := \<lparr>smem = m, free_list = 0\<rparr>, wtrace := []\<rparr>,
     sys_drivers = []\<rparr>"

definition example_start :: "unit system" where
  "example_start = example_system slot3_world firmware"

lemma pit_counts_quiet: "pit_counts quiet"
  unfolding pit_counts_def
  by (intro allI, subst pit_wait.simps) (simp add: pit_get_current_count_def inb_def quiet_def Let_def)

lemma strncmp_same:
  "map (\<lambda>i. m (a + of_nat i)) [0..<unat n] = map (\<lambda>i. m (b + of_nat i)) [0..<unat n] \<Longrightarrow> n \<noteq> 0 \<Longrightarrow> strncmp m a b n = 0"
  by (simp add: strncmp_zero_iff)

lemma firmware_root:
  "strncmp firmware 0xE0000 0xC0100000 8 = 0" "byte_sum firmware 0xE0000 20 AND 0xFF = 0"
  "ld32 firmware (0xE0000 + 16) = 0xE0100"
    apply (rule strncmp_same; simp add: upt_conv_Cons firmware_def firmware_bytes_def del: upt_Suc map_eq_conv)
   apply (simp add: byte_sum_def upt_conv_Cons firmware_def firmware_bytes_def del: upt_Suc)
  apply (simp add: ld32_def firmware_def firmware_bytes_def)
  done

lemma firmware_rsdp: "find (rsdp_at firmware 0xC0100000) scan_addresses = Some 0xE0000"
proof -
  have "[0..<8192] = 0 # [Suc 0..<8192]" by (rule upt_conv_Cons) simp
  then show ?thesis using firmware_root(1,2) unfolding scan_addresses_def by (simp add: rsdp_at_def del: upt_Suc)
qed

lemma firmware_sdt: "sdt_valid firmware 0xE0100" "ld32 firmware 0xE0104 = 40"
proof -
  show len: "ld32 firmware 0xE0104 = 40" by (simp add: ld32_def firmware_def firmware_bytes_def)
  have "byte_sum firmware 0xE0100 40 AND 0xFF = 0"
    by (simp add: byte_sum_def upt_conv_Cons firmware_def firmware_bytes_def del: upt_Suc)
  then show "sdt_valid firmware 0xE0100" by (simp add: sdt_valid_def len)
qed

lemma example_low: "unat a + n \<le> 0x101000 \<Longrightarrow> in_low 0xC0212345 a n"
  using table_low_from [of "0xC0212345"] by (simp add: in_low_def image_ends_def)

lemma firmware_tables: "apic_tables 0xC0212345 0xC0100010 firmware 0xE0100"
proof -
  have "ld32 firmware 0xE0104 = 40" "ld32 firmware 0xE0124 = 0xE0200" "ld32 firmware 0xE0204 = 44"
    by (simp_all add: ld32_def firmware_def firmware_bytes_def)
  then have "rsdt_entries firmware 0xE0100 = [0xE0200]"
    and "madt_at firmware (0xE0200 + ld32 firmware (0xE0200 + 4)) (0xE0200 + 44) []"
    by (simp_all add: rsdt_entries_def rsdt_entry_def)
  moreover have "strncmp firmware 0xE0200 0xC0100010 4 = 0"
    by (rule strncmp_same; simp add: upt_conv_Cons firmware_def firmware_bytes_def del: upt_Suc map_eq_conv)
  ultimately show ?thesis unfolding apic_tables_def by (auto simp: example_low intro!: exI [of _ "[]"])
qed

lemma example_can_start: "can_start (example_env c) example_start"
proof -
  have "\<forall>i. bit_map (tmr (sys_kernel example_start)) i = 0"
    by (simp add: example_start_def example_system_def boot_kernel_def no_timers_def)
  then show ?thesis
    using firmware_rsdp firmware_root(3) firmware_tables firmware_sdt pit_counts_quiet is_bsr_bsr
    by (auto simp: can_start_def example_env_def in_image_def image_ends_def example_low example_start_def example_system_def sys_mem_def)
qed

theorem kmain_prepares_interrupts_witness:
  "(\<exists>s2. kmain (example_env apic_cpu) MULTIBOOT_BOOTLOADER_MAGIC example_start = start_devices (example_env apic_cpu) s2 \<and>
     kernel_ok bsr ((sys_kernel s2)\<lparr>con := con boot_kernel\<rparr>)) \<and>
   (\<exists>s2. kmain (example_env intel) MULTIBOOT_BOOTLOADER_MAGIC example_start = start_devices (example_env intel) s2 \<and>
     sys_source s2 = Some Pit_timer) \<and>
   kmain (example_env intel) 0 example_start = Trap Halted"
proof -
  have apic: "has_apic (example_env apic_cpu)" "\<not> has_apic (example_env intel)" by code_simp+
  have "console_ok bsr (con boot_kernel)" using boot_kernel_ok by (simp add: kernel_ok_def)
  moreover have "be_lz (example_env c) = bsr" for c by (simp add: example_env_def)
  moreover have "(0 :: u32) \<noteq> MULTIBOOT_BOOTLOADER_MAGIC" by (simp add: MULTIBOOT_BOOTLOADER_MAGIC_def)
  ultimately show ?thesis
    using kmain_prepares_interrupts [OF example_can_start, of MULTIBOOT_BOOTLOADER_MAGIC apic_cpu]
      kmain_prepares_interrupts [OF example_can_start, of MULTIBOOT_BOOTLOADER_MAGIC intel]
      kmain_prepares_interrupts [OF example_can_start, of 0 intel] apic by auto
qed


section \<open>The functions of the table\<close>

text \<open>The table as the linker lays it out, and its functions run one after the other.\<close>

definition core_table :: "mem \<Rightarrow> addr \<Rightarrow> addr list \<Rightarrow> bool" where
  "core_table m a fs \<longleftrightarrow> length fs < 2 ^ 30 \<and> ld32 m a = of_nat (length fs) \<and>
     (\<forall>i < length fs. ld32 m (a + 4 + 4 * of_nat i) = fs ! i)"

primrec run_all :: "(addr \<Rightarrow> 'd system \<Rightarrow> 'd system run) \<Rightarrow> addr list \<Rightarrow> 'd system \<Rightarrow> 'd system run" where
  "run_all f [] s = Ret s"
| "run_all f (x # xs) s = run_bind (f x s) (run_all f xs)"

lemma kinit_loop_runs:
  assumes keeps: "\<And>x s s'. x \<in> set fs \<Longrightarrow> x \<noteq> NULL \<Longrightarrow> core_table (sys_mem s) a fs \<Longrightarrow> f x s = Ret s' \<Longrightarrow> core_table (sys_mem s') a fs"
  shows "core_table (sys_mem s) a fs \<Longrightarrow> k \<le> length fs \<Longrightarrow>
    kinit_loop f (a + 4) [length fs - k..<length fs] s = run_all f (filter (\<lambda>x. x \<noteq> NULL) (drop (length fs - k) fs)) s"
proof (induction k arbitrary: s)
  case (Suc k)
  let ?i = "length fs - Suc k"
  have i: "?i < length fs" "Suc ?i = length fs - k" using Suc.prems(2) by auto
  have split: "[?i..<length fs] = ?i # [length fs - k..<length fs]" "drop ?i fs = fs ! ?i # drop (length fs - k) fs"
    using i upt_conv_Cons [of ?i "length fs"] Cons_nth_drop_Suc [of ?i fs] by auto
  have at: "ld32 (sys_mem s) (a + 4 + 4 * of_nat ?i) = fs ! ?i" using Suc.prems(1) i(1) by (simp add: core_table_def)
  have IH: "kinit_loop f (a + 4) [length fs - k..<length fs] s' = run_all f (filter (\<lambda>x. x \<noteq> NULL) (drop (length fs - k) fs)) s'"
    if "core_table (sys_mem s') a fs" for s'
    using Suc.IH [OF that] Suc.prems(2) by simp
  show ?case
  proof (cases "fs ! ?i = NULL")
    case True
    then show ?thesis using IH [OF Suc.prems(1)] at unfolding split by (simp only: kinit_loop.simps Let_def) simp
  next
    case False
    have "run_bind (f (fs ! ?i) s) (kinit_loop f (a + 4) [length fs - k..<length fs]) =
        run_bind (f (fs ! ?i) s) (run_all f (filter (\<lambda>x. x \<noteq> NULL) (drop (length fs - k) fs)))"
    proof (rule run_bind_cong)
      fix s' assume "f (fs ! ?i) s = Ret s'"
      then show "kinit_loop f (a + 4) [length fs - k..<length fs] s' = run_all f (filter (\<lambda>x. x \<noteq> NULL) (drop (length fs - k) fs)) s'"
        using IH keeps [OF nth_mem [OF i(1)] False Suc.prems(1)] by blast
    qed simp
    then show ?thesis using False at unfolding split by (simp only: kinit_loop.simps Let_def) simp
  qed
qed simp

text \<open>
  the table of init functions. When the linker's table holds the functions fs and none of them writes
  to the table, kinit_core0 is the same as calling the functions of fs that are not NULL, in order, each on
  the state the one before has left, and stopping at the first that does not return.
\<close>
theorem kinit_core0_runs:
  assumes "core_table (sys_mem s) a fs"
    and "\<And>x s s'. x \<in> set fs \<Longrightarrow> x \<noteq> NULL \<Longrightarrow> core_table (sys_mem s) a fs \<Longrightarrow> f x s = Ret s' \<Longrightarrow> core_table (sys_mem s') a fs"
  shows "kinit_core0 f a s = run_all f (filter (\<lambda>x. x \<noteq> NULL) fs) s"
proof -
  have "unat (ld32 (sys_mem s) a) = length fs" using assms(1) by (simp add: core_table_def unat_of_nat)
  then show ?thesis using kinit_loop_runs [OF assms(2) assms(1), where k = "length fs"] by (simp add: kinit_core0_def Let_def)
qed

text \<open>The one function of this kernel's table is virtio_driver_register, which lies at the address reg.\<close>

definition core0_function :: "virtio_env \<Rightarrow> addr \<Rightarrow> addr \<Rightarrow> vdevs system \<Rightarrow> vdevs system run" where
  "core0_function e reg x s =
     (if x = reg then
        let (drivers, w) = virtio_driver_register e (sys_drivers s, sys_world s)
        in Ret (s\<lparr>sys_drivers := drivers, sys_world := w\<rparr>)
      else Trap Null_deref)"

lemma core0_function_mem: "core0_function e reg x s = Ret s' \<Longrightarrow> sys_mem s' = sys_mem s"
  by (auto simp: core0_function_def virtio_driver_register_def pci_register_driver_def bus_register_driver_def sys_mem_def
      split: if_splits)

definition core0_start :: "vdevs system" where
  "core0_start = example_system virtio_world (st32 (st32 (\<lambda>_. 0) 0xC0200000 1) 0xC0200004 0x5000)"

theorem kinit_core0_runs_witness:
  "\<exists>s. kinit_core0 (core0_function (virtio_example quiet) 0x5000) 0xC0200000 core0_start = Ret s \<and>
     map drv_addr (sys_drivers s) = [at_pci_driver (virtio_example quiet)]"
proof -
  let ?f = "core0_function (virtio_example quiet) 0x5000"
  have m: "sys_mem core0_start = st32 (st32 (\<lambda>_. 0) 0xC0200000 1) 0xC0200004 0x5000"
    by (simp add: core0_start_def example_system_def sys_mem_def)
  have "ld32 (sys_mem core0_start) 0xC0200000 = 1" unfolding m by (subst ld32_st32_other) simp_all
  then have "core_table (sys_mem core0_start) 0xC0200000 [0x5000]" by (simp add: core_table_def m)
  then have "kinit_core0 ?f 0xC0200000 core0_start = run_all ?f (filter (\<lambda>x. x \<noteq> NULL) [0x5000]) core0_start"
    by (rule kinit_core0_runs) (auto dest: core0_function_mem)
  moreover have "sys_drivers core0_start = []" by (simp add: core0_start_def example_system_def)
  ultimately show ?thesis
    by (simp add: core0_function_def virtio_driver_register_def pci_register_driver_def virtio_pci_driver_def)
qed

end
