(* ===== verification/Spec2Isabelle.thy ===== *)
theory Spec2Isabelle
  imports Prelude Libc_Mem Libc_String Libc_List Buddy_System Terminal Timer Slab_System Hardware Descriptors Timer_System Interrupts Paging Apic Pci Rbtree Scatterlist Virtqueue Virtio Cpu Sleep Boot
begin

text \<open>
  A verification library for the GiOS kernel, a 32-bit x86 kernel in C (src/kernel, src/libc). It
  models the kernel's own algorithms and drivers as functions on explicit state and proves what
  they do; code that does not do what it means to do is modelled as it is.

  The conventions. The kernel is built with -m32, so a pointer, an int and size_t are 32-bit words;
  u8, u16, u32 and u64 are words of their width, and a comparison the C code makes on a signed type
  is written with sint. A function that can fail returns a run: None when a loop does not end, Some
  (Inl trap) when the CPU stops at a failed assert1, a null pointer, a division by zero, an access
  outside an array, a page fault of page_init or a hlt with the interrupts disabled, Some (Inr x) when
  it returns x (Prelude). A loop is structural recursion when its
  count is known, function with a termination proof when a measure is, partial_function (option)
  otherwise; no fuel is used but the ttl of 48 that the capability search has itself and the two
  levels of terminal_put_char, which calls itself for the prompt (put_char_fuel shows they suffice).
  Memory that hardware or several parts see is byte memory (Libc_Mem); a structure with one owner is
  a record. Memory is addressed virtually, without translation; only page_init, which runs on the boot
  directory and replaces it, has the checks of the mapping, and what its writes reach under another
  address is left open (table_alias). What devices answer is a parameter, a function of the trace of everything the kernel has
  done to the machine (Hardware). The instruction lzcnt, link-time addresses and stack addresses are
  parameters as well.

  The parts, bottom up.

  libc: Libc_Mem (memset, memcpy of string.c), Libc_String (the other string functions and number
  conversion), Libc_List (list.c; the locales walkable and appendable state what clients of lists
  need), Rbtree (rbtree.c), Scatterlist (scatterlist.c). Shown: round trips of conversion and of
  scatter lists, registration order in lists, and that insertion keeps a red-black tree one, for all
  the cases of recolouring and rotation.

  Memory: Buddy models the page allocator of kernel/arch/x86/page.c over byte memory; Buddy_Tree is
  its abstract view, sets of live blocks of a binary tree; Buddy_Memory proves the bit trees refine
  it, Buddy_System proves the allocator as the kernel calls it, through the locale page_allocator.
  Paging models page_init, mmap and free_range and reads the tables back as the MMU does; page_init
  faults when the kernel's image ends above 0xC03FF000, because the boot directory maps 4 MB. Slab models
  kernel/memory.c on top of kalloc, and Slab_System what a sequence of its requests gets. Shown: what an
  allocation returns was unused and is disjoint from all else, the slab allocator packs its blocks into
  the page of its node, release restores the tree, and which page kfree really releases. The allocator computes
  with the position of the highest bit, which the instruction it uses gives only on a CPU without lzcnt;
  is_bsr says so, and lzcnt_blocks_too_small shows what happens on the others.

  Time and interrupts: Timer is the timer queue of kernel/timer.c, Timer_System its runs as a step
  relation, Sleep is sleep with its halts; Descriptors are gdt.c and idt.c with readers that decode them as the CPU does; Interrupts
  are irq.c, pit.c, time.c and keyboard.c over the state of the whole kernel, Acpi is acpi.c with
  readers for the structures of acpi.h, Apic is apic.c, Cpu is COM1.c, cpuid.c and msr.c, with a reader of the serial line. An
  interrupt runs its handler with all its output: the clock prints its seconds, a due timer of kmain its
  tick and the keyboard its echo through the terminal and the serial line, so that printing can trap
  when no page is left for the screens scrolled away, and never ends when the serial line stops
  draining. idt_call_irq is given the functions behind the addresses registered as a parameter. Shown:
  the queue stays sorted and its bitmap exact in any order of events, every interrupt
  is handled and acknowledged once in every reachable state or fails in one of these two ways, a key
  stream types the text it stands for, sleep returns whatever else is queued unless a tick it prints
  fails, the local APIC's handler calls the highest vector in
  service, the walk of the MADT returns exactly on tables that
  come to an end, and the serial line sends the bytes it is given.

  Terminal is kernel/arch/x86/framebuffer.c with printk. A character that goes to the serial line waits
  for the transmitter as write_serial does; drains says that the line takes every character. Shown: on
  such a line no operation leaves the screen or fails to return, what a character, a new line and a
  backspace do to the 80 by 25 cells, and the text kprint puts for a plain message or one with a %d.

  Devices: Pci_Config and Pci are drivers/pci/pci.c (configuration space, capabilities, enumeration,
  choice of drivers), Pci_Msi is pci_msi.c; Virtqueue is virtio_queue.c over memory shared with the
  device; Virtio_Transport and Virtio are virtio.c, Virtio_Console and Virtio_Block the two drivers.
  The bus calls its drivers through the record pci_driver, and virtio_pci_driver is that record for
  the kernel's only driver; the locale bus_drivers states what the bus asks of its drivers; the state the drivers keep is the field driver_data the bus does not
  touch. Shown: a walk finds exactly the devices present, and it returns
  when none of them has a driver, capabilities or more functions and the slab node has room for them; the capability search equals a walk of the
  list in configuration space, the descriptors of a list, a console write and a block request are
  those the data asks for, a buffer of the console is announced to the device, and the handshake leaves the device with the right status.

  The start: Boot composes all components into kmain.c and kinit.c. The record system holds their
  states; they share one memory and one trace. Shown: under can_start (what the firmware, the linker and
  the hardware have to provide) the start reaches the devices, interrupts are enabled only after the
  tables they need, the kernel then satisfies the invariant of Interrupts, and the table of init
  functions is run in order; with a wrong magic number the CPU is halted for good. What follows pci_enum in kmain is modelled without a theorem.

  How the parts meet: Slab and Terminal take pages from Buddy, Timer its page; Interrupts composes
  Terminal, Timer and the clock; Pci uses Paging for MSI-X tables and Slab for devices; Virtio builds
  queues with Slab and Buddy, fills them with Scatterlist, and plugs into Pci.

  Not modelled: assembly (the entry code, the interrupt stubs, the context of gdt_flush), which the
  models meet as events or parameters; headers that only name registers (ide.h, sched.h, syscall.h) and
  the multiboot structures, which no code reads; device_bus.c beyond its two registration functions,
  because the rest of the file does not compile. The device side of a virtqueue is not modelled: during
  one call of the kernel the device writes no memory. The messages of the start and of the drivers are
  events of the trace (Printk): the theory Terminal says what printk does, and the messages of interrupt
  handlers are run through it, but those of the start and the drivers are not, so that their effect on the
  screen, the serial line and the page allocator, and whether they return, is not part of the theorems
  of Boot, Pci and Virtio. Interrupts are delivered between calls and during a halt, not inside a call.
\<close>

end
